theory Spec2Isabelle
  imports Main "HOL-Library.Word"
begin

section \<open>The thread manager of the embeddable V8 (src/v8threads.cc, src/regexp-stack.cc)\<close>

text \<open>
  The C++ keeps every piece of state behind \<^verbatim>\<open>v8_context()\<close>. The embedding passes
  one context explicitly and returns the updated one. The calling OS thread, which the
  C++ reads from the platform, is the explicit argument \<open>self\<close>.

  Naming: a C++ member \<^verbatim>\<open>foo_\<close> is the record field \<open>foo\<close> (a name cannot end in an
  underscore here); \<^verbatim>\<open>id_\<close>, \<^verbatim>\<open>next_\<close> and \<^verbatim>\<open>previous_\<close> of \<^verbatim>\<open>ThreadState\<close> are
  \<open>state_id\<close>, \<open>next_state\<close> and \<open>previous_state\<close>.
\<close>

subsection \<open>Basic types\<close>

type_synonym thread = nat
type_synonym addr = nat
type_synonym byte = "8 word"
type_synonym int32 = "32 word"

text \<open>A \<^verbatim>\<open>char*\<close> into the buffer of a thread state: the state and an offset.\<close>
type_synonym char_ptr = "addr \<times> nat"

datatype subsystem =
  HandleScopeImplementer | Top | Relocatable | Debug | StackGuard | RegExpStack | Bootstrapper

text \<open>
  Calls that leave the files modelled here are recorded, in order, in the field \<open>trace\<close>
  of the context. \<open>Archive\<close>, \<open>Restore\<close> and \<open>Free\<close> are a subsystem's archive, restore
  and \<^verbatim>\<open>FreeThreadResources\<close> function.
\<close>
datatype event =
  Archive subsystem
  | Restore subsystem
  | Free subsystem
  | StackGuard_InitThread
  | StackGuard_ClearThread
  | StackGuard_TerminateExecution
  | StackGuard_Preempt
  | V8_Initialize
  | Top_set_thread_id int32

datatype error =
  AssertionFailed string
  | NullDereference
  | Blocked

text \<open>
  What the source takes from headers that are not part of the files at hand: the build
  flags, \<^verbatim>\<open>ThreadManager::kInvalidId\<close>, every subsystem's \<^verbatim>\<open>ArchiveSpacePerThread()\<close>,
  \<^verbatim>\<open>sizeof(RegExpStackData::ThreadLocal)\<close>, the object representation of a default
  constructed \<^verbatim>\<open>RegExpStackData::ThreadLocal()\<close> and the value of the member
  \<^verbatim>\<open>memory_size_\<close> in such an object representation. \<open>uninitialised a i\<close> is the byte
  found at offset \<open>i\<close> of the buffer that \<^verbatim>\<open>NewArray<char>\<close> returns for thread state
  \<open>a\<close>: the C++ does not initialise it, so it is whatever the platform leaves there.
\<close>
record config =
  DEBUG :: bool
  ENABLE_DEBUGGER_SUPPORT :: bool
  kInvalidId :: int32
  SpacePerThread :: "subsystem \<Rightarrow> nat"
  sizeof_ThreadLocal :: nat
  ThreadLocal_default :: "byte list"
  memory_size :: "byte list \<Rightarrow> nat"
  uninitialised :: "addr \<Rightarrow> nat \<Rightarrow> byte"

subsection \<open>Thread handles and thread local storage\<close>

text \<open>
  Modelled from the spec: \<^verbatim>\<open>ThreadHandle\<close> (platform.h is missing). An opaque identity
  that is invalid or names a concrete thread; \<^verbatim>\<open>Initialize(SELF)\<close> stores the identity
  of the calling thread, \<^verbatim>\<open>IsSelf()\<close> compares it with the calling thread.
\<close>
datatype Kind = INVALID | SELF

type_synonym ThreadHandle = "thread option"

definition Initialize :: "thread \<Rightarrow> Kind \<Rightarrow> ThreadHandle" where
  "Initialize self kind = (case kind of INVALID \<Rightarrow> None | SELF \<Rightarrow> Some self)"

definition IsSelf :: "thread \<Rightarrow> ThreadHandle \<Rightarrow> bool" where
  "IsSelf self h = (h = Some self)"

definition IsValid :: "ThreadHandle \<Rightarrow> bool" where
  "IsValid h = (h \<noteq> None)"

record ThreadState =
  state_id :: int32
  terminate_on_restore :: bool
  data :: "byte list"
  next_state :: addr
  previous_state :: addr

record ContextSwitcher =
  keep_going :: bool
  sleep_ms :: int32

text \<open>
  The context. The fields up to \<open>thread_id_key\<close> are \<^verbatim>\<open>ThreadManagerData\<close>; a thread
  local key is the function from threads to the value stored under it (\<open>None\<close>, or 0
  for the integer key, when nothing is stored). \<open>active\<close> is \<^verbatim>\<open>v8_data_.active_\<close>.
  \<open>heap\<close> holds the \<^verbatim>\<open>ThreadState\<close> objects, \<open>allocated\<close> is the next fresh address.
  \<open>thread_local\<close> is \<^verbatim>\<open>reg_exp_stack_data_.thread_local_\<close>, kept as its object
  representation: the bytes that \<^verbatim>\<open>memcpy\<close> moves. \<open>live\<close> is the live state of the
  other subsystems, \<open>running\<close> is \<^verbatim>\<open>V8::IsRunning()\<close>. \<open>switchers\<close> holds the
  \<^verbatim>\<open>ContextSwitcher\<close> objects; an object is named by the order of its creation, so a
  name is never used twice.
\<close>
record V8Context =
  last_id :: int32
  mutex :: "thread option"
  mutex_owner :: ThreadHandle
  lazily_archived_thread :: ThreadHandle
  lazily_archived_thread_state :: "addr option"
  free_anchor :: addr
  in_use_anchor :: addr
  singleton :: "addr option"
  thread_state_key :: "thread \<Rightarrow> addr option"
  thread_id_key :: "thread \<Rightarrow> int32"
  active :: bool
  heap :: "addr \<Rightarrow> ThreadState"
  allocated :: nat
  thread_local :: "byte list"
  live :: "subsystem \<Rightarrow> byte list"
  running :: bool
  trace :: "event list"
  switchers :: "addr \<Rightarrow> ContextSwitcher"
  switchers_allocated :: nat

definition emit :: "event \<Rightarrow> V8Context \<Rightarrow> V8Context" where
  "emit e c = c\<lparr>trace := trace c @ [e]\<rparr>"

text \<open>
  Modelled from the spec: \<^verbatim>\<open>Thread::HasThreadLocal\<close> (platform.h is missing): a key
  holds something when the stored value is not \<^verbatim>\<open>NULL\<close>, which for the integer key is
  0 (``0 doubles as unset in thread-local storage'').
\<close>
definition IsArchived :: "thread \<Rightarrow> V8Context \<Rightarrow> bool" where
  "IsArchived self c = (thread_state_key c self \<noteq> None)"

definition CurrentId :: "thread \<Rightarrow> V8Context \<Rightarrow> int32" where
  "CurrentId self c = thread_id_key c self"

definition HasId :: "thread \<Rightarrow> V8Context \<Rightarrow> bool" where
  "HasId self c = (thread_id_key c self \<noteq> 0)"

definition failed :: "config \<Rightarrow> bool \<Rightarrow> bool" where
  "failed cfg cond = (DEBUG cfg \<and> \<not> cond)"

subsection \<open>The big lock\<close>

text \<open>
  Modelled from the spec: the mutex of \<^verbatim>\<open>OS::CreateMutex()\<close> (platform.h is missing),
  as the thread holding it. Acquiring it does not return while it is held (\<open>Blocked\<close>);
  releasing it frees it when the caller holds it.
\<close>
definition Mutex_Lock :: "thread \<Rightarrow> V8Context \<Rightarrow> error + V8Context" where
  "Mutex_Lock self c = (if mutex c = None then Inr (c\<lparr>mutex := Some self\<rparr>) else Inl Blocked)"

definition Mutex_Unlock :: "thread \<Rightarrow> V8Context \<Rightarrow> V8Context" where
  "Mutex_Unlock self c = (if mutex c = Some self then c\<lparr>mutex := None\<rparr> else c)"

definition IsLockedByCurrentThread :: "thread \<Rightarrow> V8Context \<Rightarrow> bool" where
  "IsLockedByCurrentThread self c = IsSelf self (mutex_owner c)"

definition record_owner :: "thread \<Rightarrow> V8Context \<Rightarrow> V8Context" where
  "record_owner self c = c\<lparr>mutex_owner := Initialize self SELF\<rparr>"

definition clear_owner :: "thread \<Rightarrow> V8Context \<Rightarrow> V8Context" where
  "clear_owner self c = c\<lparr>mutex_owner := Initialize self INVALID\<rparr>"

definition ThreadManager_Lock :: "config \<Rightarrow> thread \<Rightarrow> V8Context \<Rightarrow> error + V8Context" where
  "ThreadManager_Lock cfg self c =
     (case Mutex_Lock self c of
        Inl e \<Rightarrow> Inl e
      | Inr c1 \<Rightarrow>
          let c2 = record_owner self c1 in
          if failed cfg (IsLockedByCurrentThread self c2)
          then Inl (AssertionFailed ''IsLockedByCurrentThread()'')
          else Inr c2)"

definition ThreadManager_Unlock :: "thread \<Rightarrow> V8Context \<Rightarrow> V8Context" where
  "ThreadManager_Unlock self c = Mutex_Unlock self (clear_owner self c)"

text \<open>\<^verbatim>\<open>Locker::IsLocked\<close>\<close>
definition IsLocked :: "thread \<Rightarrow> V8Context \<Rightarrow> bool" where
  "IsLocked self c = IsLockedByCurrentThread self c"

subsection \<open>Thread states and their two lists\<close>

definition ArchiveSpacePerThread :: "config \<Rightarrow> nat" where
  "ArchiveSpacePerThread cfg =
     SpacePerThread cfg HandleScopeImplementer +
     SpacePerThread cfg Top +
     (if ENABLE_DEBUGGER_SUPPORT cfg then SpacePerThread cfg Debug else 0) +
     SpacePerThread cfg StackGuard +
     SpacePerThread cfg RegExpStack +
     SpacePerThread cfg Bootstrapper +
     SpacePerThread cfg Relocatable"

text \<open>
  \<^verbatim>\<open>new ThreadState()\<close>: the constructor links the object to itself and leaves the
  buffer pointer unset (the empty buffer here).
\<close>
definition new_ThreadState :: "config \<Rightarrow> V8Context \<Rightarrow> addr \<times> V8Context" where
  "new_ThreadState cfg c =
     (let this = allocated c in
      (this,
       c\<lparr>heap := (heap c)(this :=
            \<lparr>state_id = kInvalidId cfg, terminate_on_restore = False, data = [],
             next_state = this, previous_state = this\<rparr>),
         allocated := Suc this\<rparr>))"

text \<open>
  \<^verbatim>\<open>NewArray<char>(n)\<close> for the buffer of thread state \<open>this\<close>: \<open>n\<close> bytes that nothing
  has initialised.
\<close>
definition NewArray :: "config \<Rightarrow> addr \<Rightarrow> nat \<Rightarrow> byte list" where
  "NewArray cfg this n = map (uninitialised cfg this) [0..<n]"

definition AllocateSpace :: "config \<Rightarrow> addr \<Rightarrow> V8Context \<Rightarrow> V8Context" where
  "AllocateSpace cfg this c =
     c\<lparr>heap := (heap c)(this := (heap c this)
        \<lparr>data := NewArray cfg this (ArchiveSpacePerThread cfg)\<rparr>)\<rparr>"

definition set_next :: "addr \<Rightarrow> addr \<Rightarrow> V8Context \<Rightarrow> V8Context" where
  "set_next a v c = c\<lparr>heap := (heap c)(a := (heap c a)\<lparr>next_state := v\<rparr>)\<rparr>"

definition set_previous :: "addr \<Rightarrow> addr \<Rightarrow> V8Context \<Rightarrow> V8Context" where
  "set_previous a v c = c\<lparr>heap := (heap c)(a := (heap c a)\<lparr>previous_state := v\<rparr>)\<rparr>"

definition set_id :: "addr \<Rightarrow> int32 \<Rightarrow> V8Context \<Rightarrow> V8Context" where
  "set_id a v c = c\<lparr>heap := (heap c)(a := (heap c a)\<lparr>state_id := v\<rparr>)\<rparr>"

definition set_terminate_on_restore :: "addr \<Rightarrow> bool \<Rightarrow> V8Context \<Rightarrow> V8Context" where
  "set_terminate_on_restore a v c =
     c\<lparr>heap := (heap c)(a := (heap c a)\<lparr>terminate_on_restore := v\<rparr>)\<rparr>"

definition Unlink :: "addr \<Rightarrow> V8Context \<Rightarrow> V8Context" where
  "Unlink this c =
     (let c1 = set_previous (next_state (heap c this)) (previous_state (heap c this)) c;
          c2 = set_next (previous_state (heap c1 this)) (next_state (heap c1 this)) c1
      in c2)"

datatype List = FREE_LIST | IN_USE_LIST

definition LinkInto :: "addr \<Rightarrow> List \<Rightarrow> V8Context \<Rightarrow> V8Context" where
  "LinkInto this list c =
     (let flying_anchor = (if list = FREE_LIST then free_anchor c else in_use_anchor c);
          c1 = set_next this (next_state (heap c flying_anchor)) c;
          c2 = set_previous this flying_anchor c1;
          c3 = set_next flying_anchor this c2;
          c4 = set_previous (next_state (heap c3 this)) this c3
      in c4)"

definition GetFree :: "config \<Rightarrow> V8Context \<Rightarrow> addr \<times> V8Context" where
  "GetFree cfg c =
     (let gotten = next_state (heap c (free_anchor c)) in
      if gotten = free_anchor c then
        (let (new_thread_state, c1) = new_ThreadState cfg c
         in (new_thread_state, AllocateSpace cfg new_thread_state c1))
      else (gotten, c))"

text \<open>\<^verbatim>\<open>ThreadState::Next\<close> and \<^verbatim>\<open>ThreadState::FirstInUse\<close>; \<open>None\<close> is \<^verbatim>\<open>NULL\<close>.\<close>
definition Next :: "addr \<Rightarrow> V8Context \<Rightarrow> addr option" where
  "Next this c =
     (if next_state (heap c this) = in_use_anchor c then None
      else Some (next_state (heap c this)))"

definition FirstInUse :: "V8Context \<Rightarrow> addr option" where
  "FirstInUse c = Next (in_use_anchor c) c"

text \<open>
  \<^verbatim>\<open>ThreadManagerData::ThreadManagerData()\<close>, with the rest of a fresh context. The two
  anchors are the first two objects allocated.
\<close>
definition empty_context :: "config \<Rightarrow> V8Context" where
  "empty_context cfg =
     \<lparr>last_id = 0, mutex = None, mutex_owner = Initialize 0 INVALID,
      lazily_archived_thread = Initialize 0 INVALID,
      lazily_archived_thread_state = None,
      free_anchor = 0, in_use_anchor = 0, singleton = None,
      thread_state_key = (\<lambda>_. None), thread_id_key = (\<lambda>_. 0),
      active = False,
      heap = (\<lambda>a. \<lparr>state_id = kInvalidId cfg, terminate_on_restore = False, data = [],
                    next_state = a, previous_state = a\<rparr>),
      allocated = 0,
      thread_local = ThreadLocal_default cfg,
      live = (\<lambda>s. replicate (SpacePerThread cfg s) 0),
      running = False, trace = [],
      switchers = (\<lambda>_. \<lparr>keep_going = False, sleep_ms = 0\<rparr>), switchers_allocated = 0\<rparr>"

definition ThreadManagerData :: "config \<Rightarrow> V8Context" where
  "ThreadManagerData cfg =
     (let c = empty_context cfg;
          (a1, c1) = new_ThreadState cfg c;
          c2 = c1\<lparr>free_anchor := a1\<rparr>;
          (a2, c3) = new_ThreadState cfg c2
      in c3\<lparr>in_use_anchor := a2\<rparr>)"

subsection \<open>Archiving and restoring one subsystem\<close>

definition store_bytes :: "byte list \<Rightarrow> nat \<Rightarrow> byte list \<Rightarrow> byte list" where
  "store_bytes buf off bs = take off buf @ bs @ drop (off + length bs) buf"

definition load_bytes :: "byte list \<Rightarrow> nat \<Rightarrow> nat \<Rightarrow> byte list" where
  "load_bytes buf off n = take n (drop off buf)"

text \<open>\<^verbatim>\<open>memcpy\<close> of \<open>bs\<close> to a pointer into a thread state's buffer.\<close>
definition memcpy_to :: "char_ptr \<Rightarrow> byte list \<Rightarrow> V8Context \<Rightarrow> V8Context" where
  "memcpy_to to bs c =
     (case to of (a, off) \<Rightarrow>
        c\<lparr>heap := (heap c)(a := (heap c a)\<lparr>data := store_bytes (data (heap c a)) off bs\<rparr>)\<rparr>)"

definition memcpy_from :: "char_ptr \<Rightarrow> nat \<Rightarrow> V8Context \<Rightarrow> byte list" where
  "memcpy_from from n c = (case from of (a, off) \<Rightarrow> load_bytes (data (heap c a)) off n)"

definition advance :: "char_ptr \<Rightarrow> nat \<Rightarrow> char_ptr" where
  "advance p n = (fst p, snd p + n)"

text \<open>\<^verbatim>\<open>RegExpStack::ArchiveStack\<close> and \<^verbatim>\<open>RegExpStack::RestoreStack\<close> (regexp-stack.cc).\<close>
definition RegExpStack_ArchiveStack :: "config \<Rightarrow> char_ptr \<Rightarrow> V8Context \<Rightarrow> char_ptr \<times> V8Context" where
  "RegExpStack_ArchiveStack cfg to c =
     (let size = sizeof_ThreadLocal cfg;
          c1 = memcpy_to to (take size (thread_local c)) (emit (Archive RegExpStack) c);
          c2 = c1\<lparr>thread_local := ThreadLocal_default cfg\<rparr>
      in (advance to size, c2))"

definition RegExpStack_RestoreStack :: "config \<Rightarrow> char_ptr \<Rightarrow> V8Context \<Rightarrow> char_ptr \<times> V8Context" where
  "RegExpStack_RestoreStack cfg from c =
     (let size = sizeof_ThreadLocal cfg;
          c0 = emit (Restore RegExpStack) c;
          c1 = c0\<lparr>thread_local := memcpy_from from size c0\<rparr>
      in (advance from size, c1))"

text \<open>
  Modelled from the spec: the archive and restore functions of \<^verbatim>\<open>HandleScopeImplementer\<close>,
  \<^verbatim>\<open>Top\<close>, \<^verbatim>\<open>Relocatable\<close>, \<^verbatim>\<open>Debug\<close>, \<^verbatim>\<open>StackGuard\<close> and \<^verbatim>\<open>Bootstrapper\<close> (their
  files are missing). Archive writes the subsystem's live state into the buffer and
  returns the position immediately after the written bytes; restore reads the state back
  and returns the advanced position, consuming exactly the bytes archive wrote. The
  footprint is the subsystem's \<^verbatim>\<open>ArchiveSpacePerThread()\<close>.
\<close>
definition Subsystem_Archive ::
  "config \<Rightarrow> subsystem \<Rightarrow> char_ptr \<Rightarrow> V8Context \<Rightarrow> char_ptr \<times> V8Context" where
  "Subsystem_Archive cfg sub to c =
     (let size = SpacePerThread cfg sub;
          c1 = memcpy_to to (take size (live c sub)) (emit (Archive sub) c)
      in (advance to size, c1))"

definition Subsystem_Restore ::
  "config \<Rightarrow> subsystem \<Rightarrow> char_ptr \<Rightarrow> V8Context \<Rightarrow> char_ptr \<times> V8Context" where
  "Subsystem_Restore cfg sub from c =
     (let size = SpacePerThread cfg sub;
          c0 = emit (Restore sub) c;
          c1 = c0\<lparr>live := (live c0)(sub := memcpy_from from size c0)\<rparr>
      in (advance from size, c1))"

subsection \<open>ThreadManager\<close>

definition EagerlyArchiveThread :: "config \<Rightarrow> V8Context \<Rightarrow> error + V8Context" where
  "EagerlyArchiveThread cfg c =
     (case lazily_archived_thread_state c of
        None \<Rightarrow> Inl NullDereference
      | Some state \<Rightarrow>
          let c1 = LinkInto state IN_USE_LIST c;
              to = (state, 0);
              (to, c2) = Subsystem_Archive cfg HandleScopeImplementer to c1;
              (to, c3) = Subsystem_Archive cfg Top to c2;
              (to, c4) = Subsystem_Archive cfg Relocatable to c3;
              (to, c5) = (if ENABLE_DEBUGGER_SUPPORT cfg
                          then Subsystem_Archive cfg Debug to c4 else (to, c4));
              (to, c6) = Subsystem_Archive cfg StackGuard to c5;
              (to, c7) = RegExpStack_ArchiveStack cfg to c6;
              (to, c8) = Subsystem_Archive cfg Bootstrapper to c7
          in Inr (c8\<lparr>lazily_archived_thread := Initialize 0 INVALID,
                     lazily_archived_thread_state := None\<rparr>))"

text \<open>
  \<^verbatim>\<open>ThreadManager::RestoreThread\<close>. The \<^verbatim>\<open>ExecutionAccess\<close> object it holds keeps the
  preemption thread away from the stack guard and touches nothing modelled here.
\<close>
definition RestoreThread :: "config \<Rightarrow> thread \<Rightarrow> V8Context \<Rightarrow> error + (bool \<times> V8Context)" where
  "RestoreThread cfg self c =
     (if IsSelf self (lazily_archived_thread c) then
        (let c1 = c\<lparr>lazily_archived_thread := Initialize self INVALID\<rparr> in
         if failed cfg (thread_state_key c1 self = lazily_archived_thread_state c1)
         then Inl (AssertionFailed ''GetThreadLocal(thread_state_key_) == lazily_archived_thread_state_'')
         else
           (case lazily_archived_thread_state c1 of
              None \<Rightarrow> Inl NullDereference
            | Some state \<Rightarrow>
                let c2 = set_id state (kInvalidId cfg) c1;
                    c3 = LinkInto state FREE_LIST c2;
                    c4 = c3\<lparr>lazily_archived_thread_state := None\<rparr>;
                    c5 = c4\<lparr>thread_state_key := (thread_state_key c4)(self := None)\<rparr>
                in Inr (True, c5)))
      else
        (case (if IsValid (lazily_archived_thread c) then EagerlyArchiveThread cfg c else Inr c) of
           Inl e \<Rightarrow> Inl e
         | Inr c1 \<Rightarrow>
             (case thread_state_key c1 self of
                None \<Rightarrow> Inr (False, emit StackGuard_InitThread c1)
              | Some state \<Rightarrow>
                  let from = (state, 0);
                      (from, c2) = Subsystem_Restore cfg HandleScopeImplementer from c1;
                      (from, c3) = Subsystem_Restore cfg Top from c2;
                      (from, c4) = Subsystem_Restore cfg Relocatable from c3;
                      (from, c5) = (if ENABLE_DEBUGGER_SUPPORT cfg
                                    then Subsystem_Restore cfg Debug from c4 else (from, c4));
                      (from, c6) = Subsystem_Restore cfg StackGuard from c5;
                      (from, c7) = RegExpStack_RestoreStack cfg from c6;
                      (from, c8) = Subsystem_Restore cfg Bootstrapper from c7;
                      c9 = c8\<lparr>thread_state_key := (thread_state_key c8)(self := None)\<rparr>;
                      c10 = (if terminate_on_restore (heap c9 state)
                             then set_terminate_on_restore state False
                                    (emit StackGuard_TerminateExecution c9)
                             else c9);
                      c11 = set_id state (kInvalidId cfg) c10;
                      c12 = Unlink state c11;
                      c13 = LinkInto state FREE_LIST c12
                  in Inr (True, c13))))"

definition ArchiveThread :: "config \<Rightarrow> thread \<Rightarrow> V8Context \<Rightarrow> error + V8Context" where
  "ArchiveThread cfg self c =
     (if failed cfg (\<not> IsValid (lazily_archived_thread c))
      then Inl (AssertionFailed ''!lazily_archived_thread_.IsValid()'')
      else if failed cfg (\<not> IsArchived self c)
      then Inl (AssertionFailed ''!IsArchived()'')
      else
        (let (state, c1) = GetFree cfg c;
             c2 = Unlink state c1;
             c3 = c2\<lparr>thread_state_key := (thread_state_key c2)(self := Some state)\<rparr>;
             c4 = c3\<lparr>lazily_archived_thread := Initialize self SELF\<rparr>;
             c5 = c4\<lparr>lazily_archived_thread_state := Some state\<rparr>
         in if failed cfg (state_id (heap c5 state) = kInvalidId cfg)
            then Inl (AssertionFailed ''state->id() == kInvalidId'')
            else
              (let c6 = set_id state (CurrentId self c5) c5
               in if failed cfg (state_id (heap c6 state) \<noteq> kInvalidId cfg)
                  then Inl (AssertionFailed ''state->id() != kInvalidId'')
                  else Inr c6)))"

text \<open>
  \<^verbatim>\<open>RegExpStackData::ThreadLocal::Free\<close> (regexp-stack.cc): when the stack has memory, the
  memory is released and the record is reset to a default constructed one. The stack
  memory itself lies outside the context. Modelled from the spec:
  \<^verbatim>\<open>RegExpStack::FreeThreadResources\<close> (regexp-stack.h is missing) is the recorded call
  followed by \<^verbatim>\<open>thread_local_.Free()\<close>.
\<close>
definition ThreadLocal_Free :: "config \<Rightarrow> V8Context \<Rightarrow> V8Context" where
  "ThreadLocal_Free cfg c =
     (if 0 < memory_size cfg (thread_local c)
      then c\<lparr>thread_local := ThreadLocal_default cfg\<rparr>
      else c)"

definition RegExpStack_FreeThreadResources :: "config \<Rightarrow> V8Context \<Rightarrow> V8Context" where
  "RegExpStack_FreeThreadResources cfg c = ThreadLocal_Free cfg (emit (Free RegExpStack) c)"

text \<open>
  \<^verbatim>\<open>ThreadManager::FreeThreadResources\<close>: the functions of the other subsystems are in
  the missing files, so only their calls are recorded.
\<close>
definition FreeThreadResources :: "config \<Rightarrow> V8Context \<Rightarrow> V8Context" where
  "FreeThreadResources cfg c =
     (let c1 = emit (Free HandleScopeImplementer) c;
          c2 = emit (Free Top) c1;
          c3 = (if ENABLE_DEBUGGER_SUPPORT cfg then emit (Free Debug) c2 else c2);
          c4 = emit (Free StackGuard) c3;
          c5 = RegExpStack_FreeThreadResources cfg c4;
          c6 = emit (Free Bootstrapper) c5
      in c6)"

definition AssignId :: "config \<Rightarrow> thread \<Rightarrow> V8Context \<Rightarrow> error + V8Context" where
  "AssignId cfg self c =
     (if \<not> HasId self c then
        (if failed cfg (IsLocked self c) then Inl (AssertionFailed ''Locker::IsLocked()'')
         else
           (let thread_id = last_id c + 1;
                c1 = c\<lparr>last_id := thread_id\<rparr>
            in if failed cfg (0 <s thread_id) then Inl (AssertionFailed ''thread_id > 0'')
               else
                 (let c2 = c1\<lparr>thread_id_key := (thread_id_key c1)(self := thread_id)\<rparr>
                  in Inr (emit (Top_set_thread_id thread_id) c2))))
      else Inr c)"

text \<open>
  The loop of \<^verbatim>\<open>ThreadManager::TerminateExecution\<close>, from \<open>state\<close> on; it returns
  nothing when the walk along \<open>next_state\<close> never comes back to the in-use anchor.
\<close>
partial_function (option) TerminateExecution_loop ::
  "int32 \<Rightarrow> addr option \<Rightarrow> V8Context \<Rightarrow> V8Context option" where
  "TerminateExecution_loop thread_id state c =
     (case state of
        None \<Rightarrow> Some c
      | Some a \<Rightarrow>
          (let c1 = (if thread_id = state_id (heap c a)
                     then set_terminate_on_restore a True c else c)
           in TerminateExecution_loop thread_id (Next a c1) c1))"

definition TerminateExecution :: "int32 \<Rightarrow> V8Context \<Rightarrow> V8Context option" where
  "TerminateExecution thread_id c = TerminateExecution_loop thread_id (FirstInUse c) c"

subsection \<open>Locker and Unlocker\<close>

record Locker =
  has_lock :: bool
  top_level :: bool

text \<open>
  Modelled from the spec: \<^verbatim>\<open>V8::Initialize\<close> (v8.cc is missing) makes the runtime
  running; the stack guard's \<^verbatim>\<open>ClearThread\<close> and \<^verbatim>\<open>InitThread\<close> are recorded calls.
\<close>
definition V8_Initialize_call :: "V8Context \<Rightarrow> V8Context" where
  "V8_Initialize_call c = emit V8_Initialize (c\<lparr>running := True\<rparr>)"

definition Locker_ctor :: "config \<Rightarrow> thread \<Rightarrow> V8Context \<Rightarrow> error + (Locker \<times> V8Context)" where
  "Locker_ctor cfg self c =
     (let this = \<lparr>has_lock = False, top_level = True\<rparr>;
          c0 = c\<lparr>active := True\<rparr>;
          r = (if \<not> IsLockedByCurrentThread self c0 then
                 (case ThreadManager_Lock cfg self c0 of
                    Inl e \<Rightarrow> Inl e
                  | Inr c1 \<Rightarrow>
                      let this1 = this\<lparr>has_lock := True\<rparr>;
                          c2 = (if \<not> running c1 then V8_Initialize_call c1 else c1)
                      in (case RestoreThread cfg self c2 of
                            Inl e \<Rightarrow> Inl e
                          | Inr (restored, c3) \<Rightarrow>
                              if restored then Inr (this1\<lparr>top_level := False\<rparr>, c3)
                              else Inr (this1,
                                        emit StackGuard_InitThread
                                          (emit StackGuard_ClearThread c3))))
               else Inr (this, c0))
      in case r of
           Inl e \<Rightarrow> Inl e
         | Inr (this2, c4) \<Rightarrow>
             if failed cfg (IsLockedByCurrentThread self c4)
             then Inl (AssertionFailed ''IsLockedByCurrentThread()'')
             else (case AssignId cfg self c4 of
                     Inl e \<Rightarrow> Inl e
                   | Inr c5 \<Rightarrow> Inr (this2, c5)))"

definition IsActive :: "V8Context \<Rightarrow> bool" where
  "IsActive c = active c"

definition Locker_dtor :: "config \<Rightarrow> thread \<Rightarrow> Locker \<Rightarrow> V8Context \<Rightarrow> error + V8Context" where
  "Locker_dtor cfg self this c =
     (if failed cfg (IsLockedByCurrentThread self c)
      then Inl (AssertionFailed ''IsLockedByCurrentThread()'')
      else if has_lock this then
        (case (if top_level this then Inr (FreeThreadResources cfg c)
               else ArchiveThread cfg self c) of
           Inl e \<Rightarrow> Inl e
         | Inr c1 \<Rightarrow> Inr (ThreadManager_Unlock self c1))
      else Inr c)"

definition Unlocker_ctor :: "config \<Rightarrow> thread \<Rightarrow> V8Context \<Rightarrow> error + V8Context" where
  "Unlocker_ctor cfg self c =
     (if failed cfg (IsLockedByCurrentThread self c)
      then Inl (AssertionFailed ''IsLockedByCurrentThread()'')
      else (case ArchiveThread cfg self c of
              Inl e \<Rightarrow> Inl e
            | Inr c1 \<Rightarrow> Inr (ThreadManager_Unlock self c1)))"

definition Unlocker_dtor :: "config \<Rightarrow> thread \<Rightarrow> V8Context \<Rightarrow> error + V8Context" where
  "Unlocker_dtor cfg self c =
     (if failed cfg (\<not> IsLockedByCurrentThread self c)
      then Inl (AssertionFailed ''!IsLockedByCurrentThread()'')
      else (case ThreadManager_Lock cfg self c of
              Inl e \<Rightarrow> Inl e
            | Inr c1 \<Rightarrow>
                (case RestoreThread cfg self c1 of
                   Inl e \<Rightarrow> Inl e
                 | Inr (restored, c2) \<Rightarrow> Inr c2)))"

subsection \<open>The two lists as lists\<close>

text \<open>
  \<open>linked h zs\<close>: along \<open>zs\<close> every element points forward to its successor and the
  successor points back. A circular list with its anchor is \<open>dll\<close>: the walk from the
  anchor through \<open>xs\<close> comes back to the anchor, and no object is met twice.
\<close>
fun linked :: "(addr \<Rightarrow> ThreadState) \<Rightarrow> addr list \<Rightarrow> bool" where
  "linked h (x # y # zs) = (next_state (h x) = y \<and> previous_state (h y) = x \<and> linked h (y # zs))"
| "linked h zs = True"

definition dll :: "(addr \<Rightarrow> ThreadState) \<Rightarrow> addr \<Rightarrow> addr list \<Rightarrow> bool" where
  "dll h anchor xs = (linked h (anchor # xs @ [anchor]) \<and> distinct (anchor # xs))"

text \<open>
  The entries of a list as the code finds them: follow \<open>next_state\<close> from the anchor
  until the anchor is met again. No context has more objects than \<open>allocated\<close>, so a
  walk that has not come back after that many steps never will (\<open>None\<close>).
\<close>
fun walk :: "(addr \<Rightarrow> ThreadState) \<Rightarrow> addr \<Rightarrow> addr \<Rightarrow> nat \<Rightarrow> addr list option" where
  "walk h anchor cur 0 = None"
| "walk h anchor cur (Suc n) =
     (if cur = anchor then Some []
      else map_option ((#) cur) (walk h anchor (next_state (h cur)) n))"

definition list_of :: "V8Context \<Rightarrow> addr \<Rightarrow> addr list option" where
  "list_of c anchor = walk (heap c) anchor (next_state (heap c anchor)) (allocated c)"

definition free_list :: "V8Context \<Rightarrow> addr list option" where
  "free_list c = list_of c (free_anchor c)"

definition in_use_list :: "V8Context \<Rightarrow> addr list option" where
  "in_use_list c = list_of c (in_use_anchor c)"

text \<open>What \<^verbatim>\<open>Unlink\<close> and \<^verbatim>\<open>LinkInto\<close> do to the heap, as functions of the heap alone.\<close>
definition unlink_heap :: "addr \<Rightarrow> (addr \<Rightarrow> ThreadState) \<Rightarrow> (addr \<Rightarrow> ThreadState)" where
  "unlink_heap x h =
     (let h1 = h(next_state (h x) := (h (next_state (h x)))\<lparr>previous_state := previous_state (h x)\<rparr>)
      in h1(previous_state (h1 x) := (h1 (previous_state (h1 x)))\<lparr>next_state := next_state (h1 x)\<rparr>))"

definition link_heap :: "addr \<Rightarrow> addr \<Rightarrow> (addr \<Rightarrow> ThreadState) \<Rightarrow> (addr \<Rightarrow> ThreadState)" where
  "link_heap x anchor h =
     (let h1 = h(x := (h x)\<lparr>next_state := next_state (h anchor)\<rparr>);
          h2 = h1(x := (h1 x)\<lparr>previous_state := anchor\<rparr>);
          h3 = h2(anchor := (h2 anchor)\<lparr>next_state := x\<rparr>)
      in h3(next_state (h3 x) := (h3 (next_state (h3 x)))\<lparr>previous_state := x\<rparr>))"

subsection \<open>The contract of section 4.1 of the specification\<close>

text \<open>
  The specification's words, to compare the code with: the fixed registration order,
  each subsystem's footprint, and the buffer as the concatenation of the subsystems'
  outputs in that order (\<open>archive_image\<close>), read back in the same order
  (\<open>restore_image\<close>).
\<close>
definition registration_order :: "config \<Rightarrow> subsystem list" where
  "registration_order cfg =
     [HandleScopeImplementer, Top, Relocatable] @
     (if ENABLE_DEBUGGER_SUPPORT cfg then [Debug] else []) @
     [StackGuard, RegExpStack, Bootstrapper]"

definition footprint :: "config \<Rightarrow> subsystem \<Rightarrow> nat" where
  "footprint cfg sub = (if sub = RegExpStack then sizeof_ThreadLocal cfg else SpacePerThread cfg sub)"

definition live_bytes :: "config \<Rightarrow> V8Context \<Rightarrow> subsystem \<Rightarrow> byte list" where
  "live_bytes cfg c sub =
     take (footprint cfg sub) (if sub = RegExpStack then thread_local c else live c sub)"

fun archive_image :: "config \<Rightarrow> V8Context \<Rightarrow> subsystem list \<Rightarrow> nat \<Rightarrow> byte list \<Rightarrow> byte list" where
  "archive_image cfg c [] off buf = buf"
| "archive_image cfg c (sub # subs) off buf =
     archive_image cfg c subs (off + footprint cfg sub) (store_bytes buf off (live_bytes cfg c sub))"

fun restore_image ::
  "config \<Rightarrow> subsystem list \<Rightarrow> nat \<Rightarrow> byte list \<Rightarrow>
   (subsystem \<Rightarrow> byte list) \<times> byte list \<Rightarrow> (subsystem \<Rightarrow> byte list) \<times> byte list" where
  "restore_image cfg [] off buf s = s"
| "restore_image cfg (sub # subs) off buf s =
     restore_image cfg subs (off + footprint cfg sub) buf
       (if sub = RegExpStack then (fst s, load_bytes buf off (footprint cfg sub))
        else ((fst s)(sub := load_bytes buf off (footprint cfg sub)), snd s))"

subsection \<open>Reachable contexts and their invariant\<close>

text \<open>
  \<open>checked cfg\<close> is the build with assertions: a call that returns \<open>Inr\<close> there has
  respected every asserted precondition. A context is reachable when such calls lead to
  it from a fresh context.
\<close>
definition checked :: "config \<Rightarrow> config" where
  "checked cfg = cfg\<lparr>DEBUG := True\<rparr>"

inductive reachable :: "config \<Rightarrow> V8Context \<Rightarrow> bool" for cfg :: config where
  initial: "reachable cfg (ThreadManagerData cfg)"
| Lock: "reachable cfg c \<Longrightarrow> ThreadManager_Lock (checked cfg) t c = Inr c' \<Longrightarrow> reachable cfg c'"
| Unlock: "reachable cfg c \<Longrightarrow> reachable cfg (ThreadManager_Unlock t c)"
| AssignId: "reachable cfg c \<Longrightarrow> AssignId (checked cfg) t c = Inr c' \<Longrightarrow> reachable cfg c'"
| ArchiveThread: "reachable cfg c \<Longrightarrow> ArchiveThread (checked cfg) t c = Inr c' \<Longrightarrow> reachable cfg c'"
| EagerlyArchiveThread:
    "reachable cfg c \<Longrightarrow> EagerlyArchiveThread (checked cfg) c = Inr c' \<Longrightarrow> reachable cfg c'"
| RestoreThread:
    "reachable cfg c \<Longrightarrow> RestoreThread (checked cfg) t c = Inr (b, c') \<Longrightarrow> reachable cfg c'"
| FreeThreadResources: "reachable cfg c \<Longrightarrow> reachable cfg (FreeThreadResources cfg c)"
| TerminateExecution:
    "reachable cfg c \<Longrightarrow> TerminateExecution thread_id c = Some c' \<Longrightarrow> reachable cfg c'"
| Locker_ctor:
    "reachable cfg c \<Longrightarrow> Locker_ctor (checked cfg) t c = Inr (l, c') \<Longrightarrow> reachable cfg c'"
| Locker_dtor:
    "reachable cfg c \<Longrightarrow> Locker_dtor (checked cfg) t l c = Inr c' \<Longrightarrow> reachable cfg c'"
| Unlocker_ctor:
    "reachable cfg c \<Longrightarrow> Unlocker_ctor (checked cfg) t c = Inr c' \<Longrightarrow> reachable cfg c'"
| Unlocker_dtor:
    "reachable cfg c \<Longrightarrow> Unlocker_dtor (checked cfg) t c = Inr c' \<Longrightarrow> reachable cfg c'"

text \<open>
  The invariant, for given contents \<open>fs\<close> of the free list and \<open>us\<close> of the in-use
  list: both lists are well formed; the anchors, the entries of the two lists and the
  pending lazily archived state are pairwise different and are all the objects there
  are; the lazy archive slot is consistent; a thread's stored state is in the in-use
  list unless the thread is the pending lazy one; two threads never share a state.
\<close>
definition lazy_list :: "V8Context \<Rightarrow> addr list" where
  "lazy_list c = (case lazily_archived_thread_state c of None \<Rightarrow> [] | Some a \<Rightarrow> [a])"

definition inv_lists :: "V8Context \<Rightarrow> addr list \<Rightarrow> addr list \<Rightarrow> bool" where
  "inv_lists c fs us \<longleftrightarrow>
     dll (heap c) (free_anchor c) fs \<and> dll (heap c) (in_use_anchor c) us \<and>
     distinct (free_anchor c # in_use_anchor c # fs @ us @ lazy_list c) \<and>
     set (free_anchor c # in_use_anchor c # fs @ us @ lazy_list c) = {..<allocated c} \<and>
     (lazily_archived_thread c = None \<longleftrightarrow> lazily_archived_thread_state c = None) \<and>
     (\<forall>t. lazily_archived_thread c = Some t \<longrightarrow>
          thread_state_key c t = lazily_archived_thread_state c) \<and>
     (\<forall>t a. thread_state_key c t = Some a \<longrightarrow>
          a \<in> set us \<or> lazily_archived_thread c = Some t) \<and>
     (\<forall>t u a. thread_state_key c t = Some a \<longrightarrow> thread_state_key c u = Some a \<longrightarrow> t = u)"

definition consistent :: "V8Context \<Rightarrow> bool" where
  "consistent c = (\<exists>fs us. inv_lists c fs us)"

text \<open>The context after \<^verbatim>\<open>ArchiveThread\<close>, and the heap after \<^verbatim>\<open>TerminateExecution\<close>.\<close>
definition archive_result :: "config \<Rightarrow> thread \<Rightarrow> V8Context \<Rightarrow> V8Context" where
  "archive_result cfg self c =
     (let a = next_state (heap c (free_anchor c)) in
      if a = free_anchor c then
        c\<lparr>heap := (heap c)(allocated c :=
              \<lparr>state_id = CurrentId self c, terminate_on_restore = False,
               data = NewArray cfg (allocated c) (ArchiveSpacePerThread cfg),
               next_state = allocated c, previous_state = allocated c\<rparr>),
          allocated := Suc (allocated c),
          thread_state_key := (thread_state_key c)(self := Some (allocated c)),
          lazily_archived_thread := Some self,
          lazily_archived_thread_state := Some (allocated c)\<rparr>
      else
        c\<lparr>heap := (unlink_heap a (heap c))(a := (unlink_heap a (heap c) a)\<lparr>state_id := CurrentId self c\<rparr>),
          thread_state_key := (thread_state_key c)(self := Some a),
          lazily_archived_thread := Some self,
          lazily_archived_thread_state := Some a\<rparr>)"

definition flagged :: "int32 \<Rightarrow> addr list \<Rightarrow> (addr \<Rightarrow> ThreadState) \<Rightarrow> (addr \<Rightarrow> ThreadState)" where
  "flagged thread_id ys h =
     (\<lambda>a. if a \<in> set ys \<and> state_id (h a) = thread_id
          then (h a)\<lparr>terminate_on_restore := True\<rparr> else h a)"

subsection \<open>A concrete build and a concrete run\<close>

text \<open>
  A debug build with debugger support in which every subsystem archives one byte and
  uninitialised memory happens to read as zero, and the contexts of a small run: thread 101 constructs a \<^verbatim>\<open>Locker\<close> on a fresh context
  (\<open>after_Locker\<close>), then an \<^verbatim>\<open>Unlocker\<close> (\<open>after_Unlocker\<close>).
\<close>
definition example_config :: config where
  "example_config =
     \<lparr>DEBUG = True, ENABLE_DEBUGGER_SUPPORT = True, kInvalidId = 0,
      SpacePerThread = (\<lambda>_. 1), sizeof_ThreadLocal = 1, ThreadLocal_default = [0],
      memory_size = (\<lambda>bs. sum_list (map unat bs)), uninitialised = (\<lambda>_ _. 0)\<rparr>"

definition after_Locker :: V8Context where
  "after_Locker = snd (projr (Locker_ctor example_config 101 (ThreadManagerData example_config)))"

definition after_Unlocker :: V8Context where
  "after_Unlocker = projr (Unlocker_ctor example_config 101 after_Locker)"

text \<open>How often the trace asks the stack guard to terminate execution.\<close>
definition termination_requests :: "V8Context \<Rightarrow> nat" where
  "termination_requests c = count_list (trace c) StackGuard_TerminateExecution"

text \<open>
  The run goes on: thread 102 constructs a \<^verbatim>\<open>Locker\<close> (\<open>after_second_Locker\<close>), then
  execution of thread id 1 is terminated (\<open>after_Terminate\<close>).
\<close>
definition after_second_Locker :: V8Context where
  "after_second_Locker = snd (projr (Locker_ctor example_config 102 after_Unlocker))"

definition after_Terminate :: V8Context where
  "after_Terminate = the (TerminateExecution 1 after_second_Locker)"

subsection \<open>The embedder: runs of the guards\<close>

text \<open>
  What the ids say about the thread states, given the in-use list \<open>us\<close>: an id that is set
  is at most the counter, two threads do not share one, an archived thread has its id and
  its state carries it, and every state of the in-use list belongs to a thread.
\<close>
definition owners :: "V8Context \<Rightarrow> addr list \<Rightarrow> bool" where
  "owners c us \<longleftrightarrow>
     (\<forall>T. thread_id_key c T \<noteq> 0 \<longrightarrow> thread_id_key c T \<le>s last_id c) \<and>
     (\<forall>T U. thread_id_key c T = thread_id_key c U \<longrightarrow> thread_id_key c T \<noteq> 0 \<longrightarrow> T = U) \<and>
     (\<forall>T a. thread_state_key c T = Some a \<longrightarrow>
        state_id (heap c a) = thread_id_key c T \<and> thread_id_key c T \<noteq> 0) \<and>
     (\<forall>a\<in>set us. \<exists>T. thread_state_key c T = Some a)"

definition ids_ok :: "V8Context \<Rightarrow> bool" where
  "ids_ok c \<longleftrightarrow> (\<exists>fs us. inv_lists c fs us \<and> owners c us)"

text \<open>
  The program that embeds V8 uses the thread manager through the guards only. A guard is
  an object with automatic storage: a thread destroys its guards in the reverse order of
  their construction, so each thread has a stack of live guards. \<^verbatim>\<open>V8::TerminateExecution\<close>
  may be called at any time. As for \<open>reachable\<close>, the operations are those of the build
  with assertions that return.
\<close>
datatype guard = Locker_guard Locker | Unlocker_guard

datatype action =
  Construct_Locker thread | Destroy_Locker thread
  | Construct_Unlocker thread | Destroy_Unlocker thread
  | Terminate int32

record embedder =
  manager :: V8Context
  guards :: "thread \<Rightarrow> guard list"

inductive guarded :: "config \<Rightarrow> action list \<Rightarrow> embedder \<Rightarrow> bool" for cfg :: config where
  fresh: "guarded cfg [] \<lparr>manager = ThreadManagerData cfg, guards = (\<lambda>_. [])\<rparr>"
| Locker:
    "guarded cfg as g \<Longrightarrow> Locker_ctor (checked cfg) t (manager g) = Inr (l, c') \<Longrightarrow>
     guarded cfg (as @ [Construct_Locker t])
       (g\<lparr>manager := c', guards := (guards g)(t := Locker_guard l # guards g t)\<rparr>)"
| Locker_end:
    "guarded cfg as g \<Longrightarrow> guards g t = Locker_guard l # rest \<Longrightarrow>
     Locker_dtor (checked cfg) t l (manager g) = Inr c' \<Longrightarrow>
     guarded cfg (as @ [Destroy_Locker t]) (g\<lparr>manager := c', guards := (guards g)(t := rest)\<rparr>)"
| Unlocker:
    "guarded cfg as g \<Longrightarrow> Unlocker_ctor (checked cfg) t (manager g) = Inr c' \<Longrightarrow>
     guarded cfg (as @ [Construct_Unlocker t])
       (g\<lparr>manager := c', guards := (guards g)(t := Unlocker_guard # guards g t)\<rparr>)"
| Unlocker_end:
    "guarded cfg as g \<Longrightarrow> guards g t = Unlocker_guard # rest \<Longrightarrow>
     Unlocker_dtor (checked cfg) t (manager g) = Inr c' \<Longrightarrow>
     guarded cfg (as @ [Destroy_Unlocker t]) (g\<lparr>manager := c', guards := (guards g)(t := rest)\<rparr>)"
| Terminate:
    "guarded cfg as g \<Longrightarrow> TerminateExecution thread_id (manager g) = Some c' \<Longrightarrow>
     guarded cfg (as @ [Terminate thread_id]) (g\<lparr>manager := c'\<rparr>)"

text \<open>
  The invariant of these runs: the ids are in order, the thread that holds the lock has
  an id, has no archived state and sees no pending lazy candidate, and a thread with a live
  guard has an id.
\<close>
definition guard_inv :: "embedder \<Rightarrow> bool" where
  "guard_inv g \<longleftrightarrow>
     ids_ok (manager g) \<and>
     (\<forall>T. mutex_owner (manager g) = Some T \<longrightarrow>
        thread_id_key (manager g) T \<noteq> 0 \<and> lazily_archived_thread (manager g) = None \<and>
        thread_state_key (manager g) T = None) \<and>
     (\<forall>T. guards g T \<noteq> [] \<longrightarrow> thread_id_key (manager g) T \<noteq> 0)"

text \<open>
  The calls of \<^verbatim>\<open>TerminateExecution\<close> made in a run, and the thread states whose flag is
  set: the requests still to come.
\<close>
definition terminate_calls :: "action list \<Rightarrow> nat" where
  "terminate_calls as =
     length (filter (\<lambda>a. case a of Terminate thread_id \<Rightarrow> True | _ \<Rightarrow> False) as)"

definition pending_terminations :: "V8Context \<Rightarrow> nat" where
  "pending_terminations c =
     length (filter (\<lambda>a. terminate_on_restore (heap c a)) [0..<allocated c])"

definition same_ids :: "V8Context \<Rightarrow> V8Context \<Rightarrow> bool" where
  "same_ids c c' \<longleftrightarrow>
     thread_id_key c' = thread_id_key c \<and> last_id c' = last_id c \<and>
     mutex_owner c' = mutex_owner c"

text \<open>
  What a context still owes in termination requests: those already issued and those that
  the flags set will cause.
\<close>
definition owed :: "V8Context \<Rightarrow> nat" where
  "owed c = termination_requests c + pending_terminations c"

text \<open>
  The example run as a run of the guards: after the \<^verbatim>\<open>Unlocker\<close> of thread 101, after the
  \<^verbatim>\<open>Locker\<close> of thread 102, and after \<^verbatim>\<open>TerminateExecution(1)\<close>.
\<close>
definition unlocked_embedder :: embedder where
  "unlocked_embedder =
     \<lparr>manager = after_Unlocker,
      guards = (\<lambda>_. [])(101 := [Unlocker_guard, Locker_guard \<lparr>has_lock = True, top_level = True\<rparr>])\<rparr>"

definition relocked_embedder :: embedder where
  "relocked_embedder =
     unlocked_embedder
       \<lparr>manager := after_second_Locker,
        guards := (guards unlocked_embedder)
                    (102 := [Locker_guard \<lparr>has_lock = True, top_level = True\<rparr>])\<rparr>"

definition terminated_embedder :: embedder where
  "terminated_embedder = relocked_embedder\<lparr>manager := after_Terminate\<rparr>"

subsection \<open>Preemption: the context switcher\<close>

text \<open>
  \<^verbatim>\<open>new ContextSwitcher(every_n_ms)\<close>: the constructor sets \<^verbatim>\<open>keep_going_\<close> and
  \<^verbatim>\<open>sleep_ms_\<close>; the new object gets the next fresh name.
\<close>
definition new_ContextSwitcher :: "int32 \<Rightarrow> V8Context \<Rightarrow> addr \<times> V8Context" where
  "new_ContextSwitcher every_n_ms c =
     (let this = switchers_allocated c in
      (this,
       c\<lparr>switchers := (switchers c)(this := \<lparr>keep_going = True, sleep_ms = every_n_ms\<rparr>),
         switchers_allocated := Suc this\<rparr>))"

text \<open>
  \<^verbatim>\<open>ContextSwitcher::StartPreemption\<close>. It returns the worker it has started, if any.
  Modelled from the spec: \<^verbatim>\<open>Thread::Start\<close> (platform.h is missing) makes the new
  object's \<^verbatim>\<open>Run\<close> execute concurrently from its beginning.
\<close>
definition StartPreemption ::
  "config \<Rightarrow> thread \<Rightarrow> int32 \<Rightarrow> V8Context \<Rightarrow> error + (addr option \<times> V8Context)" where
  "StartPreemption cfg self every_n_ms c =
     (if failed cfg (IsLocked self c) then Inl (AssertionFailed ''Locker::IsLocked()'')
      else
        (case singleton c of
           None \<Rightarrow>
             let (s, c1) = new_ContextSwitcher every_n_ms c;
                 c2 = c1\<lparr>singleton := Some s\<rparr>
             in Inr (Some s, c2)
         | Some s \<Rightarrow>
             Inr (None, c\<lparr>switchers := (switchers c)(s := (switchers c s)\<lparr>sleep_ms := every_n_ms\<rparr>)\<rparr>)))"

text \<open>
  \<^verbatim>\<open>ContextSwitcher::StopPreemption\<close> is cut where it may have to wait:
  \<open>StopPreemption_begin\<close> runs to the call of \<^verbatim>\<open>Join\<close> and returns the worker to wait
  for (none when \<^verbatim>\<open>singleton_\<close> is \<^verbatim>\<open>NULL\<close>, and then the function is at its end);
  \<open>StopPreemption_end\<close> is the rest. \<^verbatim>\<open>delete\<close> leaves the store as it is, since names
  are never used again.
\<close>
definition StopPreemption_begin ::
  "config \<Rightarrow> thread \<Rightarrow> V8Context \<Rightarrow> error + (addr option \<times> V8Context)" where
  "StopPreemption_begin cfg self c =
     (if failed cfg (IsLocked self c) then Inl (AssertionFailed ''Locker::IsLocked()'')
      else
        (case singleton c of
           None \<Rightarrow> Inr (None, c)
         | Some s \<Rightarrow>
             Inr (Some s, c\<lparr>switchers := (switchers c)(s := (switchers c s)\<lparr>keep_going := False\<rparr>)\<rparr>)))"

definition StopPreemption_end :: "addr option \<Rightarrow> V8Context \<Rightarrow> V8Context" where
  "StopPreemption_end joined c =
     (case joined of None \<Rightarrow> c | Some s \<Rightarrow> c\<lparr>singleton := None\<rparr>)"

text \<open>
  \<^verbatim>\<open>ContextSwitcher::Run\<close>: the test of the loop and its body. Modelled from the spec:
  \<^verbatim>\<open>OS::Sleep\<close> changes nothing, and \<^verbatim>\<open>StackGuard::Preempt\<close> (execution.cc is
  missing) is a recorded call.
\<close>
definition Run_test :: "addr \<Rightarrow> V8Context \<Rightarrow> bool" where
  "Run_test this c = keep_going (switchers c this)"

definition Run_body :: "addr \<Rightarrow> V8Context \<Rightarrow> V8Context" where
  "Run_body this c = emit StackGuard_Preempt c"

subsection \<open>Threads running concurrently\<close>

text \<open>
  Where a thread stands inside an operation that other threads can observe half done:
  in \<^verbatim>\<open>ThreadManager::Lock\<close> between acquiring the mutex and recording the owner, in
  \<^verbatim>\<open>ThreadManager::Unlock\<close> between clearing the owner and releasing the mutex, and in
  \<^verbatim>\<open>StopPreemption\<close> between \<open>StopPreemption_begin\<close> and its return, with the worker it
  waits for. A worker has not been started, is at the test of its loop, is between the
  test and \<^verbatim>\<open>StackGuard::Preempt\<close>, or has left \<^verbatim>\<open>Run\<close>. A label names the step taken
  and who took it; \<open>Stop_return\<close> is the return of \<^verbatim>\<open>StopPreemption\<close>.
\<close>
datatype phase = Idle | Lock_acquired | Unlock_cleared | Stopping "addr option"

datatype worker_phase = Unborn | Loop_test | Sleeping | Exited

datatype label =
  Acquire thread | Record thread | Clear thread | Release thread | Call thread
  | Start thread | Stop_begin thread | Stop_return thread
  | Test addr | Preempt addr

record system =
  ctx :: V8Context
  pc :: "thread \<Rightarrow> phase"
  worker :: "addr \<Rightarrow> worker_phase"

definition initial_system :: "config \<Rightarrow> system" where
  "initial_system cfg =
     \<lparr>ctx = ThreadManagerData cfg, pc = (\<lambda>_. Idle), worker = (\<lambda>_. Unborn)\<rparr>"

text \<open>
  The calls that touch neither the lock nor the context switcher; a thread performs one
  of them in one step, whether or not it holds the lock.
\<close>
inductive manager_call :: "config \<Rightarrow> thread \<Rightarrow> V8Context \<Rightarrow> V8Context \<Rightarrow> bool"
  for cfg :: config and t :: thread and c :: V8Context where
  set_active: "manager_call cfg t c (c\<lparr>active := True\<rparr>)"
| initialize: "manager_call cfg t c (V8_Initialize_call c)"
| stack_guard_clear: "manager_call cfg t c (emit StackGuard_ClearThread c)"
| stack_guard_init: "manager_call cfg t c (emit StackGuard_InitThread c)"
| restore: "RestoreThread cfg t c = Inr (b, c') \<Longrightarrow> manager_call cfg t c c'"
| archive: "ArchiveThread cfg t c = Inr c' \<Longrightarrow> manager_call cfg t c c'"
| eagerly_archive: "EagerlyArchiveThread cfg c = Inr c' \<Longrightarrow> manager_call cfg t c c'"
| assign_id: "AssignId cfg t c = Inr c' \<Longrightarrow> manager_call cfg t c c'"
| free_resources: "manager_call cfg t c (FreeThreadResources cfg c)"
| terminate: "TerminateExecution thread_id c = Some c' \<Longrightarrow> manager_call cfg t c c'"

text \<open>
  Modelled from the spec: \<^verbatim>\<open>Thread::Join\<close> (platform.h is missing) returns once the
  worker's \<^verbatim>\<open>Run\<close> has returned; with no worker to wait for there is no call.
\<close>
definition Join_returns :: "system \<Rightarrow> addr option \<Rightarrow> bool" where
  "Join_returns s joined = (case joined of None \<Rightarrow> True | Some x \<Rightarrow> worker s x = Exited)"

text \<open>
  One step of one thread or of one worker. \<^verbatim>\<open>StartPreemption\<close> and \<^verbatim>\<open>StopPreemption\<close>
  are called by a thread for which \<^verbatim>\<open>Locker::IsLocked()\<close> holds, as their assertions
  ask. A run is a sequence of steps from the fresh context, with the labels in the order
  in which the steps were taken; \<open>continues\<close> is the same from any state.
\<close>
inductive step :: "config \<Rightarrow> system \<Rightarrow> label \<Rightarrow> system \<Rightarrow> bool" for cfg :: config where
  acquire:
    "pc s t = Idle \<Longrightarrow> Mutex_Lock t (ctx s) = Inr c' \<Longrightarrow>
     step cfg s (Acquire t) (s\<lparr>ctx := c', pc := (pc s)(t := Lock_acquired)\<rparr>)"
| set_owner:
    "pc s t = Lock_acquired \<Longrightarrow>
     step cfg s (Record t) (s\<lparr>ctx := record_owner t (ctx s), pc := (pc s)(t := Idle)\<rparr>)"
| reset_owner:
    "pc s t = Idle \<Longrightarrow>
     step cfg s (Clear t)
       (s\<lparr>ctx := clear_owner t (ctx s), pc := (pc s)(t := Unlock_cleared)\<rparr>)"
| release:
    "pc s t = Unlock_cleared \<Longrightarrow>
     step cfg s (Release t) (s\<lparr>ctx := Mutex_Unlock t (ctx s), pc := (pc s)(t := Idle)\<rparr>)"
| call:
    "pc s t = Idle \<Longrightarrow> manager_call cfg t (ctx s) c' \<Longrightarrow>
     step cfg s (Call t) (s\<lparr>ctx := c'\<rparr>)"
| start:
    "pc s t = Idle \<Longrightarrow> IsLocked t (ctx s) \<Longrightarrow>
     StartPreemption cfg t every_n_ms (ctx s) = Inr (started, c') \<Longrightarrow>
     step cfg s (Start t)
       (s\<lparr>ctx := c',
          worker := (case started of None \<Rightarrow> worker s | Some x \<Rightarrow> (worker s)(x := Loop_test))\<rparr>)"
| stop_begin:
    "pc s t = Idle \<Longrightarrow> IsLocked t (ctx s) \<Longrightarrow>
     StopPreemption_begin cfg t (ctx s) = Inr (joined, c') \<Longrightarrow>
     step cfg s (Stop_begin t) (s\<lparr>ctx := c', pc := (pc s)(t := Stopping joined)\<rparr>)"
| stop_return:
    "pc s t = Stopping joined \<Longrightarrow> Join_returns s joined \<Longrightarrow>
     step cfg s (Stop_return t)
       (s\<lparr>ctx := StopPreemption_end joined (ctx s), pc := (pc s)(t := Idle)\<rparr>)"
| test:
    "worker s x = Loop_test \<Longrightarrow>
     step cfg s (Test x)
       (s\<lparr>worker := (worker s)(x := (if Run_test x (ctx s) then Sleeping else Exited))\<rparr>)"
| preempt:
    "worker s x = Sleeping \<Longrightarrow>
     step cfg s (Preempt x)
       (s\<lparr>ctx := Run_body x (ctx s), worker := (worker s)(x := Loop_test)\<rparr>)"

inductive run :: "config \<Rightarrow> label list \<Rightarrow> system \<Rightarrow> bool" for cfg :: config where
  start: "run cfg [] (initial_system cfg)"
| step: "run cfg ls s \<Longrightarrow> step cfg s l s' \<Longrightarrow> run cfg (ls @ [l]) s'"

inductive continues :: "config \<Rightarrow> system \<Rightarrow> label list \<Rightarrow> system \<Rightarrow> bool"
  for cfg :: config and s :: system where
  here: "continues cfg s [] s"
| step: "continues cfg s ls s' \<Longrightarrow> step cfg s' l s'' \<Longrightarrow> continues cfg s (ls @ [l]) s''"

text \<open>
  The invariants of a run: what the mutex and the thread positions say about the owner
  record, and what the worker positions say about \<^verbatim>\<open>singleton_\<close>. \<open>same_lock\<close> holds of
  two contexts that differ in neither the lock nor the context switcher.
\<close>
definition lock_inv :: "system \<Rightarrow> bool" where
  "lock_inv s \<longleftrightarrow>
     (\<forall>t. mutex_owner (ctx s) = Some t \<longrightarrow> mutex (ctx s) = Some t) \<and>
     (\<forall>t. pc s t = Lock_acquired \<longrightarrow> mutex (ctx s) = Some t) \<and>
     (\<forall>t. pc s t = Unlock_cleared \<longrightarrow> mutex_owner (ctx s) \<noteq> Some t) \<and>
     (\<forall>t j. pc s t = Stopping j \<longrightarrow> mutex (ctx s) = Some t)"

definition same_lock :: "V8Context \<Rightarrow> V8Context \<Rightarrow> bool" where
  "same_lock c c' \<longleftrightarrow>
     mutex c' = mutex c \<and> mutex_owner c' = mutex_owner c \<and> singleton c' = singleton c \<and>
     switchers c' = switchers c \<and> switchers_allocated c' = switchers_allocated c"

definition switch_inv :: "system \<Rightarrow> bool" where
  "switch_inv s \<longleftrightarrow>
     (\<forall>x. worker s x = Loop_test \<or> worker s x = Sleeping \<longrightarrow> singleton (ctx s) = Some x) \<and>
     (\<forall>x. worker s x \<noteq> Unborn \<longrightarrow> x < switchers_allocated (ctx s)) \<and>
     (\<forall>x. singleton (ctx s) = Some x \<longrightarrow>
        x < switchers_allocated (ctx s) \<and> worker s x \<noteq> Unborn) \<and>
     (\<forall>t j. pc s t = Stopping j \<longrightarrow> singleton (ctx s) = j) \<and>
     (\<forall>t x. pc s t = Stopping (Some x) \<longrightarrow> \<not> keep_going (switchers (ctx s) x))"

text \<open>
  A run of the example build: thread 101 takes the lock, starts preemption with an
  interval of 10 ms, the worker issues one preemption request, and thread 101 stops
  preemption (\<open>stopping_system\<close> while it waits, \<open>joined_system\<close> when the worker has
  left its loop, \<open>stopped_system\<close> at the return) and begins to release the lock
  (\<open>released_system\<close>).
\<close>
definition locked_system :: system where
  "locked_system =
     (initial_system example_config)
       \<lparr>ctx := (ThreadManagerData example_config)\<lparr>mutex := Some 101, mutex_owner := Some 101\<rparr>\<rparr>"

definition started_system :: system where
  "started_system =
     locked_system
       \<lparr>ctx := (ctx locked_system)
          \<lparr>switchers := (switchers (ctx locked_system))(0 := \<lparr>keep_going = True, sleep_ms = 10\<rparr>),
           switchers_allocated := 1, singleton := Some 0\<rparr>,
        worker := (worker locked_system)(0 := Loop_test)\<rparr>"

definition stopping_system :: system where
  "stopping_system =
     started_system
       \<lparr>ctx := (ctx started_system)
          \<lparr>switchers := (switchers (ctx started_system))(0 := \<lparr>keep_going = False, sleep_ms = 10\<rparr>),
           trace := trace (ctx started_system) @ [StackGuard_Preempt]\<rparr>,
        pc := (pc started_system)(101 := Stopping (Some 0))\<rparr>"

definition joined_system :: system where
  "joined_system = stopping_system\<lparr>worker := (worker stopping_system)(0 := Exited)\<rparr>"

definition stopped_system :: system where
  "stopped_system =
     joined_system
       \<lparr>ctx := (ctx joined_system)\<lparr>singleton := None\<rparr>,
        pc := (pc joined_system)(101 := Idle)\<rparr>"

definition released_system :: system where
  "released_system =
     stopped_system
       \<lparr>ctx := clear_owner 101 (ctx stopped_system),
        pc := (pc stopped_system)(101 := Unlock_cleared)\<rparr>"

section \<open>Properties\<close>

subsection \<open>The list structure\<close>

lemma linked_append:
  "linked h (as @ x # bs) = (linked h (as @ [x]) \<and> linked h (x # bs))"
  by (induction h as rule: linked.induct) auto

lemma linked_cong:
  "\<forall>a \<in> set (butlast zs). next_state (h' a) = next_state (h a) \<Longrightarrow>
   \<forall>a \<in> set (tl zs). previous_state (h' a) = previous_state (h a) \<Longrightarrow>
   linked h' zs = linked h zs"
  by (induction h zs rule: linked.induct) auto

lemma heap_Unlink: "heap (Unlink x c) = unlink_heap x (heap c)"
  by (simp add: Unlink_def unlink_heap_def set_previous_def set_next_def Let_def)

lemma unlink_linked:
  assumes "linked h (L @ [p, x, n] @ R)"
    and "p \<notin> set L" and "n \<notin> set R" and "n \<notin> set (tl (L @ [p]))" and "p \<notin> set (butlast (n # R))"
    and "x \<noteq> p" "x \<noteq> n"
  shows "linked (unlink_heap x h) (L @ [p, n] @ R)"
proof -
  from assms(1) have a: "linked h (L @ [p])" "next_state (h p) = x" "previous_state (h x) = p"
    "next_state (h x) = n" "previous_state (h n) = x" "linked h (n # R)"
    using linked_append[of h L p "x # n # R"] by auto
  let ?h = "unlink_heap x h"
  have nx: "\<And>a. a \<noteq> p \<Longrightarrow> next_state (?h a) = next_state (h a)"
    and pv: "\<And>a. a \<noteq> n \<Longrightarrow> previous_state (?h a) = previous_state (h a)"
    and np: "next_state (?h p) = n" and pn: "previous_state (?h n) = p"
    using a assms(6,7) by (auto simp: unlink_heap_def Let_def)
  have 1: "linked ?h (L @ [p]) = linked h (L @ [p])"
  proof (rule linked_cong)
    show "\<forall>a\<in>set (butlast (L @ [p])). next_state (?h a) = next_state (h a)"
      using assms(2) by (auto intro!: nx)
    show "\<forall>a\<in>set (tl (L @ [p])). previous_state (?h a) = previous_state (h a)"
      using assms(4) by (auto intro!: pv)
  qed
  have 2: "linked ?h (n # R) = linked h (n # R)"
  proof (rule linked_cong)
    show "\<forall>a\<in>set (butlast (n # R)). next_state (?h a) = next_state (h a)"
      using assms(5) by (auto intro!: nx)
    show "\<forall>a\<in>set (tl (n # R)). previous_state (?h a) = previous_state (h a)"
      using assms(3) by (auto intro!: pv)
  qed
  show ?thesis
    using linked_append[of ?h L p "n # R"] 1 2 a np pn by auto
qed

lemma Unlink_dll:
  assumes "dll h anchor (as @ x # bs)"
  shows "dll (unlink_heap x h) anchor (as @ bs)"
proof -
  from assms have l: "linked h (anchor # as @ x # bs @ [anchor])"
    and d: "distinct (anchor # as @ x # bs)" by (auto simp: dll_def)
  obtain L p where L: "anchor # as = L @ [p]"
    by (metis append_butlast_last_id list.distinct(1))
  obtain n R where R: "bs @ [anchor] = n # R"
    by (cases bs) auto
  have l': "linked h (L @ [p, x, n] @ R)"
  proof -
    have "anchor # as @ x # bs @ [anchor] = (anchor # as) @ x # (bs @ [anchor])" by simp
    also have "\<dots> = L @ [p, x, n] @ R" unfolding L R by simp
    finally show ?thesis using l by simp
  qed
  have pin: "p \<in> set (anchor # as)" unfolding L by simp
  have nin: "n \<in> set (bs @ [anchor])" unfolding R by simp
  have tlL: "tl (L @ [p]) = as" unfolding L[symmetric] by simp
  have blR: "butlast (n # R) = bs" unfolding R[symmetric] by simp
  have "distinct (anchor # as)" using d by simp
  then have dL: "distinct (L @ [p])" unfolding L .
  have "distinct (bs @ [anchor])" using d by auto
  then have dR: "distinct (n # R)" unfolding R .
  have "linked (unlink_heap x h) (L @ [p, n] @ R)"
  proof (rule unlink_linked[OF l'])
    show "p \<notin> set L" using dL by auto
    show "n \<notin> set R" using dR by auto
    show "n \<notin> set (tl (L @ [p]))" unfolding tlL using nin d by auto
    show "p \<notin> set (butlast (n # R))" unfolding blR using pin d by auto
    show "x \<noteq> p" using pin d by auto
    show "x \<noteq> n" using nin d by auto
  qed
  moreover have "L @ [p, n] @ R = anchor # (as @ bs) @ [anchor]"
  proof -
    have "L @ [p, n] @ R = (L @ [p]) @ (n # R)" by simp
    also have "\<dots> = (anchor # as) @ (bs @ [anchor])" unfolding L R ..
    finally show ?thesis by simp
  qed
  ultimately show ?thesis using d by (simp add: dll_def)
qed

lemma LinkInto_eq:
  "LinkInto x l c =
     c\<lparr>heap := link_heap x (if l = FREE_LIST then free_anchor c else in_use_anchor c) (heap c)\<rparr>"
  by (simp add: LinkInto_def link_heap_def set_previous_def set_next_def Let_def)

lemma Unlink_eq: "Unlink x c = c\<lparr>heap := unlink_heap x (heap c)\<rparr>"
  by (simp add: Unlink_def unlink_heap_def set_previous_def set_next_def Let_def)

lemma link_dll:
  assumes "dll h anchor xs" and "x \<notin> set (anchor # xs)"
  shows "dll (link_heap x anchor h) anchor (x # xs)"
proof -
  from assms have l: "linked h (anchor # xs @ [anchor])" and d: "distinct (anchor # xs)"
    by (auto simp: dll_def)
  obtain n R where R: "xs @ [anchor] = n # R" by (cases xs) auto
  have nin: "n \<in> set (xs @ [anchor])" unfolding R by simp
  have blR: "butlast (n # R) = xs" unfolding R[symmetric] by simp
  have "distinct (xs @ [anchor])" using d by auto
  then have dR: "distinct (n # R)" unfolding R .
  have Rsub: "set R \<subseteq> set (xs @ [anchor])" unfolding R by auto
  from l have a: "next_state (h anchor) = n" "linked h (n # R)"
    unfolding R by auto
  let ?h = "link_heap x anchor h"
  have xa: "x \<noteq> anchor" and xn: "x \<noteq> n" using assms(2) nin by auto
  have nx: "\<And>a. a \<noteq> x \<Longrightarrow> a \<noteq> anchor \<Longrightarrow> next_state (?h a) = next_state (h a)"
    and pv: "\<And>a. a \<noteq> x \<Longrightarrow> a \<noteq> n \<Longrightarrow> previous_state (?h a) = previous_state (h a)"
    and f: "next_state (?h anchor) = x" "previous_state (?h x) = anchor"
      "next_state (?h x) = n" "previous_state (?h n) = x"
    using a xa xn by (auto simp: link_heap_def Let_def)
  have "linked ?h (n # R) = linked h (n # R)"
  proof (rule linked_cong)
    show "\<forall>a\<in>set (butlast (n # R)). next_state (?h a) = next_state (h a)"
      unfolding blR using assms(2) d by (auto intro!: nx)
    show "\<forall>a\<in>set (tl (n # R)). previous_state (?h a) = previous_state (h a)"
      using dR Rsub assms(2) by (auto intro!: pv)
  qed
  then have "linked ?h (anchor # x # n # R)" using a f by simp
  then have "linked ?h (anchor # (x # xs) @ [anchor])" unfolding R[symmetric] by simp
  then show ?thesis using d assms(2) by (simp add: dll_def)
qed

lemma dll_cong:
  assumes "\<forall>a \<in> set (anchor # xs). next_state (h' a) = next_state (h a) \<and>
             previous_state (h' a) = previous_state (h a)"
  shows "dll h' anchor xs = dll h anchor xs"
proof -
  have "linked h' (anchor # xs @ [anchor]) = linked h (anchor # xs @ [anchor])"
    using assms by (intro linked_cong) (auto simp: butlast_append)
  then show ?thesis by (simp add: dll_def)
qed

lemma linked_next_in:
  "linked h (zs @ [z]) \<Longrightarrow> a \<in> set zs \<Longrightarrow> next_state (h a) \<in> set (tl (zs @ [z]))"
  by (induction h zs rule: linked.induct) auto

lemma linked_prev_in:
  "linked h (z # zs) \<Longrightarrow> a \<in> set zs \<Longrightarrow> previous_state (h a) \<in> set (butlast (z # zs))"
  by (induction h zs arbitrary: z rule: linked.induct) auto

lemma dll_closed:
  assumes "dll h anchor xs" and "a \<in> set (anchor # xs)"
  shows "next_state (h a) \<in> set (anchor # xs)" and "previous_state (h a) \<in> set (anchor # xs)"
proof -
  from assms have l: "linked h ((anchor # xs) @ [anchor])" by (simp add: dll_def)
  from linked_next_in[OF l assms(2)] show "next_state (h a) \<in> set (anchor # xs)" by auto
  from assms have l': "linked h (anchor # (xs @ [anchor]))" by (simp add: dll_def)
  from assms(2) have "a \<in> set (xs @ [anchor])" by auto
  from linked_prev_in[OF l' this] show "previous_state (h a) \<in> set (anchor # xs)"
    by (simp add: butlast_append)
qed

lemma unlink_heap_other:
  "a \<noteq> next_state (h x) \<Longrightarrow> a \<noteq> previous_state (h x) \<Longrightarrow> unlink_heap x h a = h a"
  by (auto simp: unlink_heap_def Let_def)

lemma link_heap_other:
  "a \<noteq> x \<Longrightarrow> a \<noteq> anchor \<Longrightarrow> a \<noteq> next_state (h anchor) \<Longrightarrow> link_heap x anchor h a = h a"
  by (auto simp: link_heap_def Let_def)

lemma unlink_heap_self: 
  "next_state (h x) = x \<Longrightarrow> previous_state (h x) = x \<Longrightarrow> unlink_heap x h = h"
  by (auto simp: unlink_heap_def Let_def fun_eq_iff)

lemma unlink_frame:
  assumes "dll h anchor xs" and "dll h anchor' ys" and "x \<in> set xs"
    and "set (anchor # xs) \<inter> set (anchor' # ys) = {}"
  shows "dll (unlink_heap x h) anchor' ys"
proof -
  have "next_state (h x) \<in> set (anchor # xs)" "previous_state (h x) \<in> set (anchor # xs)"
    using dll_closed[OF assms(1), of x] assms(3) by auto
  then have "\<forall>a\<in>set (anchor' # ys). unlink_heap x h a = h a"
    using assms(4) by (intro ballI unlink_heap_other) auto
  then show ?thesis using dll_cong[of anchor' ys "unlink_heap x h" h] assms(2) by simp
qed

lemma link_frame:
  assumes "dll h anchor xs" and "dll h anchor' ys" and "x \<notin> set (anchor' # ys)"
    and "set (anchor # xs) \<inter> set (anchor' # ys) = {}"
  shows "dll (link_heap x anchor h) anchor' ys"
proof -
  have "next_state (h anchor) \<in> set (anchor # xs)"
    using dll_closed[OF assms(1), of anchor] by auto
  then have "\<forall>a\<in>set (anchor' # ys). link_heap x anchor h a = h a"
    using assms(3,4) by (intro ballI link_heap_other) auto
  then show ?thesis using dll_cong[of anchor' ys "link_heap x anchor h" h] assms(2) by simp
qed

lemma unlink_heap_fields [simp]:
  "state_id (unlink_heap x h a) = state_id (h a)"
  "terminate_on_restore (unlink_heap x h a) = terminate_on_restore (h a)"
  "data (unlink_heap x h a) = data (h a)"
  by (auto simp: unlink_heap_def Let_def)

lemma link_heap_fields [simp]:
  "state_id (link_heap x anchor h a) = state_id (h a)"
  "terminate_on_restore (link_heap x anchor h a) = terminate_on_restore (h a)"
  "data (link_heap x anchor h a) = data (h a)"
  by (auto simp: link_heap_def Let_def)

lemma walk_linked:
  "linked h (x # ys @ [anchor]) \<Longrightarrow> anchor \<notin> set ys \<Longrightarrow> length ys < n \<Longrightarrow>
   walk h anchor (next_state (h x)) n = Some ys"
proof (induction ys arbitrary: x n)
  case Nil
  then show ?case by (cases n) auto
next
  case (Cons y ys)
  then obtain m where n: "n = Suc m" by (cases n) auto
  from Cons.prems have "next_state (h x) = y" "linked h (y # ys @ [anchor])" "y \<noteq> anchor"
    by auto
  moreover have "walk h anchor (next_state (h y)) m = Some ys"
    using Cons.IH[of y m] Cons.prems n by auto
  ultimately show ?case by (simp add: n)
qed

lemma EagerlyArchiveThread_eq:
  assumes "lazily_archived_thread_state c = Some a"
  shows "EagerlyArchiveThread cfg c =
     Inr (c\<lparr>heap := (link_heap a (in_use_anchor c) (heap c))
                (a := (link_heap a (in_use_anchor c) (heap c) a)
                   \<lparr>data := archive_image cfg c (registration_order cfg) 0 (data (heap c a))\<rparr>),
           trace := trace c @ map Archive (registration_order cfg),
           thread_local := ThreadLocal_default cfg,
           lazily_archived_thread := None,
           lazily_archived_thread_state := None\<rparr>)"
  using assms
  by (cases "ENABLE_DEBUGGER_SUPPORT cfg")
     (simp_all add: EagerlyArchiveThread_def LinkInto_eq Subsystem_Archive_def
      RegExpStack_ArchiveStack_def memcpy_to_def emit_def advance_def Let_def
      registration_order_def footprint_def live_bytes_def Initialize_def)

lemma RestoreThread_lazy_eq:
  assumes "lazily_archived_thread c = Some self" and "lazily_archived_thread_state c = Some a"
    and "thread_state_key c self = Some a"
  shows "RestoreThread cfg self c =
     Inr (True,
          c\<lparr>heap := link_heap a (free_anchor c) ((heap c)(a := (heap c a)\<lparr>state_id := kInvalidId cfg\<rparr>)),
            lazily_archived_thread := None,
            lazily_archived_thread_state := None,
            thread_state_key := (thread_state_key c)(self := None)\<rparr>)"
  using assms
  by (simp add: RestoreThread_def IsSelf_def failed_def Initialize_def set_id_def LinkInto_eq)

lemma RestoreThread_forces_eager:
  assumes "lazily_archived_thread c = Some t" and "t \<noteq> self"
  shows "RestoreThread cfg self c =
     (case EagerlyArchiveThread cfg c of Inl e \<Rightarrow> Inl e | Inr c1 \<Rightarrow> RestoreThread cfg self c1)"
proof (cases "lazily_archived_thread_state c")
  case None
  then show ?thesis using assms
    by (simp add: RestoreThread_def IsSelf_def IsValid_def EagerlyArchiveThread_def)
next
  case (Some a)
  show ?thesis using assms
    by (simp add: RestoreThread_def IsSelf_def IsValid_def EagerlyArchiveThread_eq[OF Some])
qed

lemma RestoreThread_new_eq:
  assumes "lazily_archived_thread c = None" and "thread_state_key c self = None"
  shows "RestoreThread cfg self c = Inr (False, emit StackGuard_InitThread c)"
  using assms by (simp add: RestoreThread_def IsSelf_def IsValid_def)

lemma Subsystem_Restore_eq:
  "Subsystem_Restore cfg sub from c =
     (advance from (SpacePerThread cfg sub),
      c\<lparr>trace := trace c @ [Restore sub],
        live := (live c)(sub := load_bytes (data (heap c (fst from))) (snd from) (SpacePerThread cfg sub))\<rparr>)"
  by (cases "from") (simp add: Subsystem_Restore_def memcpy_from_def emit_def Let_def)

lemma RegExpStack_RestoreStack_eq:
  "RegExpStack_RestoreStack cfg from c =
     (advance from (sizeof_ThreadLocal cfg),
      c\<lparr>trace := trace c @ [Restore RegExpStack],
        thread_local := load_bytes (data (heap c (fst from))) (snd from) (sizeof_ThreadLocal cfg)\<rparr>)"
  by (cases "from") (simp add: RegExpStack_RestoreStack_def memcpy_from_def emit_def Let_def)

lemma restore_chain:
  "(let from = (a, 0::nat);
        (from, c2) = Subsystem_Restore cfg HandleScopeImplementer from c1;
        (from, c3) = Subsystem_Restore cfg Top from c2;
        (from, c4) = Subsystem_Restore cfg Relocatable from c3;
        (from, c5) = (if ENABLE_DEBUGGER_SUPPORT cfg
                      then Subsystem_Restore cfg Debug from c4 else (from, c4));
        (from, c6) = Subsystem_Restore cfg StackGuard from c5;
        (from, c7) = RegExpStack_RestoreStack cfg from c6;
        (from, c8) = Subsystem_Restore cfg Bootstrapper from c7
    in K c8) =
   K (c1\<lparr>live := fst (restore_image cfg (registration_order cfg) 0 (data (heap c1 a)) (live c1, thread_local c1)),
          thread_local := snd (restore_image cfg (registration_order cfg) 0 (data (heap c1 a)) (live c1, thread_local c1)),
          trace := trace c1 @ map Restore (registration_order cfg)\<rparr>)"
  apply (cases "ENABLE_DEBUGGER_SUPPORT cfg")
   apply (simp_all add: Subsystem_Restore_eq RegExpStack_RestoreStack_eq advance_def
      Let_def registration_order_def footprint_def)
   apply (rule arg_cong[where f = K], simp)+
  done

lemma RestoreThread_archived_eq:
  assumes "lazily_archived_thread c = None" and "thread_state_key c self = Some a"
  shows "RestoreThread cfg self c =
     Inr (True,
          c\<lparr>heap := link_heap a (free_anchor c) (unlink_heap a
               ((heap c)(a := (heap c a)\<lparr>terminate_on_restore := False, state_id := kInvalidId cfg\<rparr>))),
            live := fst (restore_image cfg (registration_order cfg) 0 (data (heap c a)) (live c, thread_local c)),
            thread_local := snd (restore_image cfg (registration_order cfg) 0 (data (heap c a)) (live c, thread_local c)),
            trace := trace c @ map Restore (registration_order cfg) @
                     (if terminate_on_restore (heap c a) then [StackGuard_TerminateExecution] else []),
            thread_state_key := (thread_state_key c)(self := None)\<rparr>)"
proof -
  let ?c8 = "c\<lparr>live := fst (restore_image cfg (registration_order cfg) 0 (data (heap c a)) (live c, thread_local c)),
          thread_local := snd (restore_image cfg (registration_order cfg) 0 (data (heap c a)) (live c, thread_local c)),
          trace := trace c @ map Restore (registration_order cfg)\<rparr>"
  have "RestoreThread cfg self c = 
         (let c9 = ?c8\<lparr>thread_state_key := (thread_state_key ?c8)(self := None)\<rparr>;
                      c10 = (if terminate_on_restore (heap c9 a)
                             then set_terminate_on_restore a False
                                    (emit StackGuard_TerminateExecution c9)
                             else c9);
                      c11 = set_id a (kInvalidId cfg) c10;
                      c12 = Unlink a c11;
                      c13 = LinkInto a FREE_LIST c12
                  in Inr (True, c13))"
    unfolding RestoreThread_def
    by (simp only: assms IsSelf_def IsValid_def restore_chain option.simps if_False if_True
        sum.case simp_thms)
  also have "\<dots> = Inr (True,
          c\<lparr>heap := link_heap a (free_anchor c) (unlink_heap a
               ((heap c)(a := (heap c a)\<lparr>terminate_on_restore := False, state_id := kInvalidId cfg\<rparr>))),
            live := fst (restore_image cfg (registration_order cfg) 0 (data (heap c a)) (live c, thread_local c)),
            thread_local := snd (restore_image cfg (registration_order cfg) 0 (data (heap c a)) (live c, thread_local c)),
            trace := trace c @ map Restore (registration_order cfg) @
                     (if terminate_on_restore (heap c a) then [StackGuard_TerminateExecution] else []),
            thread_state_key := (thread_state_key c)(self := None)\<rparr>)"
  proof (cases "terminate_on_restore (heap c a)")
    case True
    then show ?thesis
      by (simp add: Let_def set_terminate_on_restore_def emit_def set_id_def Unlink_eq LinkInto_eq)
  next
    case False
    then have "(heap c a)\<lparr>terminate_on_restore := False\<rparr> = heap c a"
      by (cases "heap c a") simp
    then have eq: "(heap c a)\<lparr>terminate_on_restore := False, state_id := kInvalidId cfg\<rparr> =
               (heap c a)\<lparr>state_id := kInvalidId cfg\<rparr>" by simp
    show ?thesis using False
      by (simp add: Let_def set_terminate_on_restore_def emit_def set_id_def Unlink_eq LinkInto_eq eq)
  qed
  finally show ?thesis .
qed

lemma dll_head:
  "dll h anchor fs \<Longrightarrow> next_state (h anchor) = (case fs of [] \<Rightarrow> anchor | x # _ \<Rightarrow> x)"
  by (cases fs) (auto simp: dll_def)

lemma dll_head_anchor:
  "dll h anchor fs \<Longrightarrow> (next_state (h anchor) = anchor) = (fs = [])"
  by (cases fs) (auto simp: dll_def)

lemma ArchiveThread_Inr:
  assumes "ArchiveThread cfg self c = Inr c'"
  shows "c' = archive_result cfg self c"
proof (cases "next_state (heap c (free_anchor c)) = free_anchor c")
  case True
  have "unlink_heap (allocated c) ((heap c)(allocated c :=
           \<lparr>state_id = kInvalidId cfg, terminate_on_restore = False,
            data = NewArray cfg (allocated c) (ArchiveSpacePerThread cfg),
            next_state = allocated c, previous_state = allocated c\<rparr>)) = (heap c)(allocated c :=
           \<lparr>state_id = kInvalidId cfg, terminate_on_restore = False,
            data = NewArray cfg (allocated c) (ArchiveSpacePerThread cfg),
            next_state = allocated c, previous_state = allocated c\<rparr>)"
    by (rule unlink_heap_self) simp_all
  with assms True show ?thesis
    by (auto simp add: ArchiveThread_def archive_result_def GetFree_def new_ThreadState_def
        AllocateSpace_def Unlink_eq set_id_def Initialize_def CurrentId_def Let_def
        split: if_splits)
next
  case False
  with assms show ?thesis
    by (auto simp add: ArchiveThread_def archive_result_def GetFree_def
        Unlink_eq set_id_def Initialize_def CurrentId_def Let_def
        split: if_splits)
qed

lemma ArchiveThread_checked:
  assumes "ArchiveThread cfg self c = Inr c'" and "DEBUG cfg"
  shows "lazily_archived_thread c = None" and "thread_state_key c self = None"
    and "CurrentId self c \<noteq> kInvalidId cfg"
  using assms
  by (simp_all add: ArchiveThread_def failed_def IsValid_def IsArchived_def Let_def GetFree_def
      new_ThreadState_def AllocateSpace_def Unlink_eq set_id_def CurrentId_def
      split: if_splits)

lemma dll_same_links:
  assumes "\<And>b. next_state (h' b) = next_state (h b)"
    and "\<And>b. previous_state (h' b) = previous_state (h b)"
  shows "dll h' anchor xs = dll h anchor xs"
  by (rule dll_cong) (simp add: assms)

lemma dll_upd_state_id [simp]:
  "dll (h(a := (h a)\<lparr>state_id := v\<rparr>)) anchor xs = dll h anchor xs"
  by (rule dll_same_links) auto

lemma dll_upd_flag_id [simp]:
  "dll (h(a := (h a)\<lparr>terminate_on_restore := f, state_id := v\<rparr>)) anchor xs = dll h anchor xs"
  by (rule dll_same_links) auto

lemma dll_upd_data [simp]:
  "dll (h(a := (h a)\<lparr>data := v\<rparr>)) anchor xs = dll h anchor xs"
  by (rule dll_same_links) auto

lemma dll_upd_fresh:
  "a \<notin> set (anchor # xs) \<Longrightarrow> dll (h(a := v)) anchor xs = dll h anchor xs"
  by (rule dll_cong) auto

lemma inv_lists_lazy_None:
  "inv_lists c fs us \<Longrightarrow> lazily_archived_thread c = None \<Longrightarrow> lazy_list c = []"
  by (simp add: inv_lists_def lazy_list_def)

lemma inv_archive:
  assumes inv: "inv_lists c fs us" and lz: "lazily_archived_thread c = None"
  shows "inv_lists (archive_result cfg self c) (tl fs) us"
proof -
  from inv lz have ll: "lazy_list c = []" and ls: "lazily_archived_thread_state c = None"
    by (auto simp: inv_lists_def lazy_list_def)
  from inv have df: "dll (heap c) (free_anchor c) fs" and du: "dll (heap c) (in_use_anchor c) us"
    and dis: "distinct (free_anchor c # in_use_anchor c # fs @ us)"
    and all: "set (free_anchor c # in_use_anchor c # fs @ us) = {..<allocated c}"
    and tls: "\<And>t a. thread_state_key c t = Some a \<Longrightarrow> a \<in> set us"
    and inj: "\<And>t u a. thread_state_key c t = Some a \<Longrightarrow> thread_state_key c u = Some a \<Longrightarrow> t = u"
    using ll lz by (auto simp: inv_lists_def)
  show ?thesis
  proof (cases fs)
    case Nil
    then have hd: "next_state (heap c (free_anchor c)) = free_anchor c"
      using dll_head_anchor[OF df] by simp
    let ?a = "allocated c"
    have fresh: "?a \<notin> set (free_anchor c # in_use_anchor c # fs @ us)"
      unfolding all by simp
    have nk: "\<And>t. thread_state_key c t \<noteq> Some ?a"
      using tls fresh by auto
    have d1: "\<And>v. dll ((heap c)(?a := v)) (free_anchor c) []"
      using dll_upd_fresh[of ?a "free_anchor c" "[]" "heap c"] fresh df Nil by simp
    have d2: "\<And>v. dll ((heap c)(?a := v)) (in_use_anchor c) us"
      using dll_upd_fresh[of ?a "in_use_anchor c" us "heap c"] fresh du by simp
    have fr: "?a \<noteq> free_anchor c" "?a \<noteq> in_use_anchor c" "?a \<notin> set us"
      using fresh by auto
    show ?thesis
      unfolding inv_lists_def archive_result_def Let_def
      using hd d1 d2 dis all fr Nil tls inj nk
      by (auto simp: lazy_list_def lessThan_Suc)
  next
    case (Cons x fs')
    then have hd: "next_state (heap c (free_anchor c)) = x" and xa: "x \<noteq> free_anchor c"
      using dll_head[OF df] df by (auto simp: dll_def)
    have d1: "dll (unlink_heap x (heap c)) (free_anchor c) fs'"
      using Unlink_dll[of "heap c" "free_anchor c" "[]" x fs'] df Cons by simp
    have d2: "dll (unlink_heap x (heap c)) (in_use_anchor c) us"
      using unlink_frame[OF df du, of x] dis Cons by auto
    have nk: "\<And>t. thread_state_key c t \<noteq> Some x"
      using tls dis Cons by auto
    show ?thesis
      unfolding inv_lists_def archive_result_def Let_def
      using hd xa d1 d2 dis all Cons tls inj nk
      by (auto simp: lazy_list_def)
  qed
qed

lemma inv_listsD:
  assumes "inv_lists c fs us"
  shows "dll (heap c) (free_anchor c) fs"
    and "dll (heap c) (in_use_anchor c) us"
    and "distinct (free_anchor c # in_use_anchor c # fs @ us @ lazy_list c)"
    and "set (free_anchor c # in_use_anchor c # fs @ us @ lazy_list c) = {..<allocated c}"
    and "(lazily_archived_thread c = None) = (lazily_archived_thread_state c = None)"
    and "\<And>t. lazily_archived_thread c = Some t \<Longrightarrow>
           thread_state_key c t = lazily_archived_thread_state c"
    and "\<And>t a. thread_state_key c t = Some a \<Longrightarrow>
           a \<in> set us \<or> lazily_archived_thread c = Some t"
    and "\<And>t u a. thread_state_key c t = Some a \<Longrightarrow> thread_state_key c u = Some a \<Longrightarrow> t = u"
  using assms unfolding inv_lists_def by blast+

lemma inv_listsI:
  assumes "dll (heap c) (free_anchor c) fs"
    and "dll (heap c) (in_use_anchor c) us"
    and "distinct (free_anchor c # in_use_anchor c # fs @ us @ lazy_list c)"
    and "set (free_anchor c # in_use_anchor c # fs @ us @ lazy_list c) = {..<allocated c}"
    and "(lazily_archived_thread c = None) = (lazily_archived_thread_state c = None)"
    and "\<And>t. lazily_archived_thread c = Some t \<Longrightarrow>
           thread_state_key c t = lazily_archived_thread_state c"
    and "\<And>t a. thread_state_key c t = Some a \<Longrightarrow>
           a \<in> set us \<or> lazily_archived_thread c = Some t"
    and "\<And>t u a. thread_state_key c t = Some a \<Longrightarrow> thread_state_key c u = Some a \<Longrightarrow> t = u"
  shows "inv_lists c fs us"
  using assms unfolding inv_lists_def by blast

lemma inv_eager:
  assumes inv: "inv_lists c fs us" and ls: "lazily_archived_thread_state c = Some a"
    and r: "EagerlyArchiveThread cfg c = Inr c'"
  shows "inv_lists c' fs (a # us)"
proof -
  note D = inv_listsD[OF inv]
  have ll: "lazy_list c = [a]" using ls by (simp add: lazy_list_def)
  have df: "dll (heap c) (free_anchor c) fs" and du: "dll (heap c) (in_use_anchor c) us"
    by (rule D)+
  have dis: "distinct (free_anchor c # in_use_anchor c # fs @ us @ [a])"
    and all: "set (free_anchor c # in_use_anchor c # fs @ us @ [a]) = {..<allocated c}"
    using D(3,4) unfolding ll by simp_all
  have d1: "dll (link_heap a (in_use_anchor c) (heap c)) (in_use_anchor c) (a # us)"
    using link_dll[OF du, of a] dis by auto
  have d2: "dll (link_heap a (in_use_anchor c) (heap c)) (free_anchor c) fs"
    using link_frame[OF du df, of a] dis by auto
  have tls': "\<And>t b. thread_state_key c t = Some b \<Longrightarrow> b = a \<or> b \<in> set us"
    using D(6,7) ls by fastforce
  from r have c': "heap c' = (link_heap a (in_use_anchor c) (heap c))
                (a := (link_heap a (in_use_anchor c) (heap c) a)
                   \<lparr>data := archive_image cfg c (registration_order cfg) 0 (data (heap c a))\<rparr>)"
     "free_anchor c' = free_anchor c" "in_use_anchor c' = in_use_anchor c"
      "allocated c' = allocated c" "lazily_archived_thread c' = None"
      "lazily_archived_thread_state c' = None"
      "thread_state_key c' = thread_state_key c"
    unfolding EagerlyArchiveThread_eq[OF ls] by auto
  have ll': "lazy_list c' = []" by (simp add: lazy_list_def c')
  show ?thesis
  proof (rule inv_listsI)
    show "dll (heap c') (free_anchor c') fs" unfolding c' using d2 by simp
    show "dll (heap c') (in_use_anchor c') (a # us)" unfolding c' using d1 by simp
    show "distinct (free_anchor c' # in_use_anchor c' # fs @ (a # us) @ lazy_list c')"
      unfolding c' ll' using dis by auto
    show "set (free_anchor c' # in_use_anchor c' # fs @ (a # us) @ lazy_list c') = {..<allocated c'}"
      unfolding c' ll' using all by auto
    show "(lazily_archived_thread c' = None) = (lazily_archived_thread_state c' = None)"
      by (simp add: c')
    show "\<And>t. lazily_archived_thread c' = Some t \<Longrightarrow>
           thread_state_key c' t = lazily_archived_thread_state c'" by (simp add: c')
    show "\<And>t b. thread_state_key c' t = Some b \<Longrightarrow>
           b \<in> set (a # us) \<or> lazily_archived_thread c' = Some t"
      unfolding c' using tls' by auto
    show "\<And>t u b. thread_state_key c' t = Some b \<Longrightarrow> thread_state_key c' u = Some b \<Longrightarrow> t = u"
      unfolding c' using D(8) by blast
  qed
qed

lemma inv_restore_lazy:
  assumes inv: "inv_lists c fs us" and lt: "lazily_archived_thread c = Some self"
    and r: "RestoreThread cfg self c = Inr (b, c')"
  shows "\<exists>a. lazily_archived_thread_state c = Some a \<and> inv_lists c' (a # fs) us \<and> b"
proof -
  note D = inv_listsD[OF inv]
  from D(5) lt obtain a where ls: "lazily_archived_thread_state c = Some a" by auto
  have ll: "lazy_list c = [a]" using ls by (simp add: lazy_list_def)
  have df: "dll (heap c) (free_anchor c) fs" and du: "dll (heap c) (in_use_anchor c) us"
    by (rule D)+
  have dis: "distinct (free_anchor c # in_use_anchor c # fs @ us @ [a])"
    and all: "set (free_anchor c # in_use_anchor c # fs @ us @ [a]) = {..<allocated c}"
    using D(3,4) unfolding ll by simp_all
  have k: "thread_state_key c self = Some a" using D(6)[OF lt] ls by simp
  have tls: "\<And>t b. thread_state_key c t = Some b \<Longrightarrow> b \<in> set us \<or> t = self"
    using D(7) lt by fastforce
  let ?h = "(heap c)(a := (heap c a)\<lparr>state_id := kInvalidId cfg\<rparr>)"
  have d1: "dll (link_heap a (free_anchor c) ?h) (free_anchor c) (a # fs)"
    using link_dll[of ?h "free_anchor c" fs a] df dis by auto
  have d2: "dll (link_heap a (free_anchor c) ?h) (in_use_anchor c) us"
    using link_frame[of ?h "free_anchor c" fs "in_use_anchor c" us a] df du dis by auto
  from r have c': "heap c' = link_heap a (free_anchor c) ?h"
     "free_anchor c' = free_anchor c" "in_use_anchor c' = in_use_anchor c"
      "allocated c' = allocated c" "lazily_archived_thread c' = None"
      "lazily_archived_thread_state c' = None"
      "thread_state_key c' = (thread_state_key c)(self := None)" and b: b
    unfolding RestoreThread_lazy_eq[OF lt ls k] by auto
  have ll': "lazy_list c' = []" by (simp add: lazy_list_def c')
  have "inv_lists c' (a # fs) us"
  proof (rule inv_listsI)
    show "dll (heap c') (free_anchor c') (a # fs)" unfolding c' using d1 by simp
    show "dll (heap c') (in_use_anchor c') us" unfolding c' using d2 by simp
    show "distinct (free_anchor c' # in_use_anchor c' # (a # fs) @ us @ lazy_list c')"
      unfolding c' ll' using dis by auto
    show "set (free_anchor c' # in_use_anchor c' # (a # fs) @ us @ lazy_list c') = {..<allocated c'}"
      unfolding c' ll' using all by auto
    show "(lazily_archived_thread c' = None) = (lazily_archived_thread_state c' = None)"
      by (simp add: c')
    show "\<And>t. lazily_archived_thread c' = Some t \<Longrightarrow>
           thread_state_key c' t = lazily_archived_thread_state c'" by (simp add: c')
    show "\<And>t b. thread_state_key c' t = Some b \<Longrightarrow>
           b \<in> set us \<or> lazily_archived_thread c' = Some t"
      unfolding c' using tls by (auto split: if_splits)
    show "\<And>t u b. thread_state_key c' t = Some b \<Longrightarrow> thread_state_key c' u = Some b \<Longrightarrow> t = u"
      unfolding c' using D(8) by (auto split: if_splits)
  qed
  with ls b show ?thesis by simp
qed

lemma inv_restore_archived:
  assumes inv: "inv_lists c fs us" and lt: "lazily_archived_thread c = None"
    and k: "thread_state_key c self = Some a"
    and r: "RestoreThread cfg self c = Inr (b, c')"
  shows "a \<in> set us \<and> inv_lists c' (a # fs) (remove1 a us) \<and> b"
proof -
  note D = inv_listsD[OF inv]
  from D(5) lt have ls: "lazily_archived_thread_state c = None" by simp
  have ll: "lazy_list c = []" using ls by (simp add: lazy_list_def)
  have df: "dll (heap c) (free_anchor c) fs" and du: "dll (heap c) (in_use_anchor c) us"
    by (rule D)+
  have dis: "distinct (free_anchor c # in_use_anchor c # fs @ us)"
    and all: "set (free_anchor c # in_use_anchor c # fs @ us) = {..<allocated c}"
    using D(3,4) unfolding ll by simp_all
  have tls: "\<And>t b. thread_state_key c t = Some b \<Longrightarrow> b \<in> set us"
    using D(7) lt by fastforce
  have ain: "a \<in> set us" using tls k by simp
  then obtain as bs where us: "us = as @ a # bs" by (meson split_list)
  have rm: "remove1 a us = as @ bs" using us dis by (simp add: remove1_append)
  let ?h0 = "(heap c)(a := (heap c a)\<lparr>terminate_on_restore := False, state_id := kInvalidId cfg\<rparr>)"
  let ?h1 = "unlink_heap a ?h0"
  let ?h2 = "link_heap a (free_anchor c) ?h1"
  have u1: "dll ?h1 (in_use_anchor c) (as @ bs)"
    using Unlink_dll[of ?h0 "in_use_anchor c" as a bs] du us by simp
  have f1: "dll ?h1 (free_anchor c) fs"
    using unlink_frame[of ?h0 "in_use_anchor c" us "free_anchor c" fs a] du df ain dis by auto
  have d1: "dll ?h2 (free_anchor c) (a # fs)"
    using link_dll[OF f1, of a] dis ain by auto
  have d2: "dll ?h2 (in_use_anchor c) (as @ bs)"
    using link_frame[OF f1 u1, of a] dis us by auto
  from r have c': "heap c' = ?h2" "free_anchor c' = free_anchor c" "in_use_anchor c' = in_use_anchor c"
      "allocated c' = allocated c" "lazily_archived_thread c' = None"
      "lazily_archived_thread_state c' = None"
      "thread_state_key c' = (thread_state_key c)(self := None)" and b: b
    unfolding RestoreThread_archived_eq[OF lt k] using ls lt by auto
  have ll': "lazy_list c' = []" by (simp add: lazy_list_def c')
  have tls': "\<And>t b. t \<noteq> self \<Longrightarrow> thread_state_key c t = Some b \<Longrightarrow> b \<in> set (as @ bs)"
  proof -
    fix t b assume t: "t \<noteq> self" and kb: "thread_state_key c t = Some b"
    have "b \<noteq> a" using D(8)[OF kb, of self] k t by auto
    moreover have "b \<in> set us" using tls kb by simp
    ultimately show "b \<in> set (as @ bs)" unfolding us by auto
  qed
  have "inv_lists c' (a # fs) (as @ bs)"
  proof (rule inv_listsI)
    show "dll (heap c') (free_anchor c') (a # fs)" unfolding c' using d1 by simp
    show "dll (heap c') (in_use_anchor c') (as @ bs)" unfolding c' using d2 by simp
    show "distinct (free_anchor c' # in_use_anchor c' # (a # fs) @ (as @ bs) @ lazy_list c')"
      unfolding c' ll' using dis unfolding us by auto
    show "set (free_anchor c' # in_use_anchor c' # (a # fs) @ (as @ bs) @ lazy_list c') = {..<allocated c'}"
      unfolding c' ll' using all unfolding us by auto
    show "(lazily_archived_thread c' = None) = (lazily_archived_thread_state c' = None)"
      by (simp add: c')
    show "\<And>t. lazily_archived_thread c' = Some t \<Longrightarrow>
           thread_state_key c' t = lazily_archived_thread_state c'" by (simp add: c')
    show "\<And>t b. thread_state_key c' t = Some b \<Longrightarrow>
           b \<in> set (as @ bs) \<or> lazily_archived_thread c' = Some t"
      unfolding c' using tls' by (auto split: if_splits)
    show "\<And>t u b. thread_state_key c' t = Some b \<Longrightarrow> thread_state_key c' u = Some b \<Longrightarrow> t = u"
      unfolding c' using D(8) by (auto split: if_splits)
  qed
  with ain b rm show ?thesis by simp
qed

lemma inv_restore_new:
  assumes inv: "inv_lists c fs us" and lt: "lazily_archived_thread c = None"
    and k: "thread_state_key c self = None"
    and r: "RestoreThread cfg self c = Inr (b, c')"
  shows "inv_lists c' fs us \<and> \<not> b"
proof -
  from r have c': "c' = emit StackGuard_InitThread c" and b: "\<not> b"
    unfolding RestoreThread_new_eq[OF lt k] by auto
  have "inv_lists c' fs us = inv_lists c fs us"
    unfolding c' inv_lists_def emit_def lazy_list_def by simp
  with inv b show ?thesis by simp
qed

lemma TerminateExecution_loop_eq:
  "linked (heap c) (x # ys @ [in_use_anchor c]) \<Longrightarrow> in_use_anchor c \<notin> set ys \<Longrightarrow>
   TerminateExecution_loop thread_id (Next x c) c = Some (c\<lparr>heap := flagged thread_id ys (heap c)\<rparr>)"
proof (induction ys arbitrary: x c)
  case Nil
  then have "Next x c = None" by (simp add: Next_def)
  moreover have "flagged thread_id [] (heap c) = heap c" by (simp add: flagged_def)
  ultimately show ?case by (simp add: TerminateExecution_loop.simps)
next
  case (Cons y ys)
  let ?c1 = "if thread_id = state_id (heap c y) then set_terminate_on_restore y True c else c"
  from Cons.prems have nx: "Next x c = Some y" by (auto simp: Next_def)
  have an: "in_use_anchor ?c1 = in_use_anchor c" by (simp add: set_terminate_on_restore_def)
  have "linked (heap ?c1) (y # ys @ [in_use_anchor c]) = linked (heap c) (y # ys @ [in_use_anchor c])"
    by (rule linked_cong) (auto simp: set_terminate_on_restore_def)
  then have l1: "linked (heap ?c1) (y # ys @ [in_use_anchor ?c1])" using Cons.prems an by simp
  have "TerminateExecution_loop thread_id (Next y ?c1) ?c1 =
        Some (?c1\<lparr>heap := flagged thread_id ys (heap ?c1)\<rparr>)"
    using Cons.IH[OF l1] Cons.prems an by simp
  moreover have "flagged thread_id ys (heap ?c1) = flagged thread_id (y # ys) (heap c)"
    by (rule ext) (auto simp: flagged_def set_terminate_on_restore_def)
  then have "?c1\<lparr>heap := flagged thread_id ys (heap ?c1)\<rparr> =
                 c\<lparr>heap := flagged thread_id (y # ys) (heap c)\<rparr>"
    by (simp add: set_terminate_on_restore_def)
  ultimately show ?case
    using nx by (subst TerminateExecution_loop.simps) (simp add: Let_def)
qed

lemma TerminateExecution_eq:
  assumes "dll (heap c) (in_use_anchor c) us"
  shows "TerminateExecution thread_id c = Some (c\<lparr>heap := flagged thread_id us (heap c)\<rparr>)"
  using assms TerminateExecution_loop_eq[of c "in_use_anchor c" us thread_id]
  by (simp add: TerminateExecution_def FirstInUse_def dll_def)

lemma inv_lists_cong:
  assumes "heap c' = heap c" "free_anchor c' = free_anchor c" "in_use_anchor c' = in_use_anchor c"
    "allocated c' = allocated c" "lazily_archived_thread c' = lazily_archived_thread c"
    "lazily_archived_thread_state c' = lazily_archived_thread_state c"
    "thread_state_key c' = thread_state_key c"
  shows "inv_lists c' fs us = inv_lists c fs us"
  unfolding inv_lists_def lazy_list_def assms ..

lemma inv_cong:
  assumes "heap c' = heap c" "free_anchor c' = free_anchor c" "in_use_anchor c' = in_use_anchor c"
    "allocated c' = allocated c" "lazily_archived_thread c' = lazily_archived_thread c"
    "lazily_archived_thread_state c' = lazily_archived_thread_state c"
    "thread_state_key c' = thread_state_key c"
  shows "consistent c' = consistent c"
  unfolding consistent_def inv_lists_cong[OF assms] ..

lemma inv_initial: "consistent (ThreadManagerData cfg)"
proof -
  have "inv_lists (ThreadManagerData cfg) [] []"
    unfolding inv_lists_def
    by (auto simp: ThreadManagerData_def empty_context_def new_ThreadState_def Let_def dll_def
        lazy_list_def Initialize_def)
  then show ?thesis unfolding consistent_def by blast
qed

lemma inv_emit [simp]: "consistent (emit e c) = consistent c"
  by (rule inv_cong) (simp_all add: emit_def)

lemma inv_Lock: "ThreadManager_Lock cfg t c = Inr c' \<Longrightarrow> consistent c' = consistent c"
  by (rule inv_cong)
     (auto simp: ThreadManager_Lock_def Mutex_Lock_def record_owner_def Let_def split: if_splits)

lemma inv_Unlock [simp]: "consistent (ThreadManager_Unlock t c) = consistent c"
  by (rule inv_cong) (simp_all add: ThreadManager_Unlock_def Mutex_Unlock_def clear_owner_def)

lemma inv_AssignId: "AssignId cfg t c = Inr c' \<Longrightarrow> consistent c' = consistent c"
  by (rule inv_cong) (auto simp: AssignId_def emit_def Let_def split: if_splits)

lemma inv_FreeThreadResources [simp]: "consistent (FreeThreadResources cfg c) = consistent c"
  by (rule inv_cong)
     (simp_all add: FreeThreadResources_def RegExpStack_FreeThreadResources_def
        ThreadLocal_Free_def emit_def Let_def)

lemma inv_V8_Initialize_call [simp]: "consistent (V8_Initialize_call c) = consistent c"
  by (rule inv_cong) (simp_all add: V8_Initialize_call_def emit_def)

lemma inv_ArchiveThread:
  assumes "consistent c" and "ArchiveThread (checked cfg) t c = Inr c'"
  shows "consistent c'"
proof -
  from assms(1) obtain fs us where i: "inv_lists c fs us" unfolding consistent_def by blast
  have "lazily_archived_thread c = None"
    using ArchiveThread_checked(1)[OF assms(2)] by (simp add: checked_def)
  from inv_archive[OF i this, of "checked cfg" t] ArchiveThread_Inr[OF assms(2)]
  show ?thesis unfolding consistent_def by blast
qed

lemma inv_EagerlyArchiveThread:
  assumes "consistent c" and "EagerlyArchiveThread cfg c = Inr c'"
  shows "consistent c'"
proof -
  from assms(1) obtain fs us where i: "inv_lists c fs us" unfolding consistent_def by blast
  from assms(2) obtain a where "lazily_archived_thread_state c = Some a"
    by (cases "lazily_archived_thread_state c") (auto simp: EagerlyArchiveThread_def)
  from inv_eager[OF i this assms(2)] show ?thesis unfolding consistent_def by blast
qed

lemma inv_RestoreThread:
  assumes "consistent c" and "RestoreThread cfg t c = Inr (b, c')"
  shows "consistent c'"
proof -
  from assms(1) obtain fs us where i: "inv_lists c fs us" unfolding consistent_def by blast
  have rest: "consistent c'" if l: "lazily_archived_thread d = None" and i: "consistent d"
    and r: "RestoreThread cfg t d = Inr (b, c')" for d
  proof -
    from i obtain fs us where i: "inv_lists d fs us" unfolding consistent_def by blast
    show ?thesis
    proof (cases "thread_state_key d t")
      case None
      from inv_restore_new[OF i l None r] show ?thesis unfolding consistent_def by blast
    next
      case (Some a)
      from inv_restore_archived[OF i l Some r] show ?thesis unfolding consistent_def by blast
    qed
  qed
  show ?thesis
  proof (cases "lazily_archived_thread c")
    case None
    from rest[OF None assms] show ?thesis .
  next
    case (Some u)
    show ?thesis
    proof (cases "u = t")
      case True
      from inv_restore_lazy[OF i _ assms(2)] Some True show ?thesis unfolding consistent_def by blast
    next
      case False
      from assms(2) obtain c1 where e: "EagerlyArchiveThread cfg c = Inr c1"
        and r: "RestoreThread cfg t c1 = Inr (b, c')"
        unfolding RestoreThread_forces_eager[OF Some False] by (auto split: sum.splits)
      have i1: "consistent c1" using inv_EagerlyArchiveThread[OF assms(1) e] .
      from e have "lazily_archived_thread c1 = None"
        by (auto simp: EagerlyArchiveThread_def Let_def split_def Initialize_def split: option.splits)
      from rest[OF this i1 r] show ?thesis .
    qed
  qed
qed

lemma inv_TerminateExecution:
  assumes "consistent c" and "TerminateExecution thread_id c = Some c'"
  shows "consistent c'"
proof -
  from assms(1) obtain fs us where i: "inv_lists c fs us" unfolding consistent_def by blast
  note D = inv_listsD[OF i]
  from assms(2) have c': "c' = c\<lparr>heap := flagged thread_id us (heap c)\<rparr>"
    unfolding TerminateExecution_eq[OF D(2)] by simp
  have "\<And>anchor xs. dll (flagged thread_id us (heap c)) anchor xs = dll (heap c) anchor xs"
    by (rule dll_same_links) (auto simp: flagged_def)
  then have "inv_lists c' fs us"
    using i unfolding inv_lists_def c' lazy_list_def by simp
  then show ?thesis unfolding consistent_def by blast
qed

lemma inv_active [simp]: "consistent (c\<lparr>active := v\<rparr>) = consistent c"
  by (rule inv_cong) simp_all

lemma inv_Locker_ctor:
  assumes "consistent c" and "Locker_ctor cfg t c = Inr (l, c')"
  shows "consistent c'"
proof (cases "IsLockedByCurrentThread t (c\<lparr>active := True\<rparr>)")
  case True
  with assms(2) have "AssignId cfg t (c\<lparr>active := True\<rparr>) = Inr c'"
    by (auto simp: Locker_ctor_def Let_def split: if_splits sum.splits)
  from inv_AssignId[OF this] assms(1) show ?thesis by simp
next
  case False
  with assms(2) obtain c1 b c3 c4 where
    1: "ThreadManager_Lock cfg t (c\<lparr>active := True\<rparr>) = Inr c1" and
    2: "RestoreThread cfg t (if \<not> running c1 then V8_Initialize_call c1 else c1) = Inr (b, c3)" and
    3: "c4 = (if b then c3 else emit StackGuard_InitThread (emit StackGuard_ClearThread c3))" and
    4: "AssignId cfg t c4 = Inr c'"
    by (auto simp: Locker_ctor_def Let_def split: if_splits sum.splits prod.splits)
  have "consistent c1" using inv_Lock[OF 1] assms(1) by simp
  then have "consistent (if \<not> running c1 then V8_Initialize_call c1 else c1)" by simp
  from inv_RestoreThread[OF this 2] have "consistent c4" unfolding 3 by simp
  then show ?thesis using inv_AssignId[OF 4] by simp
qed

lemma inv_Locker_dtor:
  assumes "consistent c" and "Locker_dtor (checked cfg) t l c = Inr c'"
  shows "consistent c'"
  using assms inv_ArchiveThread[of c cfg t]
  by (auto simp: Locker_dtor_def split: if_splits sum.splits)

lemma inv_Unlocker_ctor:
  assumes "consistent c" and "Unlocker_ctor (checked cfg) t c = Inr c'"
  shows "consistent c'"
  using assms inv_ArchiveThread[of c cfg t]
  by (auto simp: Unlocker_ctor_def split: if_splits sum.splits)

lemma inv_Unlocker_dtor:
  assumes "consistent c" and "Unlocker_dtor cfg t c = Inr c'"
  shows "consistent c'"
proof -
  from assms(2) obtain c1 b where 1: "ThreadManager_Lock cfg t c = Inr c1"
    and 2: "RestoreThread cfg t c1 = Inr (b, c')"
    by (auto simp: Unlocker_dtor_def split: if_splits sum.splits prod.splits)
  have "consistent c1" using inv_Lock[OF 1] assms(1) by simp
  from inv_RestoreThread[OF this 2] show ?thesis .
qed

lemma reachable_inv: "reachable cfg c \<Longrightarrow> consistent c"
proof (induction rule: reachable.induct)
  case initial
  show ?case by (rule inv_initial)
next
  case (Lock c t c')
  then show ?case using inv_Lock by blast
next
  case (Unlock c t)
  then show ?case by simp
next
  case (AssignId c t c')
  then show ?case using inv_AssignId by blast
next
  case (ArchiveThread c t c')
  then show ?case using inv_ArchiveThread by blast
next
  case (EagerlyArchiveThread c c')
  then show ?case using inv_EagerlyArchiveThread by blast
next
  case (RestoreThread c t b c')
  then show ?case using inv_RestoreThread by blast
next
  case (FreeThreadResources c)
  then show ?case by simp
next
  case (TerminateExecution c thread_id c')
  then show ?case using inv_TerminateExecution by blast
next
  case (Locker_ctor c t l c')
  then show ?case using inv_Locker_ctor by blast
next
  case (Locker_dtor c t l c')
  then show ?case using inv_Locker_dtor by blast
next
  case (Unlocker_ctor c t c')
  then show ?case using inv_Unlocker_ctor by blast
next
  case (Unlocker_dtor c t c')
  then show ?case using inv_Unlocker_dtor by blast
qed

lemma inv_lists_walk:
  assumes "inv_lists c fs us"
  shows "free_list c = Some fs" and "in_use_list c = Some us"
proof -
  note D = inv_listsD[OF assms]
  have sub: "set (free_anchor c # in_use_anchor c # fs @ us @ lazy_list c) \<subseteq> {..<allocated c}"
    using D(4) by simp
  have "length (free_anchor c # in_use_anchor c # fs @ us @ lazy_list c) \<le> allocated c"
    using D(3,4) distinct_card[OF D(3)] by simp
  then have lf: "length fs < allocated c" and lu: "length us < allocated c" by simp_all
  from D(1) have "linked (heap c) (free_anchor c # fs @ [free_anchor c])" "free_anchor c \<notin> set fs"
    by (auto simp: dll_def)
  from walk_linked[OF this lf] show "free_list c = Some fs"
    by (simp add: free_list_def list_of_def)
  from D(2) have "linked (heap c) (in_use_anchor c # us @ [in_use_anchor c])" "in_use_anchor c \<notin> set us"
    by (auto simp: dll_def)
  from walk_linked[OF this lu] show "in_use_list c = Some us"
    by (simp add: in_use_list_def list_of_def)
qed

subsection \<open>Thread ids\<close>

lemma AssignId_has_id: "HasId self c \<Longrightarrow> AssignId cfg self c = Inr c"
  by (simp add: AssignId_def)

lemma AssignId_fresh:
  assumes "\<not> HasId self c" and "IsLocked self c" and "0 <s last_id c + 1"
  shows "AssignId cfg self c =
     Inr (c\<lparr>last_id := last_id c + 1,
            thread_id_key := (thread_id_key c)(self := last_id c + 1),
            trace := trace c @ [Top_set_thread_id (last_id c + 1)]\<rparr>)"
  using assms by (simp add: AssignId_def failed_def Let_def emit_def)



subsection \<open>The example run\<close>

lemma ThreadManagerData_eq:
  "ThreadManagerData cfg =
     (empty_context cfg)\<lparr>free_anchor := 0, in_use_anchor := 1, allocated := 2\<rparr>"
  by (simp add: ThreadManagerData_def empty_context_def new_ThreadState_def Let_def fun_eq_iff)

lemma after_Locker_eq:
  "Locker_ctor example_config 101 (ThreadManagerData example_config) =
     Inr (\<lparr>has_lock = True, top_level = True\<rparr>,
          (ThreadManagerData example_config)
            \<lparr>active := True, mutex := Some 101, mutex_owner := Some 101, running := True,
             last_id := 1, thread_id_key := (\<lambda>_. 0)(101 := 1),
             trace := [V8_Initialize, StackGuard_InitThread, StackGuard_ClearThread,
                       StackGuard_InitThread, Top_set_thread_id 1]\<rparr>)"
  by (simp add: Locker_ctor_def ThreadManagerData_eq empty_context_def
      Let_def IsLockedByCurrentThread_def IsSelf_def Initialize_def ThreadManager_Lock_def
      Mutex_Lock_def record_owner_def failed_def V8_Initialize_call_def emit_def
      RestoreThread_def IsValid_def AssignId_def HasId_def IsLocked_def example_config_def
      word_sless_alt)

lemma after_Locker_simp:
  "after_Locker =
     (ThreadManagerData example_config)
       \<lparr>active := True, mutex := Some 101, mutex_owner := Some 101, running := True,
        last_id := 1, thread_id_key := (\<lambda>_. 0)(101 := 1),
        trace := [V8_Initialize, StackGuard_InitThread, StackGuard_ClearThread,
                  StackGuard_InitThread, Top_set_thread_id 1]\<rparr>"
  by (simp add: after_Locker_def after_Locker_eq)

lemma reachable_after_Locker: "reachable example_config after_Locker"
proof -
  have "checked example_config = example_config" by (simp add: checked_def example_config_def)
  then have "Locker_ctor (checked example_config) 101 (ThreadManagerData example_config) =
      Inr (\<lparr>has_lock = True, top_level = True\<rparr>, after_Locker)"
    by (simp add: after_Locker_eq after_Locker_simp)
  from reachable.Locker_ctor[OF reachable.initial this] show ?thesis .
qed

lemma Unlocker_ctor_example:
  "Unlocker_ctor example_config 101 after_Locker =
     Inr (after_Locker
            \<lparr>heap := (heap after_Locker)(2 :=
                 \<lparr>state_id = 1, terminate_on_restore = False, data = [0, 0, 0, 0, 0, 0, 0],
                  next_state = 2, previous_state = 2\<rparr>),
              allocated := 3,
              thread_state_key := (\<lambda>_. None)(101 := Some 2),
              lazily_archived_thread := Some 101,
              lazily_archived_thread_state := Some 2,
              mutex := None, mutex_owner := None\<rparr>)"
  by (simp add: after_Locker_simp Unlocker_ctor_def ThreadManagerData_eq empty_context_def
      IsLockedByCurrentThread_def IsSelf_def failed_def ArchiveThread_def IsValid_def
      IsArchived_def GetFree_def new_ThreadState_def AllocateSpace_def NewArray_def
      map_replicate_const Unlink_def
      set_previous_def set_next_def set_id_def CurrentId_def Initialize_def Let_def
      ThreadManager_Unlock_def Mutex_Unlock_def clear_owner_def example_config_def
      ArchiveSpacePerThread_def)


lemma after_Unlocker_simp:
  "after_Unlocker =
     after_Locker
            \<lparr>heap := (heap after_Locker)(2 :=
                 \<lparr>state_id = 1, terminate_on_restore = False, data = [0, 0, 0, 0, 0, 0, 0],
                  next_state = 2, previous_state = 2\<rparr>),
              allocated := 3,
              thread_state_key := (\<lambda>_. None)(101 := Some 2),
              lazily_archived_thread := Some 101,
              lazily_archived_thread_state := Some 2,
              mutex := None, mutex_owner := None\<rparr>"
  unfolding after_Unlocker_def Unlocker_ctor_example by simp

lemma reachable_after_Unlocker: "reachable example_config after_Unlocker"
proof -
  have "checked example_config = example_config" by (simp add: checked_def example_config_def)
  then have "Unlocker_ctor (checked example_config) 101 after_Locker = Inr after_Unlocker"
    by (simp add: after_Unlocker_def Unlocker_ctor_example)
  from reachable.Unlocker_ctor[OF reachable_after_Locker this] show ?thesis .
qed

subsection \<open>Nested lockers\<close>

lemma nested_Locker_eq:
  assumes "IsLockedByCurrentThread self c"
  shows "Locker_ctor cfg self c =
     (case AssignId cfg self (c\<lparr>active := True\<rparr>) of
        Inl e \<Rightarrow> Inl e
      | Inr c' \<Rightarrow> Inr (\<lparr>has_lock = False, top_level = True\<rparr>, c'))"
  using assms
  by (simp add: Locker_ctor_def Let_def IsLockedByCurrentThread_def failed_def)

text \<open>
  Claim C5 says that a nested \<^verbatim>\<open>Locker\<close> is marked non-top-level. In the example thread
  101 holds the lock and constructs a second \<^verbatim>\<open>Locker\<close>: its \<open>top_level\<close> is true.
\<close>
theorem nested_Locker_counterexample:
  "IsLockedByCurrentThread 101 after_Locker \<and>
   Locker_ctor example_config 101 after_Locker =
     Inr (\<lparr>has_lock = False, top_level = True\<rparr>, after_Locker)"
proof -
  have l: "IsLockedByCurrentThread 101 after_Locker"
    by (simp add: after_Locker_simp IsLockedByCurrentThread_def IsSelf_def)
  have "AssignId example_config 101 (after_Locker\<lparr>active := True\<rparr>) = Inr after_Locker"
    by (simp add: after_Locker_simp AssignId_def HasId_def)
  with l show ?thesis by (simp add: nested_Locker_eq)
qed

text \<open>
  Claim C5, amended. A \<^verbatim>\<open>Locker\<close> constructed by a thread that already holds the lock
  has \<open>has_lock\<close> false and keeps \<open>top_level\<close> at its initial value true. The constructor
  only sets \<open>active\<close> and assigns an id if the thread has none: no restore, no stack guard
  initialisation, nothing archived, the lock untouched. Its destructor changes nothing.
\<close>
theorem nested_Locker:
  assumes "IsLockedByCurrentThread self c" and "Locker_ctor cfg self c = Inr (l, c')"
  shows "\<not> has_lock l \<and> top_level l \<and>
         AssignId cfg self (c\<lparr>active := True\<rparr>) = Inr c' \<and>
         trace c' = trace c @ (if HasId self c then [] else [Top_set_thread_id (last_id c + 1)]) \<and>
         heap c' = heap c \<and> thread_state_key c' = thread_state_key c \<and>
         lazily_archived_thread c' = lazily_archived_thread c \<and>
         lazily_archived_thread_state c' = lazily_archived_thread_state c \<and>
         live c' = live c \<and> thread_local c' = thread_local c \<and>
         mutex c' = mutex c \<and> mutex_owner c' = mutex_owner c \<and>
         Locker_dtor cfg self l c' = Inr c'"
proof -
  from assms have a: "AssignId cfg self (c\<lparr>active := True\<rparr>) = Inr c'"
    and l: "l = \<lparr>has_lock = False, top_level = True\<rparr>"
    by (auto simp: nested_Locker_eq split: sum.splits)
  from a have c': "c' = (if HasId self c then c\<lparr>active := True\<rparr>
       else c\<lparr>active := True, last_id := last_id c + 1,
              thread_id_key := (thread_id_key c)(self := last_id c + 1),
              trace := trace c @ [Top_set_thread_id (last_id c + 1)]\<rparr>)"
    by (auto simp: AssignId_def HasId_def Let_def emit_def split: if_splits)
  have "Locker_dtor cfg self l c' = Inr c'"
    using assms(1) unfolding l c'
    by (simp add: Locker_dtor_def failed_def IsLockedByCurrentThread_def)
  with a l show ?thesis unfolding c' by simp
qed

text \<open>
  The amended claim at the example: thread 101, holding the lock, constructs a nested
  \<^verbatim>\<open>Locker\<close>.
\<close>
theorem nested_Locker_witness:
  "IsLockedByCurrentThread 101 after_Locker \<and>
   Locker_ctor example_config 101 after_Locker =
     Inr (\<lparr>has_lock = False, top_level = True\<rparr>, after_Locker) \<and>
   trace after_Locker = trace after_Locker @ [] \<and>
   Locker_dtor example_config 101 \<lparr>has_lock = False, top_level = True\<rparr> after_Locker = Inr after_Locker"
proof -
  have l: "IsLockedByCurrentThread 101 after_Locker"
    by (simp add: after_Locker_simp IsLockedByCurrentThread_def IsSelf_def)
  have "AssignId example_config 101 (after_Locker\<lparr>active := True\<rparr>) = Inr after_Locker"
    by (simp add: after_Locker_simp AssignId_def HasId_def)
  with l have r: "Locker_ctor example_config 101 after_Locker =
     Inr (\<lparr>has_lock = False, top_level = True\<rparr>, after_Locker)"
    by (simp add: nested_Locker_eq)
  from nested_Locker[OF l r] l r show ?thesis by simp
qed

subsection \<open>The constructor of Unlocker\<close>

lemma Unlock_fields [simp]:
  "trace (ThreadManager_Unlock t c) = trace c"
  "heap (ThreadManager_Unlock t c) = heap c"
  "live (ThreadManager_Unlock t c) = live c"
  "thread_local (ThreadManager_Unlock t c) = thread_local c"
  "thread_state_key (ThreadManager_Unlock t c) = thread_state_key c"
  "lazily_archived_thread (ThreadManager_Unlock t c) = lazily_archived_thread c"
  "lazily_archived_thread_state (ThreadManager_Unlock t c) = lazily_archived_thread_state c"
  "mutex_owner (ThreadManager_Unlock t c) = None"
  "mutex (ThreadManager_Unlock t c) = (if mutex c = Some t then None else mutex c)"
  by (simp_all add: ThreadManager_Unlock_def Mutex_Unlock_def clear_owner_def Initialize_def)

lemma archive_result_fields:
  "trace (archive_result cfg self c) = trace c"
  "live (archive_result cfg self c) = live c"
  "thread_local (archive_result cfg self c) = thread_local c"
  "mutex (archive_result cfg self c) = mutex c"
  "mutex_owner (archive_result cfg self c) = mutex_owner c"
  "lazily_archived_thread (archive_result cfg self c) = Some self"
  "lazily_archived_thread_state (archive_result cfg self c) =
     Some (if next_state (heap c (free_anchor c)) = free_anchor c then allocated c
           else next_state (heap c (free_anchor c)))"
  "thread_state_key (archive_result cfg self c) self =
     lazily_archived_thread_state (archive_result cfg self c)"
  "free_anchor (archive_result cfg self c) = free_anchor c"
  "in_use_anchor (archive_result cfg self c) = in_use_anchor c"
  by (simp_all add: archive_result_def Let_def)

lemma archive_result_state:
  assumes "lazily_archived_thread_state (archive_result cfg self c) = Some a"
  shows "state_id (heap (archive_result cfg self c) a) = CurrentId self c"
    and "next_state (heap c (free_anchor c)) \<noteq> free_anchor c \<Longrightarrow>
           data (heap (archive_result cfg self c) a) = data (heap c a)"
    and "next_state (heap c (free_anchor c)) = free_anchor c \<Longrightarrow>
           data (heap (archive_result cfg self c) a) = NewArray cfg a (ArchiveSpacePerThread cfg)"
  using assms by (auto simp: archive_result_def Let_def split: if_splits)

lemma after_Unlocker_lists:
  "free_list after_Unlocker = Some []" "in_use_list after_Unlocker = Some []"
  by (simp_all add: free_list_def in_use_list_def list_of_def after_Unlocker_simp
      after_Locker_simp ThreadManagerData_eq empty_context_def numeral_3_eq_3)

text \<open>
  Claim C3 says that the constructor of \<^verbatim>\<open>Unlocker\<close> runs every subsystem's archive
  function before it returns. In the example no archive call is in the trace after the
  constructor, the buffer of the state it took is still as allocated, and the in-use list
  is empty.
\<close>
theorem Unlocker_ctor_counterexample:
  "IsLockedByCurrentThread 101 after_Locker \<and>
   Unlocker_ctor example_config 101 after_Locker = Inr after_Unlocker \<and>
   trace after_Unlocker =
     [V8_Initialize, StackGuard_InitThread, StackGuard_ClearThread, StackGuard_InitThread,
      Top_set_thread_id 1] \<and>
   lazily_archived_thread_state after_Unlocker = Some 2 \<and>
   data (heap after_Unlocker 2) = [0, 0, 0, 0, 0, 0, 0] \<and>
   in_use_list after_Unlocker = Some []"
proof -
  have "IsLockedByCurrentThread 101 after_Locker"
    by (simp add: after_Locker_simp IsLockedByCurrentThread_def IsSelf_def)
  moreover have "Unlocker_ctor example_config 101 after_Locker = Inr after_Unlocker"
    by (simp add: after_Unlocker_def Unlocker_ctor_example)
  moreover have "trace after_Unlocker =
     [V8_Initialize, StackGuard_InitThread, StackGuard_ClearThread, StackGuard_InitThread,
      Top_set_thread_id 1]"
    "lazily_archived_thread_state after_Unlocker = Some 2"
    "data (heap after_Unlocker 2) = [0, 0, 0, 0, 0, 0, 0]"
    by (simp_all add: after_Unlocker_simp after_Locker_simp)
  ultimately show ?thesis using after_Unlocker_lists(2) by simp
qed

text \<open>
  Claim C3, amended. With the lock held, the constructor of \<^verbatim>\<open>Unlocker\<close> archives
  lazily: it is \<^verbatim>\<open>ArchiveThread\<close> followed by \<^verbatim>\<open>Unlock\<close>. The thread becomes the pending
  lazy candidate, a thread state stamped with its id is stored under its key, no call
  leaves the thread manager (the trace and the live state are unchanged), and afterwards
  no thread holds the lock.
\<close>
theorem Unlocker_ctor_lazy:
  assumes "IsLockedByCurrentThread self c" and "Unlocker_ctor cfg self c = Inr c'"
  shows "c' = ThreadManager_Unlock self (archive_result cfg self c) \<and>
         trace c' = trace c \<and> live c' = live c \<and> thread_local c' = thread_local c \<and>
         lazily_archived_thread c' = Some self \<and>
         (\<exists>a. lazily_archived_thread_state c' = Some a \<and> thread_state_key c' self = Some a \<and>
              state_id (heap c' a) = CurrentId self c) \<and>
         (\<forall>t. \<not> IsLockedByCurrentThread t c') \<and>
         (mutex c = Some self \<longrightarrow> mutex c' = None)"
proof -
  from assms(2) obtain c1 where a: "ArchiveThread cfg self c = Inr c1"
    and c': "c' = ThreadManager_Unlock self c1"
    by (auto simp: Unlocker_ctor_def split: if_splits sum.splits)
  note c1 = ArchiveThread_Inr[OF a]
  obtain s where s: "lazily_archived_thread_state (archive_result cfg self c) = Some s"
    by (simp add: archive_result_fields)
  show ?thesis
    unfolding c' c1 using s archive_result_state(1)[OF s]
    by (simp add: archive_result_fields IsLockedByCurrentThread_def IsSelf_def)
qed

text \<open>
  The amended claim at the example: thread 101 constructs an \<^verbatim>\<open>Unlocker\<close>.
\<close>
theorem Unlocker_ctor_lazy_witness:
  "IsLockedByCurrentThread 101 after_Locker \<and>
   Unlocker_ctor example_config 101 after_Locker = Inr after_Unlocker \<and>
   trace after_Unlocker = trace after_Locker \<and>
   lazily_archived_thread after_Unlocker = Some 101 \<and>
   \<not> IsLockedByCurrentThread 101 after_Unlocker"
proof -
  have l: "IsLockedByCurrentThread 101 after_Locker"
    by (simp add: after_Locker_simp IsLockedByCurrentThread_def IsSelf_def)
  have r: "Unlocker_ctor example_config 101 after_Locker = Inr after_Unlocker"
    by (simp add: after_Unlocker_def Unlocker_ctor_example)
  from Unlocker_ctor_lazy[OF l r] l r show ?thesis by blast
qed

subsection \<open>The lists of a reachable context\<close>

lemma reachable_lists:
  assumes "reachable cfg c"
  obtains fs us where "inv_lists c fs us" "free_list c = Some fs" "in_use_list c = Some us"
  using reachable_inv[OF assms] inv_lists_walk unfolding consistent_def by blast

subsection \<open>Lazy archiving and list membership\<close>

text \<open>
  Claim C2. When no other thread is lazily archived and thread \<open>T\<close> calls
  \<^verbatim>\<open>ArchiveThread\<close> and then \<^verbatim>\<open>RestoreThread\<close>, the restore returns true, no call leaves
  the thread manager in either step (the trace, and with it the live state, is
  unchanged), and the state taken by the archive is the head of the free list again, with
  its id invalid and its buffer as it was: the free list is as before when it was not
  empty, and otherwise holds the newly allocated state.
\<close>
theorem lazy_archive_elision:
  assumes "reachable cfg c" and "lazily_archived_thread c = None"
    and "ArchiveThread cfg T c = Inr c1"
  shows "\<exists>a fs c2.
     lazily_archived_thread_state c1 = Some a \<and> lazily_archived_thread c1 = Some T \<and>
     RestoreThread cfg T c1 = Inr (True, c2) \<and>
     trace c1 = trace c \<and> trace c2 = trace c \<and>
     live c2 = live c \<and> thread_local c2 = thread_local c \<and>
     free_list c = Some fs \<and> free_list c2 = Some (a # tl fs) \<and> (fs \<noteq> [] \<longrightarrow> a = hd fs) \<and>
     in_use_list c2 = in_use_list c \<and>
     state_id (heap c2 a) = kInvalidId cfg \<and>
     data (heap c2 a) = data (heap c1 a) \<and>
     (fs \<noteq> [] \<longrightarrow> data (heap c2 a) = data (heap c a)) \<and>
     thread_state_key c2 T = None \<and>
     lazily_archived_thread c2 = None \<and> lazily_archived_thread_state c2 = None"
proof -
  from assms(1) obtain fs us where i: "inv_lists c fs us" and f: "free_list c = Some fs"
    and u: "in_use_list c = Some us"
    by (rule reachable_lists)
  note c1 = ArchiveThread_Inr[OF assms(3)]
  have i1: "inv_lists c1 (tl fs) us" unfolding c1 by (rule inv_archive[OF i assms(2)])
  obtain a where ls: "lazily_archived_thread_state c1 = Some a"
    unfolding c1 by (simp add: archive_result_fields)
  have lt: "lazily_archived_thread c1 = Some T" unfolding c1 by (simp add: archive_result_fields)
  have k: "thread_state_key c1 T = Some a"
    using ls unfolding c1 by (simp add: archive_result_fields)
  note r = RestoreThread_lazy_eq[OF lt ls k, of cfg]
  obtain c2 where c2: "RestoreThread cfg T c1 = Inr (True, c2)" using r by blast
  from inv_restore_lazy[OF i1 lt c2] ls have i2: "inv_lists c2 (a # tl fs) us" by simp
  have hd: "fs \<noteq> [] \<Longrightarrow> a = hd fs"
    using ls dll_head[OF inv_listsD(1)[OF i]] dll_head_anchor[OF inv_listsD(1)[OF i]]
    unfolding c1 by (cases fs) (simp_all add: archive_result_fields)
  have d1: "fs \<noteq> [] \<Longrightarrow> data (heap c1 a) = data (heap c a)"
    using archive_result_state(2)[of cfg T c a] ls dll_head_anchor[OF inv_listsD(1)[OF i]]
    unfolding c1 by simp
  have fld: "trace c1 = trace c" "live c1 = live c" "thread_local c1 = thread_local c"
    unfolding c1 by (simp_all add: archive_result_fields)
  have fld2: "trace c2 = trace c1" "live c2 = live c1" "thread_local c2 = thread_local c1"
    "state_id (heap c2 a) = kInvalidId cfg" "data (heap c2 a) = data (heap c1 a)"
    "thread_state_key c2 T = None"
    "lazily_archived_thread c2 = None" "lazily_archived_thread_state c2 = None"
    using c2 unfolding r by (auto simp: link_heap_def Let_def)
  show ?thesis
    using ls lt c2 fld fld2 f inv_lists_walk[OF i2] u hd d1 by auto
qed

text \<open>
  Claim C2 at the example: thread 101, holding the lock, archives and restores.
\<close>
theorem lazy_archive_elision_witness:
  "reachable example_config after_Locker \<and> lazily_archived_thread after_Locker = None \<and>
   (\<exists>c1 c2. ArchiveThread example_config 101 after_Locker = Inr c1 \<and>
      RestoreThread example_config 101 c1 = Inr (True, c2) \<and> trace c2 = trace after_Locker \<and>
      free_list c2 = Some [2])"
proof -
  have 1: "lazily_archived_thread after_Locker = None"
    by (simp add: after_Locker_simp ThreadManagerData_eq empty_context_def Initialize_def)
  have 2: "ArchiveThread example_config 101 after_Locker =
             Inr (archive_result example_config 101 after_Locker)"
    by (simp add: after_Locker_simp ThreadManagerData_eq empty_context_def
      failed_def ArchiveThread_def IsValid_def archive_result_def
      IsArchived_def GetFree_def new_ThreadState_def AllocateSpace_def NewArray_def
      map_replicate_const Unlink_def
      set_previous_def set_next_def set_id_def CurrentId_def Initialize_def Let_def
      example_config_def)
  have 3: "lazily_archived_thread_state (archive_result example_config 101 after_Locker) = Some 2"
    by (simp add: archive_result_fields after_Locker_simp ThreadManagerData_eq empty_context_def)
  have 4: "free_list after_Locker = Some []"
    by (simp add: free_list_def list_of_def after_Locker_simp ThreadManagerData_eq
        empty_context_def numeral_2_eq_2)
  from lazy_archive_elision[OF reachable_after_Locker 1 2] obtain a fs c2 where
    r: "lazily_archived_thread_state (archive_result example_config 101 after_Locker) = Some a"
      "RestoreThread example_config 101 (archive_result example_config 101 after_Locker) =
         Inr (True, c2)"
      "trace c2 = trace after_Locker" "free_list after_Locker = Some fs"
      "free_list c2 = Some (a # tl fs)"
    by blast
  from r(1,4) 3 4 have "a = 2" "fs = []" by simp_all
  with r(2,3,5) have "RestoreThread example_config 101
      (archive_result example_config 101 after_Locker) = Inr (True, c2) \<and>
      trace c2 = trace after_Locker \<and> free_list c2 = Some [2]" by simp
  with 1 2 reachable_after_Locker show ?thesis by blast
qed

text \<open>
  Claim C4 says that every thread state is in exactly one list at every reachable point,
  also between \<^verbatim>\<open>ArchiveThread\<close> and the next restore or eager archive. After the
  \<^verbatim>\<open>Unlocker\<close> of the example, state 2 is allocated, is no anchor, and both lists are
  empty.
\<close>
theorem in_exactly_one_list_counterexample:
  "reachable example_config after_Unlocker \<and> 2 < allocated after_Unlocker \<and>
   2 \<noteq> free_anchor after_Unlocker \<and> 2 \<noteq> in_use_anchor after_Unlocker \<and>
   free_list after_Unlocker = Some [] \<and> in_use_list after_Unlocker = Some [] \<and>
   lazily_archived_thread_state after_Unlocker = Some 2"
  using reachable_after_Unlocker after_Unlocker_lists
  by (simp add: after_Unlocker_simp after_Locker_simp ThreadManagerData_eq)

text \<open>
  Claim C4, amended. In every reachable context both lists are circular, doubly linked
  and anchored by their own anchor, which is never an entry; every entry is an allocated
  object; and every allocated object other than the anchors is in exactly one of the two
  lists, except the pending lazily archived state, which is in neither.
\<close>
theorem in_one_list_unless_lazy:
  assumes "reachable cfg c"
  shows "\<exists>fs us.
     free_list c = Some fs \<and> in_use_list c = Some us \<and>
     dll (heap c) (free_anchor c) fs \<and> dll (heap c) (in_use_anchor c) us \<and>
     free_anchor c \<noteq> in_use_anchor c \<and>
     free_anchor c \<notin> set fs \<union> set us \<and> in_use_anchor c \<notin> set fs \<union> set us \<and>
     (\<forall>a. a < allocated c \<longrightarrow> a \<noteq> free_anchor c \<longrightarrow> a \<noteq> in_use_anchor c \<longrightarrow>
        (if lazily_archived_thread_state c = Some a then a \<notin> set fs \<and> a \<notin> set us
         else (a \<in> set fs) \<noteq> (a \<in> set us))) \<and>
     (\<forall>a \<in> set fs \<union> set us. a < allocated c)"
proof -
  from assms obtain fs us where i: "inv_lists c fs us" and f: "free_list c = Some fs"
    and u: "in_use_list c = Some us"
    by (rule reachable_lists)
  note D = inv_listsD[OF i]
  have "a < allocated c \<Longrightarrow> a \<noteq> free_anchor c \<Longrightarrow> a \<noteq> in_use_anchor c \<Longrightarrow>
        (if lazily_archived_thread_state c = Some a then a \<notin> set fs \<and> a \<notin> set us
         else (a \<in> set fs) \<noteq> (a \<in> set us))" for a
  proof -
    assume "a < allocated c" "a \<noteq> free_anchor c" "a \<noteq> in_use_anchor c"
    then have "a \<in> set (fs @ us @ lazy_list c)" using D(4) by auto
    then show ?thesis using D(3) by (auto simp: lazy_list_def split: option.splits)
  qed
  then have 1: "\<forall>a. a < allocated c \<longrightarrow> a \<noteq> free_anchor c \<longrightarrow> a \<noteq> in_use_anchor c \<longrightarrow>
        (if lazily_archived_thread_state c = Some a then a \<notin> set fs \<and> a \<notin> set us
         else (a \<in> set fs) \<noteq> (a \<in> set us))" by blast
  have 2: "\<forall>a \<in> set fs \<union> set us. a < allocated c" using D(4) by auto
  have 3: "free_anchor c \<noteq> in_use_anchor c" "free_anchor c \<notin> set fs \<union> set us"
    "in_use_anchor c \<notin> set fs \<union> set us"
    using D(3) by auto
  show ?thesis
    apply (rule exI[of _ fs], rule exI[of _ us])
    using f u D(1,2) 1 2 3 apply (intro conjI)
            apply assumption+
    done
qed

text \<open>
  The amended claim at the example, after the \<^verbatim>\<open>Unlocker\<close>.
\<close>
theorem in_one_list_unless_lazy_witness:
  "reachable example_config after_Unlocker \<and>
   free_list after_Unlocker = Some [] \<and> in_use_list after_Unlocker = Some [] \<and>
   dll (heap after_Unlocker) (free_anchor after_Unlocker) [] \<and>
   dll (heap after_Unlocker) (in_use_anchor after_Unlocker) [] \<and>
   (2::nat) < allocated after_Unlocker \<and>
   lazily_archived_thread_state after_Unlocker = Some 2"
proof -
  from in_one_list_unless_lazy[OF reachable_after_Unlocker] obtain fs us where
    f: "free_list after_Unlocker = Some fs" and u: "in_use_list after_Unlocker = Some us" and
    d: "dll (heap after_Unlocker) (free_anchor after_Unlocker) fs"
       "dll (heap after_Unlocker) (in_use_anchor after_Unlocker) us"
    by blast
  have e: "fs = []" "us = []" using f u after_Unlocker_lists by simp_all
  have "(2::nat) < allocated after_Unlocker"
    "lazily_archived_thread_state after_Unlocker = Some 2"
    by (simp_all add: after_Unlocker_simp)
  with d e after_Unlocker_lists reachable_after_Unlocker show ?thesis by simp
qed

subsection \<open>Restoring an archived state\<close>

lemma count_Archive [simp]: "count_list (map Archive xs) StackGuard_TerminateExecution = 0"
  by (induction xs) auto

lemma count_Restore [simp]: "count_list (map Restore xs) StackGuard_TerminateExecution = 0"
  by (induction xs) auto

lemma restore_archived_facts:
  assumes i: "inv_lists c fs us" and lt: "lazily_archived_thread c = None"
    and k: "thread_state_key c T = Some a"
  shows "\<exists>c'. RestoreThread cfg T c = Inr (True, c') \<and>
           termination_requests c' =
             termination_requests c + (if terminate_on_restore (heap c a) then 1 else 0) \<and>
           \<not> terminate_on_restore (heap c' a) \<and> state_id (heap c' a) = kInvalidId cfg \<and>
           free_list c' = Some (a # fs)"
proof -
  note r = RestoreThread_archived_eq[OF lt k, of cfg]
  obtain c' where c': "RestoreThread cfg T c = Inr (True, c')" using r by blast
  from inv_restore_archived[OF i lt k c'] have i': "inv_lists c' (a # fs) (remove1 a us)" by simp
  have "trace c' = trace c @ map Restore (registration_order cfg) @
                     (if terminate_on_restore (heap c a) then [StackGuard_TerminateExecution] else [])"
    and h: "heap c' = link_heap a (free_anchor c) (unlink_heap a
               ((heap c)(a := (heap c a)\<lparr>terminate_on_restore := False, state_id := kInvalidId cfg\<rparr>)))"
    using c' unfolding r by auto
  then have "termination_requests c' =
             termination_requests c + (if terminate_on_restore (heap c a) then 1 else 0)"
    by (simp add: termination_requests_def)
  moreover have "\<not> terminate_on_restore (heap c' a)" "state_id (heap c' a) = kInvalidId cfg"
    unfolding h by simp_all
  ultimately show ?thesis using c' inv_lists_walk(1)[OF i'] by blast
qed

lemma example_config_simps:
  "DEBUG example_config" "ENABLE_DEBUGGER_SUPPORT example_config"
  "kInvalidId example_config = 0" "checked example_config = example_config"
  by (simp_all add: example_config_def checked_def)

lemma Lock_example:
  "ThreadManager_Lock example_config 102 after_Unlocker =
     Inr (after_Unlocker\<lparr>mutex := Some 102, mutex_owner := Some 102\<rparr>)"
  by (simp add: ThreadManager_Lock_def Mutex_Lock_def record_owner_def Initialize_def
      failed_def IsLockedByCurrentThread_def IsSelf_def after_Unlocker_simp Let_def)

lemma second_Locker_example:
  "\<exists>c1. EagerlyArchiveThread example_config
            (after_Unlocker\<lparr>mutex := Some 102, mutex_owner := Some 102\<rparr>) = Inr c1 \<and>
        Locker_ctor example_config 102 after_Unlocker =
          Inr (\<lparr>has_lock = True, top_level = True\<rparr>,
               c1\<lparr>active := True, last_id := 2, thread_id_key := (\<lambda>_. 0)(101 := 1, 102 := 2),
                  trace := trace c1 @ [StackGuard_InitThread, StackGuard_ClearThread,
                           StackGuard_InitThread, Top_set_thread_id 2]\<rparr>)"
proof -
  let ?c0 = "after_Unlocker\<lparr>mutex := Some 102, mutex_owner := Some 102\<rparr>"
  have ls: "lazily_archived_thread_state ?c0 = Some 2" and lt: "lazily_archived_thread ?c0 = Some 101"
    by (simp_all add: after_Unlocker_simp)
  note e = EagerlyArchiveThread_eq[OF ls, of example_config]
  obtain c1 where c1: "EagerlyArchiveThread example_config ?c0 = Inr c1" using e by blast
  have f: "lazily_archived_thread c1 = None" "thread_state_key c1 102 = None"
    "running c1" "mutex_owner c1 = Some 102" "thread_id_key c1 = (\<lambda>_. 0)(101 := 1)"
    "last_id c1 = 1" "active c1"
    using c1 unfolding e by (auto simp: after_Unlocker_simp after_Locker_simp)
  have r: "RestoreThread example_config 102 ?c0 = Inr (False, emit StackGuard_InitThread c1)"
    using RestoreThread_forces_eager[OF lt, of 102 example_config] c1
      RestoreThread_new_eq[OF f(1,2), of example_config] by simp
  have "\<not> IsLockedByCurrentThread 102 (after_Unlocker\<lparr>active := True\<rparr>)"
    by (simp add: IsLockedByCurrentThread_def IsSelf_def after_Unlocker_simp)
  moreover have "after_Unlocker\<lparr>active := True\<rparr> = after_Unlocker"
    by (simp add: after_Unlocker_simp after_Locker_simp)
  moreover have "running ?c0" by (simp add: after_Unlocker_simp after_Locker_simp)
  ultimately have "Locker_ctor example_config 102 after_Unlocker =
          Inr (\<lparr>has_lock = True, top_level = True\<rparr>,
               c1\<lparr>active := True, last_id := 2, thread_id_key := (\<lambda>_. 0)(101 := 1, 102 := 2),
                  trace := trace c1 @ [StackGuard_InitThread, StackGuard_ClearThread,
                           StackGuard_InitThread, Top_set_thread_id 2]\<rparr>)"
    using f
    by (simp add: Locker_ctor_def Lock_example r Let_def emit_def AssignId_def HasId_def
        IsLocked_def IsLockedByCurrentThread_def IsSelf_def failed_def word_sless_alt
        example_config_simps)
  with c1 show ?thesis by blast
qed


lemma after_second_Locker_facts:
  shows "reachable example_config after_second_Locker"
    and "inv_lists after_second_Locker [] [2]"
    and "lazily_archived_thread after_second_Locker = None"
    and "thread_state_key after_second_Locker 101 = Some 2"
    and "state_id (heap after_second_Locker 2) = 1"
    and "\<not> terminate_on_restore (heap after_second_Locker 2)"
    and "termination_requests after_second_Locker = 0"
proof -
  let ?c0 = "after_Unlocker\<lparr>mutex := Some 102, mutex_owner := Some 102\<rparr>"
  from second_Locker_example obtain c1 where
    c1: "EagerlyArchiveThread example_config ?c0 = Inr c1" and
    l: "Locker_ctor example_config 102 after_Unlocker =
          Inr (\<lparr>has_lock = True, top_level = True\<rparr>,
               c1\<lparr>active := True, last_id := 2, thread_id_key := (\<lambda>_. 0)(101 := 1, 102 := 2),
                  trace := trace c1 @ [StackGuard_InitThread, StackGuard_ClearThread,
                           StackGuard_InitThread, Top_set_thread_id 2]\<rparr>)"
    by blast
  have s: "after_second_Locker =
             c1\<lparr>active := True, last_id := 2, thread_id_key := (\<lambda>_. 0)(101 := 1, 102 := 2),
                  trace := trace c1 @ [StackGuard_InitThread, StackGuard_ClearThread,
                           StackGuard_InitThread, Top_set_thread_id 2]\<rparr>"
    unfolding after_second_Locker_def l by simp
  show "reachable example_config after_second_Locker"
    using reachable.Locker_ctor[OF reachable_after_Unlocker, of 102 _ after_second_Locker] l
    unfolding s example_config_simps by blast
  from reachable_after_Unlocker obtain fs us where i: "inv_lists after_Unlocker fs us"
    and "free_list after_Unlocker = Some fs" "in_use_list after_Unlocker = Some us"
    by (rule reachable_lists)
  with after_Unlocker_lists have "fs = []" "us = []" by simp_all
  with i have "inv_lists after_Unlocker [] []" by simp
  moreover have "inv_lists ?c0 [] [] = inv_lists after_Unlocker [] []"
    by (rule inv_lists_cong) simp_all
  ultimately have i0: "inv_lists ?c0 [] []" by simp
  have ls: "lazily_archived_thread_state ?c0 = Some 2" by (simp add: after_Unlocker_simp)
  have i1: "inv_lists c1 [] [2]" by (rule inv_eager[OF i0 ls c1])
  have "inv_lists after_second_Locker [] [2] = inv_lists c1 [] [2]"
    unfolding s by (rule inv_lists_cong) simp_all
  with i1 show "inv_lists after_second_Locker [] [2]" by simp
  note e = EagerlyArchiveThread_eq[OF ls, of example_config]
  show "lazily_archived_thread after_second_Locker = None"
    "thread_state_key after_second_Locker 101 = Some 2"
    "state_id (heap after_second_Locker 2) = 1"
    "\<not> terminate_on_restore (heap after_second_Locker 2)"
    unfolding s using c1 unfolding e by (auto simp: after_Unlocker_simp)
  show "termination_requests after_second_Locker = 0"
    unfolding s termination_requests_def using c1 unfolding e
    by (auto simp: after_Unlocker_simp after_Locker_simp)
qed

lemma after_Terminate_eq:
  "TerminateExecution 1 after_second_Locker = Some after_Terminate"
  "after_Terminate =
     after_second_Locker\<lparr>heap := flagged 1 [2] (heap after_second_Locker)\<rparr>"
proof -
  have "TerminateExecution 1 after_second_Locker =
     Some (after_second_Locker\<lparr>heap := flagged 1 [2] (heap after_second_Locker)\<rparr>)"
    by (rule TerminateExecution_eq[OF inv_listsD(2)[OF after_second_Locker_facts(2)]])
  then show "TerminateExecution 1 after_second_Locker = Some after_Terminate"
    "after_Terminate =
     after_second_Locker\<lparr>heap := flagged 1 [2] (heap after_second_Locker)\<rparr>"
    by (simp_all add: after_Terminate_def)
qed

lemma after_Terminate_facts:
  shows "reachable example_config after_Terminate"
    and "lazily_archived_thread after_Terminate = None"
    and "thread_state_key after_Terminate 101 = Some 2"
    and "terminate_on_restore (heap after_Terminate 2)"
    and "termination_requests after_Terminate = 0"
    and "in_use_list after_Terminate = Some [2]"
    and "state_id (heap after_Terminate 2) = 1"
proof -
  show r: "reachable example_config after_Terminate"
    by (rule reachable.TerminateExecution[OF after_second_Locker_facts(1) after_Terminate_eq(1)])
  show "lazily_archived_thread after_Terminate = None"
    "thread_state_key after_Terminate 101 = Some 2"
    "terminate_on_restore (heap after_Terminate 2)"
    "termination_requests after_Terminate = 0"
    "state_id (heap after_Terminate 2) = 1"
    unfolding after_Terminate_eq(2) using after_second_Locker_facts(3-7)
    by (simp_all add: flagged_def termination_requests_def)
  have "\<And>anchor xs. dll (flagged 1 [2] (heap after_second_Locker)) anchor xs =
          dll (heap after_second_Locker) anchor xs"
    by (rule dll_same_links) (auto simp: flagged_def)
  then have "inv_lists after_Terminate [] [2]"
    using after_second_Locker_facts(2) unfolding inv_lists_def after_Terminate_eq(2) lazy_list_def
    by simp
  then show "in_use_list after_Terminate = Some [2]" by (rule inv_lists_walk(2))
qed

subsection \<open>The archive and restore round trip\<close>

lemma load_store_same:
  "off \<le> length buf \<Longrightarrow> load_bytes (store_bytes buf off bs) off (length bs) = bs"
  by (simp add: load_bytes_def store_bytes_def)

lemma load_store_before:
  "off + n \<le> off' \<Longrightarrow> off' \<le> length buf \<Longrightarrow>
   load_bytes (store_bytes buf off' bs) off n = load_bytes buf off n"
  by (simp add: load_bytes_def store_bytes_def take_drop min_def)

lemma length_store_bytes:
  "off + length bs \<le> length buf \<Longrightarrow> length (store_bytes buf off bs) = length buf"
  by (simp add: store_bytes_def)

lemma archive_image_before:
  assumes "o' + n \<le> off"
    and "off + sum_list (map (footprint cfg) subs) \<le> length buf"
    and "\<forall>sub \<in> set subs. length (live_bytes cfg c sub) = footprint cfg sub"
  shows "load_bytes (archive_image cfg c subs off buf) o' n = load_bytes buf o' n"
  using assms
proof (induction subs arbitrary: off buf)
  case Nil
  then show ?case by simp
next
  case (Cons sub subs)
  let ?buf = "store_bytes buf off (live_bytes cfg c sub)"
  have l: "length ?buf = length buf"
    using Cons.prems by (intro length_store_bytes) simp
  have "load_bytes (archive_image cfg c subs (off + footprint cfg sub) ?buf) o' n =
        load_bytes ?buf o' n"
    using Cons.prems l by (intro Cons.IH) auto
  also have "\<dots> = load_bytes buf o' n"
    using Cons.prems by (intro load_store_before) auto
  finally show ?case by simp
qed

lemma restore_archive_image:
  assumes "distinct subs"
    and "off + sum_list (map (footprint cfg) subs) \<le> length buf"
    and "\<forall>sub \<in> set subs. length (live_bytes cfg c sub) = footprint cfg sub"
  shows "restore_image cfg subs off (archive_image cfg c subs off buf) s =
     ((\<lambda>sub. if sub \<in> set subs \<and> sub \<noteq> RegExpStack then live_bytes cfg c sub else fst s sub),
      (if RegExpStack \<in> set subs then live_bytes cfg c RegExpStack else snd s))"
  using assms
proof (induction subs arbitrary: off buf s)
  case Nil
  then show ?case by simp
next
  case (Cons sub subs)
  let ?lb = "live_bytes cfg c sub"
  let ?buf = "store_bytes buf off ?lb"
  let ?img = "archive_image cfg c subs (off + footprint cfg sub) ?buf"
  have len: "length ?lb = footprint cfg sub" using Cons.prems by simp
  have l: "length ?buf = length buf"
    using Cons.prems by (intro length_store_bytes) simp
  have "load_bytes ?img off (footprint cfg sub) = load_bytes ?buf off (footprint cfg sub)"
    using Cons.prems l by (intro archive_image_before) auto
  also have "\<dots> = ?lb"
    using load_store_same[of off buf ?lb] Cons.prems len by simp
  finally have rd: "load_bytes ?img off (footprint cfg sub) = ?lb" .
  let ?s = "if sub = RegExpStack then (fst s, ?lb) else ((fst s)(sub := ?lb), snd s)"
  have ih: "restore_image cfg subs (off + footprint cfg sub) ?img ?s =
     ((\<lambda>x. if x \<in> set subs \<and> x \<noteq> RegExpStack then live_bytes cfg c x else fst ?s x),
      (if RegExpStack \<in> set subs then live_bytes cfg c RegExpStack else snd ?s))"
    using Cons.prems l by (intro Cons.IH) auto
  have "restore_image cfg (sub # subs) off (archive_image cfg c (sub # subs) off buf) s =
        restore_image cfg subs (off + footprint cfg sub) ?img ?s"
    using rd by (cases "sub = RegExpStack") simp_all
  also note ih
  finally show ?case using Cons.prems(1) by (auto simp: fun_eq_iff)
qed

lemma distinct_registration_order: "distinct (registration_order cfg)"
  by (simp add: registration_order_def)

lemma RegExpStack_round_trip:
  assumes "snd p + sizeof_ThreadLocal cfg \<le> length (data (heap d (fst p)))"
    and "length (thread_local d) = sizeof_ThreadLocal cfg"
  shows "thread_local (snd (RegExpStack_RestoreStack cfg p
           ((snd (RegExpStack_ArchiveStack cfg p d))\<lparr>thread_local := tl'\<rparr>))) = thread_local d"
    and "thread_local (snd (RegExpStack_ArchiveStack cfg p d)) = ThreadLocal_default cfg"
    and "fst (RegExpStack_ArchiveStack cfg p d) = advance p (sizeof_ThreadLocal cfg)"
    and "fst (RegExpStack_RestoreStack cfg p d') = advance p (sizeof_ThreadLocal cfg)"
proof -
  obtain a off where p: "p = (a, off)" by (cases p)
  have "load_bytes (store_bytes (data (heap d a)) off (thread_local d)) off
          (length (thread_local d)) = thread_local d"
    using assms p by (intro load_store_same) simp
  then show "thread_local (snd (RegExpStack_RestoreStack cfg p
           ((snd (RegExpStack_ArchiveStack cfg p d))\<lparr>thread_local := tl'\<rparr>))) = thread_local d"
    using assms(2)
    by (simp add: p RegExpStack_RestoreStack_def RegExpStack_ArchiveStack_def memcpy_to_def
        memcpy_from_def emit_def Let_def)
  show "thread_local (snd (RegExpStack_ArchiveStack cfg p d)) = ThreadLocal_default cfg"
    "fst (RegExpStack_ArchiveStack cfg p d) = advance p (sizeof_ThreadLocal cfg)"
    "fst (RegExpStack_RestoreStack cfg p d') = advance p (sizeof_ThreadLocal cfg)"
    by (simp_all add: RegExpStack_RestoreStack_def RegExpStack_ArchiveStack_def Let_def)
qed


text \<open>
  Claim C8. \<^verbatim>\<open>EagerlyArchiveThread\<close> runs the archive functions and \<^verbatim>\<open>RestoreThread\<close> the
  restore functions of the same subsystems in the same order (\<open>registration_order\<close>);
  every archive and restore function advances its cursor by the subsystem's footprint,
  \<^verbatim>\<open>RegExpStack\<close>'s by \<^verbatim>\<open>sizeof(RegExpStackData::ThreadLocal)\<close>; and when the live states
  have their footprint's size and the buffer holds the sum of the footprints, a restore
  after the eager archive brings back the live state of every archived subsystem and the
  \<^verbatim>\<open>ThreadLocal\<close> record of the regexp stack, whatever the live state was in between.
  \<^verbatim>\<open>RestoreStack\<close> after \<^verbatim>\<open>ArchiveStack\<close> at the same position gives the saved record back.
\<close>
theorem archive_restore_round_trip:
  assumes ls: "lazily_archived_thread_state c = Some a" and k: "thread_state_key c T = Some a"
    and fit: "sum_list (map (footprint cfg) (registration_order cfg)) \<le> length (data (heap c a))"
    and sz: "\<forall>sub. length (live c sub) = SpacePerThread cfg sub"
    and szr: "length (thread_local c) = sizeof_ThreadLocal cfg"
  shows "\<exists>c1. EagerlyArchiveThread cfg c = Inr c1 \<and>
           trace c1 = trace c @ map Archive (registration_order cfg) \<and>
           (\<forall>l tl. \<exists>c2.
              RestoreThread cfg T (c1\<lparr>live := l, thread_local := tl\<rparr>) = Inr (True, c2) \<and>
              trace c2 = trace c1 @ map Restore (registration_order cfg) @
                 (if terminate_on_restore (heap c a) then [StackGuard_TerminateExecution] else []) \<and>
              (\<forall>sub \<in> set (registration_order cfg). sub \<noteq> RegExpStack \<longrightarrow>
                  live c2 sub = live c sub) \<and>
              thread_local c2 = thread_local c) \<and>
           (\<forall>sub p d d'. fst (Subsystem_Archive cfg sub p d) = advance p (SpacePerThread cfg sub) \<and>
              fst (Subsystem_Restore cfg sub p d') = advance p (SpacePerThread cfg sub)) \<and>
           (\<forall>p d d'. fst (RegExpStack_ArchiveStack cfg p d) = advance p (sizeof_ThreadLocal cfg) \<and>
              fst (RegExpStack_RestoreStack cfg p d') = advance p (sizeof_ThreadLocal cfg)) \<and>
           (\<forall>p d tl. snd p + sizeof_ThreadLocal cfg \<le> length (data (heap d (fst p))) \<longrightarrow>
              length (thread_local d) = sizeof_ThreadLocal cfg \<longrightarrow>
              thread_local (snd (RegExpStack_RestoreStack cfg p
                ((snd (RegExpStack_ArchiveStack cfg p d))\<lparr>thread_local := tl\<rparr>))) = thread_local d)"
proof -
  note e = EagerlyArchiveThread_eq[OF ls, of cfg]
  obtain c1 where c1: "EagerlyArchiveThread cfg c = Inr c1" using e by blast
  have f: "trace c1 = trace c @ map Archive (registration_order cfg)"
    "lazily_archived_thread c1 = None" "thread_state_key c1 T = Some a"
    "data (heap c1 a) = archive_image cfg c (registration_order cfg) 0 (data (heap c a))"
    "terminate_on_restore (heap c1 a) = terminate_on_restore (heap c a)"
    using c1 k unfolding e by auto
  have lb: "\<forall>sub \<in> set (registration_order cfg). length (live_bytes cfg c sub) = footprint cfg sub"
    using sz szr by (simp add: live_bytes_def footprint_def)
  have lv: "\<And>sub. live_bytes cfg c sub = (if sub = RegExpStack then thread_local c else live c sub)"
    using sz szr by (simp add: live_bytes_def footprint_def)
  have round: "\<exists>c2.
              RestoreThread cfg T (c1\<lparr>live := l, thread_local := tl\<rparr>) = Inr (True, c2) \<and>
              trace c2 = trace c1 @ map Restore (registration_order cfg) @
                 (if terminate_on_restore (heap c a) then [StackGuard_TerminateExecution] else []) \<and>
              (\<forall>sub \<in> set (registration_order cfg). sub \<noteq> RegExpStack \<longrightarrow>
                  live c2 sub = live c sub) \<and>
              thread_local c2 = thread_local c" for l tl
  proof -
    let ?d = "c1\<lparr>live := l, thread_local := tl\<rparr>"
    have d: "lazily_archived_thread ?d = None" "thread_state_key ?d T = Some a"
      using f by simp_all
    note r = RestoreThread_archived_eq[OF d, of cfg]
    obtain c2 where c2: "RestoreThread cfg T ?d = Inr (True, c2)" using r by blast
    have img: "restore_image cfg (registration_order cfg) 0 (data (heap c1 a)) (l, tl) =
       ((\<lambda>sub. if sub \<in> set (registration_order cfg) \<and> sub \<noteq> RegExpStack
               then live_bytes cfg c sub else l sub),
        (if RegExpStack \<in> set (registration_order cfg) then live_bytes cfg c RegExpStack else tl))"
      unfolding f(4)
      using restore_archive_image[where subs="registration_order cfg" and off=0 and cfg=cfg
          and buf="data (heap c a)" and c=c and s="(l, tl)"] distinct_registration_order[of cfg]
        fit lb by (auto simp: fun_eq_iff)
    have "RegExpStack \<in> set (registration_order cfg)" by (simp add: registration_order_def)
    with img lv have g: "fst (restore_image cfg (registration_order cfg) 0 (data (heap c1 a)) (l, tl)) =
        (\<lambda>sub. if sub \<in> set (registration_order cfg) \<and> sub \<noteq> RegExpStack
               then live c sub else l sub)"
      "snd (restore_image cfg (registration_order cfg) 0 (data (heap c1 a)) (l, tl)) = thread_local c"
      by (simp_all add: fun_eq_iff)
    have "trace c2 = trace c1 @ map Restore (registration_order cfg) @
                 (if terminate_on_restore (heap c a) then [StackGuard_TerminateExecution] else [])"
      "live c2 = fst (restore_image cfg (registration_order cfg) 0 (data (heap c1 a)) (l, tl))"
      "thread_local c2 = snd (restore_image cfg (registration_order cfg) 0 (data (heap c1 a)) (l, tl))"
      using c2 f(5) unfolding r by auto
    with c2 g show ?thesis by auto
  qed
  have cur: "\<And>sub p d d'. fst (Subsystem_Archive cfg sub p d) = advance p (SpacePerThread cfg sub) \<and>
              fst (Subsystem_Restore cfg sub p d') = advance p (SpacePerThread cfg sub)"
    by (simp add: Subsystem_Archive_def Subsystem_Restore_def Let_def)
  have cur2: "\<And>p d d'. fst (RegExpStack_ArchiveStack cfg p d) = advance p (sizeof_ThreadLocal cfg) \<and>
              fst (RegExpStack_RestoreStack cfg p d') = advance p (sizeof_ThreadLocal cfg)"
    by (simp add: RegExpStack_RestoreStack_def RegExpStack_ArchiveStack_def Let_def)
  have rt: "\<And>p d tl. snd p + sizeof_ThreadLocal cfg \<le> length (data (heap d (fst p))) \<longrightarrow>
              length (thread_local d) = sizeof_ThreadLocal cfg \<longrightarrow>
              thread_local (snd (RegExpStack_RestoreStack cfg p
                ((snd (RegExpStack_ArchiveStack cfg p d))\<lparr>thread_local := tl\<rparr>))) = thread_local d"
    using RegExpStack_round_trip(1) by blast
  show ?thesis
    apply (rule exI[of _ c1])
    apply (intro conjI allI)
    using c1 f(1) round cur cur2 rt apply blast+
    done
qed


text \<open>
  Claim C8 at the example: the state of thread 101 is archived, the live state is
  emptied, and the restore brings it back.
\<close>
theorem archive_restore_round_trip_witness:
  "lazily_archived_thread_state after_Unlocker = Some 2 \<and>
   thread_state_key after_Unlocker 101 = Some 2 \<and>
   sum_list (map (footprint example_config) (registration_order example_config))
     \<le> length (data (heap after_Unlocker 2)) \<and>
   (\<forall>sub. length (live after_Unlocker sub) = SpacePerThread example_config sub) \<and>
   length (thread_local after_Unlocker) = sizeof_ThreadLocal example_config \<and>
   (\<exists>c1 c2. EagerlyArchiveThread example_config after_Unlocker = Inr c1 \<and>
      RestoreThread example_config 101 (c1\<lparr>live := (\<lambda>_. []), thread_local := []\<rparr>) =
        Inr (True, c2) \<and>
      live c2 Top = live after_Unlocker Top \<and> thread_local c2 = thread_local after_Unlocker)"
proof -
  have h: "lazily_archived_thread_state after_Unlocker = Some 2"
    "thread_state_key after_Unlocker 101 = Some 2"
    "sum_list (map (footprint example_config) (registration_order example_config))
       \<le> length (data (heap after_Unlocker 2))"
    "\<forall>sub. length (live after_Unlocker sub) = SpacePerThread example_config sub"
    "length (thread_local after_Unlocker) = sizeof_ThreadLocal example_config"
    by (simp_all add: after_Unlocker_simp after_Locker_simp ThreadManagerData_eq
        empty_context_def registration_order_def footprint_def example_config_def)
  from archive_restore_round_trip[OF h] obtain c1 where
    e: "EagerlyArchiveThread example_config after_Unlocker = Inr c1" and
    r: "\<forall>l tl. \<exists>c2.
          RestoreThread example_config 101 (c1\<lparr>live := l, thread_local := tl\<rparr>) = Inr (True, c2) \<and>
          trace c2 = trace c1 @ map Restore (registration_order example_config) @
             (if terminate_on_restore (heap after_Unlocker 2)
              then [StackGuard_TerminateExecution] else []) \<and>
          (\<forall>sub \<in> set (registration_order example_config). sub \<noteq> RegExpStack \<longrightarrow>
              live c2 sub = live after_Unlocker sub) \<and>
          thread_local c2 = thread_local after_Unlocker"
    by blast
  from r obtain c2 where
    "RestoreThread example_config 101 (c1\<lparr>live := (\<lambda>_. []), thread_local := []\<rparr>) = Inr (True, c2)"
    "\<forall>sub \<in> set (registration_order example_config). sub \<noteq> RegExpStack \<longrightarrow>
              live c2 sub = live after_Unlocker sub"
    "thread_local c2 = thread_local after_Unlocker"
    by blast
  moreover have "Top \<in> set (registration_order example_config)"
    by (simp add: registration_order_def)
  ultimately have "\<exists>c2.
      RestoreThread example_config 101 (c1\<lparr>live := (\<lambda>_. []), thread_local := []\<rparr>) =
        Inr (True, c2) \<and>
      live c2 Top = live after_Unlocker Top \<and> thread_local c2 = thread_local after_Unlocker"
    by auto
  with e h show ?thesis by blast
qed

subsection \<open>Thread ids and thread states\<close>

lemma word_succ_sless:
  fixes l :: int32
  assumes "0 <s l + 1"
  shows "l <s l + 1"
proof -
  have r: "- (2 ^ 31) \<le> sint l" "sint l < 2 ^ 31"
    using sint_ge[of l] sint_lt[of l] by simp_all
  have e: "sint (l + 1) = signed_take_bit 31 (sint l + 1)"
    by (simp add: sint_word_ariths)
  show ?thesis
  proof (cases "sint l + 1 < 2 ^ 31")
    case True
    then have "signed_take_bit 31 (sint l + 1) = sint l + 1"
      using r by (intro signed_take_bit_int_eq_self) simp_all
    then show ?thesis by (simp add: word_sless_alt e)
  next
    case False
    with r have "sint l = 2147483647" by simp
    then have "sint (l + 1) = - 2147483648"
      unfolding e by (simp add: signed_take_bit_eq_take_bit_minus take_bit_eq_mod bit_iff_odd)
    with assms show ?thesis by (simp add: word_sless_alt)
  qed
qed

lemma ownersD:
  assumes "owners c us"
  shows "\<And>T. thread_id_key c T \<noteq> 0 \<Longrightarrow> thread_id_key c T \<le>s last_id c"
    and "\<And>T U. thread_id_key c T = thread_id_key c U \<Longrightarrow> thread_id_key c T \<noteq> 0 \<Longrightarrow> T = U"
    and "\<And>T a. thread_state_key c T = Some a \<Longrightarrow> state_id (heap c a) = thread_id_key c T"
    and "\<And>T a. thread_state_key c T = Some a \<Longrightarrow> thread_id_key c T \<noteq> 0"
    and "\<And>a. a \<in> set us \<Longrightarrow> \<exists>T. thread_state_key c T = Some a"
  using assms unfolding owners_def by blast+

lemma ownersI:
  assumes "\<And>T. thread_id_key c T \<noteq> 0 \<Longrightarrow> thread_id_key c T \<le>s last_id c"
    and "\<And>T U. thread_id_key c T = thread_id_key c U \<Longrightarrow> thread_id_key c T \<noteq> 0 \<Longrightarrow> T = U"
    and "\<And>T a. thread_state_key c T = Some a \<Longrightarrow> state_id (heap c a) = thread_id_key c T"
    and "\<And>T a. thread_state_key c T = Some a \<Longrightarrow> thread_id_key c T \<noteq> 0"
    and "\<And>a. a \<in> set us \<Longrightarrow> \<exists>T. thread_state_key c T = Some a"
  shows "owners c us"
  using assms unfolding owners_def by blast

lemma owners_cong:
  assumes "thread_id_key c' = thread_id_key c" "last_id c' = last_id c"
    "thread_state_key c' = thread_state_key c"
    "\<And>a. state_id (heap c' a) = state_id (heap c a)"
  shows "owners c' us = owners c us"
  unfolding owners_def assms ..

lemma owners_distinct_ids:
  assumes i: "inv_lists c fs us" and o: "owners c us"
    and a: "a \<in> set us" and b: "b \<in> set us"
    and e: "state_id (heap c a) = state_id (heap c b)"
  shows "a = b"
proof -
  note O = ownersD[OF o]
  from O(5)[OF a] obtain T where T: "thread_state_key c T = Some a" by blast
  from O(5)[OF b] obtain U where U: "thread_state_key c U = Some b" by blast
  have "thread_id_key c T = thread_id_key c U" using O(3)[OF T] O(3)[OF U] e by simp
  from O(2)[OF this O(4)[OF T]] T U show ?thesis by simp
qed

lemma owners_archive:
  assumes inv: "inv_lists c fs us" and o: "owners c us"
    and lz: "lazily_archived_thread c = None"
    and k: "thread_state_key c self = None" and id: "CurrentId self c \<noteq> 0"
  shows "owners (archive_result cfg self c) us"
proof -
  note O = ownersD[OF o]
  note D = inv_listsD[OF inv]
  let ?s = "if next_state (heap c (free_anchor c)) = free_anchor c then allocated c
            else next_state (heap c (free_anchor c))"
  let ?c' = "archive_result cfg self c"
  have f: "thread_id_key ?c' = thread_id_key c" "last_id ?c' = last_id c"
    "thread_state_key ?c' = (thread_state_key c)(self := Some ?s)"
    "state_id (heap ?c' ?s) = CurrentId self c"
    "\<And>b. b \<noteq> ?s \<Longrightarrow> state_id (heap ?c' b) = state_id (heap c b)"
    by (auto simp: archive_result_def Let_def)
  have us: "\<And>T a. thread_state_key c T = Some a \<Longrightarrow> a \<in> set us"
    using D(7) lz by auto
  have ns: "?s \<notin> set us"
  proof (cases "next_state (heap c (free_anchor c)) = free_anchor c")
    case True
    have "allocated c \<notin> {..<allocated c}" by simp
    then show ?thesis using True D(4) by auto
  next
    case False
    then have "fs \<noteq> []" using dll_head_anchor[OF D(1)] by auto
    then obtain x fs' where fs: "fs = x # fs'" by (cases fs) auto
    have "next_state (heap c (free_anchor c)) = x" using dll_head[OF D(1)] fs by simp
    then show ?thesis using False D(3) fs by auto
  qed
  show ?thesis
  proof (rule ownersI)
    fix T assume "thread_id_key ?c' T \<noteq> 0"
    then show "thread_id_key ?c' T \<le>s last_id ?c'" unfolding f using O(1) by simp
  next
    fix T U assume "thread_id_key ?c' T = thread_id_key ?c' U" "thread_id_key ?c' T \<noteq> 0"
    then show "T = U" unfolding f using O(2) by simp
  next
    fix T a assume a: "thread_state_key ?c' T = Some a"
    show "state_id (heap ?c' a) = thread_id_key ?c' T"
    proof (cases "T = self")
      case True
      with a have "a = ?s" unfolding f by simp
      then show ?thesis using f(4) True by (simp add: f(1) CurrentId_def)
    next
      case False
      with a have a': "thread_state_key c T = Some a" unfolding f by simp
      from us[OF a'] ns have "a \<noteq> ?s" by auto
      from f(5)[OF this] O(3)[OF a'] show ?thesis by (simp add: f(1))
    qed
    show "thread_id_key ?c' T \<noteq> 0"
    proof (cases "T = self")
      case True
      then show ?thesis using id by (simp add: f(1) CurrentId_def)
    next
      case False
      with a have a': "thread_state_key c T = Some a" unfolding f by simp
      from O(4)[OF a'] show ?thesis by (simp add: f(1))
    qed
  next
    fix a assume "a \<in> set us"
    from O(5)[OF this] obtain T where T: "thread_state_key c T = Some a" by blast
    with k have "T \<noteq> self" by auto
    with T have "thread_state_key ?c' T = Some a" unfolding f by simp
    then show "\<exists>T. thread_state_key ?c' T = Some a" by blast
  qed
qed

lemma owners_eager:
  assumes inv: "inv_lists c fs us" and o: "owners c us"
    and ls: "lazily_archived_thread_state c = Some a"
    and r: "EagerlyArchiveThread cfg c = Inr c'"
  shows "owners c' (a # us)"
proof -
  note O = ownersD[OF o]
  note D = inv_listsD[OF inv]
  from r have c': "c' = c\<lparr>heap := (link_heap a (in_use_anchor c) (heap c))
                (a := (link_heap a (in_use_anchor c) (heap c) a)
                   \<lparr>data := archive_image cfg c (registration_order cfg) 0 (data (heap c a))\<rparr>),
           trace := trace c @ map Archive (registration_order cfg),
           thread_local := ThreadLocal_default cfg,
           lazily_archived_thread := None,
           lazily_archived_thread_state := None\<rparr>"
    unfolding EagerlyArchiveThread_eq[OF ls] by simp
  have f: "thread_id_key c' = thread_id_key c" "last_id c' = last_id c"
    "thread_state_key c' = thread_state_key c"
    "\<And>b. state_id (heap c' b) = state_id (heap c b)"
    unfolding c' by simp_all
  from D(5) ls obtain t where t: "lazily_archived_thread c = Some t"
    by (cases "lazily_archived_thread c") auto
  have ka: "thread_state_key c t = Some a" using D(6)[OF t] ls by simp
  have "owners c (a # us)"
    using O ka by (intro ownersI) auto
  then show ?thesis using owners_cong[OF f] by simp
qed

lemma owners_restore_lazy:
  assumes inv: "inv_lists c fs us" and o: "owners c us"
    and lt: "lazily_archived_thread c = Some self"
    and r: "RestoreThread cfg self c = Inr (b, c')"
  shows "owners c' us"
proof -
  note O = ownersD[OF o]
  note D = inv_listsD[OF inv]
  from D(5) lt obtain a where ls: "lazily_archived_thread_state c = Some a"
    by (cases "lazily_archived_thread_state c") auto
  have ka: "thread_state_key c self = Some a" using D(6)[OF lt] ls by simp
  from r have c': "c' = c\<lparr>heap := link_heap a (free_anchor c)
              ((heap c)(a := (heap c a)\<lparr>state_id := kInvalidId cfg\<rparr>)),
            lazily_archived_thread := None,
            lazily_archived_thread_state := None,
            thread_state_key := (thread_state_key c)(self := None)\<rparr>"
    unfolding RestoreThread_lazy_eq[OF lt ls ka] by simp
  have f: "thread_id_key c' = thread_id_key c" "last_id c' = last_id c"
    "thread_state_key c' = (thread_state_key c)(self := None)"
    "\<And>b. b \<noteq> a \<Longrightarrow> state_id (heap c' b) = state_id (heap c b)"
    unfolding c' by simp_all
  have na: "a \<notin> set us" using D(3) ls by (simp add: lazy_list_def)
  show ?thesis
  proof (rule ownersI)
    fix T assume "thread_id_key c' T \<noteq> 0"
    then show "thread_id_key c' T \<le>s last_id c'" unfolding f using O(1) by simp
  next
    fix T U assume "thread_id_key c' T = thread_id_key c' U" "thread_id_key c' T \<noteq> 0"
    then show "T = U" unfolding f using O(2) by simp
  next
    fix T x assume x: "thread_state_key c' T = Some x"
    then have T: "T \<noteq> self" and x': "thread_state_key c T = Some x"
      unfolding f by (auto split: if_splits)
    have "x \<noteq> a" using D(8)[OF x', of self] ka T by auto
    from f(4)[OF this] O(3)[OF x'] show "state_id (heap c' x) = thread_id_key c' T"
      by (simp add: f(1))
    from O(4)[OF x'] show "thread_id_key c' T \<noteq> 0" by (simp add: f(1))
  next
    fix x assume x: "x \<in> set us"
    from O(5)[OF x] obtain T where T: "thread_state_key c T = Some x" by blast
    have "T \<noteq> self" using T ka x na by auto
    with T have "thread_state_key c' T = Some x" unfolding f by simp
    then show "\<exists>T. thread_state_key c' T = Some x" by blast
  qed
qed

lemma owners_restore_archived:
  assumes inv: "inv_lists c fs us" and o: "owners c us"
    and lt: "lazily_archived_thread c = None"
    and k: "thread_state_key c self = Some a"
    and r: "RestoreThread cfg self c = Inr (b, c')"
  shows "owners c' (remove1 a us)"
proof -
  note O = ownersD[OF o]
  note D = inv_listsD[OF inv]
  from r have c': "c' = c\<lparr>heap := link_heap a (free_anchor c) (unlink_heap a
               ((heap c)(a := (heap c a)\<lparr>terminate_on_restore := False, state_id := kInvalidId cfg\<rparr>))),
            live := fst (restore_image cfg (registration_order cfg) 0 (data (heap c a)) (live c, thread_local c)),
            thread_local := snd (restore_image cfg (registration_order cfg) 0 (data (heap c a)) (live c, thread_local c)),
            trace := trace c @ map Restore (registration_order cfg) @
                     (if terminate_on_restore (heap c a) then [StackGuard_TerminateExecution] else []),
            thread_state_key := (thread_state_key c)(self := None)\<rparr>"
    unfolding RestoreThread_archived_eq[OF lt k] by simp
  have f: "thread_id_key c' = thread_id_key c" "last_id c' = last_id c"
    "thread_state_key c' = (thread_state_key c)(self := None)"
    "\<And>b. b \<noteq> a \<Longrightarrow> state_id (heap c' b) = state_id (heap c b)"
    unfolding c' by simp_all
  have du: "distinct us" using D(3) by simp
  show ?thesis
  proof (rule ownersI)
    fix T assume "thread_id_key c' T \<noteq> 0"
    then show "thread_id_key c' T \<le>s last_id c'" unfolding f using O(1) by simp
  next
    fix T U assume "thread_id_key c' T = thread_id_key c' U" "thread_id_key c' T \<noteq> 0"
    then show "T = U" unfolding f using O(2) by simp
  next
    fix T x assume x: "thread_state_key c' T = Some x"
    then have T: "T \<noteq> self" and x': "thread_state_key c T = Some x"
      unfolding f by (auto split: if_splits)
    have "x \<noteq> a" using D(8)[OF x', of self] k T by auto
    from f(4)[OF this] O(3)[OF x'] show "state_id (heap c' x) = thread_id_key c' T"
      by (simp add: f(1))
    from O(4)[OF x'] show "thread_id_key c' T \<noteq> 0" by (simp add: f(1))
  next
    fix x assume "x \<in> set (remove1 a us)"
    then have x: "x \<in> set us" and xa: "x \<noteq> a" using du by auto
    from O(5)[OF x] obtain T where T: "thread_state_key c T = Some x" by blast
    have "T \<noteq> self" using T k xa by auto
    with T have "thread_state_key c' T = Some x" unfolding f by simp
    then show "\<exists>T. thread_state_key c' T = Some x" by blast
  qed
qed

lemma owners_AssignId:
  assumes o: "owners c us" and r: "AssignId cfg t c = Inr c'" and d: "DEBUG cfg"
  shows "owners c' us"
proof (cases "HasId t c")
  case True
  with r have "c' = c" by (simp add: AssignId_def)
  with o show ?thesis by simp
next
  case False
  note O = ownersD[OF o]
  let ?n = "last_id c + 1"
  from r False d have pos: "0 <s ?n"
    and c': "c' = emit (Top_set_thread_id ?n)
               (c\<lparr>last_id := ?n, thread_id_key := (thread_id_key c)(t := ?n)\<rparr>)"
    by (auto simp: AssignId_def Let_def failed_def split: if_splits)
  have f: "thread_id_key c' = (thread_id_key c)(t := ?n)" "last_id c' = ?n"
    "thread_state_key c' = thread_state_key c" "heap c' = heap c"
    unfolding c' by (simp_all add: emit_def)
  have lt: "last_id c <s ?n" by (rule word_succ_sless[OF pos])
  have n0: "?n \<noteq> 0" using pos by auto
  have t0: "thread_id_key c t = 0" using False by (simp add: HasId_def)
  have old: "thread_id_key c T <s ?n" if "thread_id_key c T \<noteq> 0" for T
    using O(1)[OF that] lt by (simp add: word_sless_alt word_sle_eq)
  show ?thesis
  proof (rule ownersI)
    fix T assume "thread_id_key c' T \<noteq> 0"
    then show "thread_id_key c' T \<le>s last_id c'"
      unfolding f using old[of T] by (auto simp: word_sless_alt word_sle_eq split: if_splits)
  next
    fix T U assume e: "thread_id_key c' T = thread_id_key c' U" and z: "thread_id_key c' T \<noteq> 0"
    show "T = U"
    proof (cases "T = t")
      case True
      show ?thesis
      proof (rule ccontr)
        assume "T \<noteq> U"
        with True e have u: "thread_id_key c U = ?n" unfolding f by simp
        with n0 old[of U] show False by (simp add: word_sless_alt)
      qed
    next
      case False
      show ?thesis
      proof (cases "U = t")
        case True
        with False e have u: "thread_id_key c T = ?n" unfolding f by simp
        with n0 old[of T] show ?thesis by (simp add: word_sless_alt)
      next
        case U: False
        with False e z show ?thesis unfolding f using O(2)[of T U] by simp
      qed
    qed
  next
    fix T x assume x: "thread_state_key c' T = Some x"
    then have x': "thread_state_key c T = Some x" unfolding f .
    have "T \<noteq> t" using O(4)[OF x'] t0 by auto
    then show "state_id (heap c' x) = thread_id_key c' T" "thread_id_key c' T \<noteq> 0"
      unfolding f using O(3)[OF x'] O(4)[OF x'] by simp_all
  next
    fix x assume "x \<in> set us"
    from O(5)[OF this] show "\<exists>T. thread_state_key c' T = Some x" unfolding f .
  qed
qed

lemma ids_cong:
  assumes "heap c' = heap c" "free_anchor c' = free_anchor c" "in_use_anchor c' = in_use_anchor c"
    "allocated c' = allocated c" "lazily_archived_thread c' = lazily_archived_thread c"
    "lazily_archived_thread_state c' = lazily_archived_thread_state c"
    "thread_state_key c' = thread_state_key c"
    "thread_id_key c' = thread_id_key c" "last_id c' = last_id c"
  shows "ids_ok c' = ids_ok c"
proof -
  have "owners c' us = owners c us" for us
    by (rule owners_cong) (simp_all add: assms)
  then show ?thesis
    unfolding ids_ok_def inv_lists_cong[OF assms(1-7)] by simp
qed

lemma ids_initial: "ids_ok (ThreadManagerData cfg)"
proof -
  have "inv_lists (ThreadManagerData cfg) [] []"
    unfolding inv_lists_def
    by (auto simp: ThreadManagerData_def empty_context_def new_ThreadState_def Let_def dll_def
        lazy_list_def Initialize_def)
  moreover have "owners (ThreadManagerData cfg) []"
    by (simp add: owners_def ThreadManagerData_def empty_context_def new_ThreadState_def Let_def)
  ultimately show ?thesis unfolding ids_ok_def by blast
qed

lemma ids_emit [simp]: "ids_ok (emit e c) = ids_ok c"
  by (rule ids_cong) (simp_all add: emit_def)

lemma ids_Lock: "ThreadManager_Lock cfg t c = Inr c' \<Longrightarrow> ids_ok c' = ids_ok c"
  by (rule ids_cong)
     (auto simp: ThreadManager_Lock_def Mutex_Lock_def record_owner_def Let_def split: if_splits)

lemma ids_Unlock [simp]: "ids_ok (ThreadManager_Unlock t c) = ids_ok c"
  by (rule ids_cong) (simp_all add: ThreadManager_Unlock_def Mutex_Unlock_def clear_owner_def)

lemma ids_FreeThreadResources [simp]: "ids_ok (FreeThreadResources cfg c) = ids_ok c"
  by (rule ids_cong)
     (simp_all add: FreeThreadResources_def RegExpStack_FreeThreadResources_def
        ThreadLocal_Free_def emit_def Let_def)

lemma ids_V8_Initialize_call [simp]: "ids_ok (V8_Initialize_call c) = ids_ok c"
  by (rule ids_cong) (simp_all add: V8_Initialize_call_def emit_def)

lemma ids_active [simp]: "ids_ok (c\<lparr>active := v\<rparr>) = ids_ok c"
  by (rule ids_cong) simp_all

lemma ids_AssignId:
  assumes "ids_ok c" and r: "AssignId cfg t c = Inr c'" and d: "DEBUG cfg"
  shows "ids_ok c'"
proof -
  from assms(1) obtain fs us where i: "inv_lists c fs us" and o: "owners c us"
    unfolding ids_ok_def by blast
  have "inv_lists c' fs us = inv_lists c fs us"
    using r by (intro inv_lists_cong) (auto simp: AssignId_def emit_def Let_def split: if_splits)
  with i owners_AssignId[OF o r d] show ?thesis unfolding ids_ok_def by blast
qed

lemma ids_ArchiveThread:
  assumes "ids_ok c" and r: "ArchiveThread cfg t c = Inr c'" and d: "DEBUG cfg"
    and z: "thread_id_key c t \<noteq> 0"
  shows "ids_ok c'"
proof -
  from assms(1) obtain fs us where i: "inv_lists c fs us" and o: "owners c us"
    unfolding ids_ok_def by blast
  note C = ArchiveThread_checked[OF r d]
  have c': "c' = archive_result cfg t c" by (rule ArchiveThread_Inr[OF r])
  have "CurrentId t c \<noteq> 0" using z by (simp add: CurrentId_def)
  from inv_archive[OF i C(1), of cfg t] owners_archive[OF i o C(1) C(2) this, of cfg]
  show ?thesis unfolding ids_ok_def c' by auto
qed

lemma ids_EagerlyArchiveThread:
  assumes "ids_ok c" and r: "EagerlyArchiveThread cfg c = Inr c'"
  shows "ids_ok c'"
proof -
  from assms(1) obtain fs us where i: "inv_lists c fs us" and o: "owners c us"
    unfolding ids_ok_def by blast
  from r obtain a where a: "lazily_archived_thread_state c = Some a"
    by (cases "lazily_archived_thread_state c") (auto simp: EagerlyArchiveThread_def)
  from inv_eager[OF i a r] owners_eager[OF i o a r] show ?thesis unfolding ids_ok_def by blast
qed

lemma ids_RestoreThread:
  assumes "ids_ok c" and "RestoreThread cfg t c = Inr (b, c')"
  shows "ids_ok c'"
proof -
  have rest: "ids_ok c'" if l: "lazily_archived_thread d = None" and i: "ids_ok d"
    and r: "RestoreThread cfg t d = Inr (b, c')" for d
  proof -
    from i obtain fs us where i: "inv_lists d fs us" and o: "owners d us"
      unfolding ids_ok_def by blast
    show ?thesis
    proof (cases "thread_state_key d t")
      case None
      from r have "c' = emit StackGuard_InitThread d"
        unfolding RestoreThread_new_eq[OF l None] by simp
      then show ?thesis using that(2) by simp
    next
      case (Some a)
      from inv_restore_archived[OF i l Some r] owners_restore_archived[OF i o l Some r]
      show ?thesis unfolding ids_ok_def by blast
    qed
  qed
  from assms(1) obtain fs us where i: "inv_lists c fs us" and o: "owners c us"
    unfolding ids_ok_def by blast
  show ?thesis
  proof (cases "lazily_archived_thread c")
    case None
    from rest[OF None assms] show ?thesis .
  next
    case (Some u)
    show ?thesis
    proof (cases "u = t")
      case True
      with Some have lt: "lazily_archived_thread c = Some t" by simp
      from inv_restore_lazy[OF i lt assms(2)] owners_restore_lazy[OF i o lt assms(2)]
      show ?thesis unfolding ids_ok_def by blast
    next
      case False
      from assms(2) obtain c1 where e: "EagerlyArchiveThread cfg c = Inr c1"
        and r: "RestoreThread cfg t c1 = Inr (b, c')"
        unfolding RestoreThread_forces_eager[OF Some False] by (auto split: sum.splits)
      have i1: "ids_ok c1" using ids_EagerlyArchiveThread[OF assms(1) e] .
      from e have "lazily_archived_thread c1 = None"
        by (auto simp: EagerlyArchiveThread_def Let_def split_def Initialize_def split: option.splits)
      from rest[OF this i1 r] show ?thesis .
    qed
  qed
qed

lemma ids_TerminateExecution:
  assumes "ids_ok c" and "TerminateExecution thread_id c = Some c'"
  shows "ids_ok c'"
proof -
  from assms(1) obtain fs us where i: "inv_lists c fs us" and o: "owners c us"
    unfolding ids_ok_def by blast
  note D = inv_listsD[OF i]
  from assms(2) have c': "c' = c\<lparr>heap := flagged thread_id us (heap c)\<rparr>"
    unfolding TerminateExecution_eq[OF D(2)] by simp
  have "\<And>anchor xs. dll (flagged thread_id us (heap c)) anchor xs = dll (heap c) anchor xs"
    by (rule dll_same_links) (auto simp: flagged_def)
  then have 1: "inv_lists c' fs us"
    using i unfolding inv_lists_def c' lazy_list_def by simp
  have "owners c' us = owners c us"
    by (rule owners_cong) (simp_all add: c' flagged_def)
  with o 1 show ?thesis unfolding ids_ok_def by blast
qed

lemma ids_Locker_ctor:
  assumes "ids_ok c" and "Locker_ctor cfg t c = Inr (l, c')" and d: "DEBUG cfg"
  shows "ids_ok c'"
proof (cases "IsLockedByCurrentThread t (c\<lparr>active := True\<rparr>)")
  case True
  with assms(2) have "AssignId cfg t (c\<lparr>active := True\<rparr>) = Inr c'"
    by (auto simp: Locker_ctor_def Let_def split: if_splits sum.splits)
  from ids_AssignId[OF _ this d] assms(1) show ?thesis by simp
next
  case False
  with assms(2) obtain c1 b c3 c4 where
    1: "ThreadManager_Lock cfg t (c\<lparr>active := True\<rparr>) = Inr c1" and
    2: "RestoreThread cfg t (if \<not> running c1 then V8_Initialize_call c1 else c1) = Inr (b, c3)" and
    3: "c4 = (if b then c3 else emit StackGuard_InitThread (emit StackGuard_ClearThread c3))" and
    4: "AssignId cfg t c4 = Inr c'"
    by (auto simp: Locker_ctor_def Let_def split: if_splits sum.splits prod.splits)
  have "ids_ok c1" using ids_Lock[OF 1] assms(1) by simp
  then have "ids_ok (if \<not> running c1 then V8_Initialize_call c1 else c1)" by simp
  from ids_RestoreThread[OF this 2] have "ids_ok c4" unfolding 3 by simp
  then show ?thesis using ids_AssignId[OF _ 4 d] by simp
qed

lemma ids_Unlocker_dtor:
  assumes "ids_ok c" and "Unlocker_dtor cfg t c = Inr c'"
  shows "ids_ok c'"
proof -
  from assms(2) obtain c1 b where 1: "ThreadManager_Lock cfg t c = Inr c1"
    and 2: "RestoreThread cfg t c1 = Inr (b, c')"
    by (auto simp: Unlocker_dtor_def split: if_splits sum.splits prod.splits)
  have "ids_ok c1" using ids_Lock[OF 1] assms(1) by simp
  from ids_RestoreThread[OF this 2] show ?thesis .
qed

lemma checked_simps [simp]: "DEBUG (checked cfg)" "kInvalidId (checked cfg) = kInvalidId cfg"
  by (simp_all add: checked_def)

subsection \<open>Runs of the guards\<close>

lemma same_ids_refl [simp]: "same_ids c c"
  by (simp add: same_ids_def)

lemma same_ids_trans: "same_ids c c1 \<Longrightarrow> same_ids c1 c2 \<Longrightarrow> same_ids c c2"
  by (simp add: same_ids_def)

lemma same_ids_emit [simp]: "same_ids c (emit e c)"
  by (simp add: same_ids_def emit_def)

lemma EagerlyArchiveThread_after:
  assumes "EagerlyArchiveThread cfg c = Inr c'"
  shows "same_ids c c'" and "lazily_archived_thread c' = None"
    and "thread_state_key c' = thread_state_key c"
proof -
  from assms obtain a where a: "lazily_archived_thread_state c = Some a"
    by (cases "lazily_archived_thread_state c") (auto simp: EagerlyArchiveThread_def)
  from assms show "same_ids c c'" "lazily_archived_thread c' = None"
    "thread_state_key c' = thread_state_key c"
    unfolding EagerlyArchiveThread_eq[OF a] by (auto simp: same_ids_def)
qed

lemma RestoreThread_after:
  assumes i: "inv_lists c fs us" and r: "RestoreThread cfg t c = Inr (b, c')"
  shows "same_ids c c'" and "lazily_archived_thread c' = None"
    and "thread_state_key c' t = None"
proof -
  have rest: "same_ids d c' \<and> lazily_archived_thread c' = None \<and> thread_state_key c' t = None"
    if l: "lazily_archived_thread d = None" and r: "RestoreThread cfg t d = Inr (b, c')" for d
  proof (cases "thread_state_key d t")
    case None
    from r show ?thesis unfolding RestoreThread_new_eq[OF l None]
      using l None by (auto simp: same_ids_def emit_def)
  next
    case (Some a)
    from r show ?thesis unfolding RestoreThread_archived_eq[OF l Some]
      using l by (auto simp: same_ids_def)
  qed
  note D = inv_listsD[OF i]
  have "same_ids c c' \<and> lazily_archived_thread c' = None \<and> thread_state_key c' t = None"
  proof (cases "lazily_archived_thread c")
    case None
    from rest[OF None r] show ?thesis .
  next
    case (Some u)
    from D(5) Some obtain a where ls: "lazily_archived_thread_state c = Some a"
      by (cases "lazily_archived_thread_state c") auto
    show ?thesis
    proof (cases "u = t")
      case True
      with Some have lt: "lazily_archived_thread c = Some t" by simp
      have ka: "thread_state_key c t = Some a" using D(6)[OF lt] ls by simp
      from r show ?thesis unfolding RestoreThread_lazy_eq[OF lt ls ka]
        by (auto simp: same_ids_def)
    next
      case False
      from r obtain c1 where e: "EagerlyArchiveThread cfg c = Inr c1"
        and r1: "RestoreThread cfg t c1 = Inr (b, c')"
        unfolding RestoreThread_forces_eager[OF Some False] by (auto split: sum.splits)
      note E = EagerlyArchiveThread_after[OF e]
      from rest[OF E(2) r1] E(1) show ?thesis using same_ids_trans by blast
    qed
  qed
  then show "same_ids c c'" "lazily_archived_thread c' = None" "thread_state_key c' t = None"
    by simp_all
qed

lemma ArchiveThread_after:
  assumes "ArchiveThread cfg t c = Inr c'"
  shows "same_ids c c'"
  unfolding ArchiveThread_Inr[OF assms] by (simp add: same_ids_def archive_result_def Let_def)

lemma Lock_after:
  assumes "ThreadManager_Lock cfg t c = Inr c'"
  shows "mutex_owner c' = Some t" and "thread_id_key c' = thread_id_key c"
    and "last_id c' = last_id c" and "lazily_archived_thread c' = lazily_archived_thread c"
    and "thread_state_key c' = thread_state_key c"
  using assms
  by (auto simp: ThreadManager_Lock_def Mutex_Lock_def record_owner_def Initialize_def Let_def
      split: if_splits)

lemma Unlock_after:
  "mutex_owner (ThreadManager_Unlock t c) = None"
  "thread_id_key (ThreadManager_Unlock t c) = thread_id_key c"
  by (simp_all add: ThreadManager_Unlock_def Mutex_Unlock_def clear_owner_def Initialize_def)

lemma AssignId_after:
  assumes "AssignId cfg t c = Inr c'" and "DEBUG cfg"
  shows "thread_id_key c' t \<noteq> 0"
    and "\<And>u. thread_id_key c u \<noteq> 0 \<Longrightarrow> thread_id_key c' u \<noteq> 0"
    and "mutex_owner c' = mutex_owner c"
    and "lazily_archived_thread c' = lazily_archived_thread c"
    and "thread_state_key c' = thread_state_key c"
proof -
  show "thread_id_key c' t \<noteq> 0"
    using assms by (auto simp: AssignId_def HasId_def failed_def emit_def Let_def split: if_splits)
  show "thread_id_key c' u \<noteq> 0" if "thread_id_key c u \<noteq> 0" for u
    using assms that
    by (auto simp: AssignId_def HasId_def failed_def emit_def Let_def split: if_splits)
  show "mutex_owner c' = mutex_owner c" "lazily_archived_thread c' = lazily_archived_thread c"
    "thread_state_key c' = thread_state_key c"
    using assms by (auto simp: AssignId_def emit_def Let_def split: if_splits)
qed

lemma guarded_reachable: "guarded cfg as g \<Longrightarrow> reachable cfg (manager g)"
proof (induction rule: guarded.induct)
  case fresh
  show ?case by (simp add: reachable.initial)
next
  case (Locker as g t l c')
  from reachable.Locker_ctor[OF Locker(3,2)] show ?case by simp
next
  case (Locker_end as g t l rest c')
  from reachable.Locker_dtor[OF Locker_end(4,3)] show ?case by simp
next
  case (Unlocker as g t c')
  from reachable.Unlocker_ctor[OF Unlocker(3,2)] show ?case by simp
next
  case (Unlocker_end as g t rest c')
  from reachable.Unlocker_dtor[OF Unlocker_end(4,3)] show ?case by simp
next
  case (Terminate as g thread_id c')
  from reachable.TerminateExecution[OF Terminate(3,2)] show ?case by simp
qed

lemma guard_invD:
  assumes "guard_inv g"
  shows "ids_ok (manager g)"
    and "\<And>T. mutex_owner (manager g) = Some T \<Longrightarrow> thread_id_key (manager g) T \<noteq> 0"
    and "\<And>T. mutex_owner (manager g) = Some T \<Longrightarrow> lazily_archived_thread (manager g) = None"
    and "\<And>T. mutex_owner (manager g) = Some T \<Longrightarrow> thread_state_key (manager g) T = None"
    and "\<And>T. guards g T \<noteq> [] \<Longrightarrow> thread_id_key (manager g) T \<noteq> 0"
  using assms unfolding guard_inv_def by blast+

lemma guard_invI:
  assumes "ids_ok (manager g)"
    and "\<And>T. mutex_owner (manager g) = Some T \<Longrightarrow> thread_id_key (manager g) T \<noteq> 0"
    and "\<And>T. mutex_owner (manager g) = Some T \<Longrightarrow> lazily_archived_thread (manager g) = None"
    and "\<And>T. mutex_owner (manager g) = Some T \<Longrightarrow> thread_state_key (manager g) T = None"
    and "\<And>T. guards g T \<noteq> [] \<Longrightarrow> thread_id_key (manager g) T \<noteq> 0"
  shows "guard_inv g"
  using assms unfolding guard_inv_def by blast

lemma ids_ok_lists:
  assumes "ids_ok c"
  obtains fs us where "inv_lists c fs us" "owners c us"
  using assms unfolding ids_ok_def by blast

lemma Locker_ctor_after:
  assumes ok: "ids_ok c" and r: "Locker_ctor cfg t c = Inr (l, c')" and d: "DEBUG cfg"
    and o: "\<And>T. mutex_owner c = Some T \<Longrightarrow>
              lazily_archived_thread c = None \<and> thread_state_key c T = None"
  shows "thread_id_key c' t \<noteq> 0"
    and "\<And>u. thread_id_key c u \<noteq> 0 \<Longrightarrow> thread_id_key c' u \<noteq> 0"
    and "mutex_owner c' = Some t" and "lazily_archived_thread c' = None"
    and "thread_state_key c' t = None"
proof -
  let ?c0 = "c\<lparr>active := True\<rparr>"
  have all: "thread_id_key c' t \<noteq> 0 \<and> (\<forall>u. thread_id_key c u \<noteq> 0 \<longrightarrow> thread_id_key c' u \<noteq> 0) \<and>
     mutex_owner c' = Some t \<and> lazily_archived_thread c' = None \<and> thread_state_key c' t = None"
  proof (cases "IsLockedByCurrentThread t ?c0")
    case True
    then have ow: "mutex_owner c = Some t" by (simp add: IsLockedByCurrentThread_def IsSelf_def)
    from r True have a: "AssignId cfg t ?c0 = Inr c'"
      by (auto simp: Locker_ctor_def Let_def split: if_splits sum.splits)
    note A = AssignId_after[OF a d]
    from A o[OF ow] ow show ?thesis by simp
  next
    case False
    with r obtain c1 b c3 c4 where
      1: "ThreadManager_Lock cfg t ?c0 = Inr c1" and
      2: "RestoreThread cfg t (if \<not> running c1 then V8_Initialize_call c1 else c1) = Inr (b, c3)" and
      3: "c4 = (if b then c3 else emit StackGuard_InitThread (emit StackGuard_ClearThread c3))" and
      4: "AssignId cfg t c4 = Inr c'"
      by (auto simp: Locker_ctor_def Let_def split: if_splits sum.splits prod.splits)
    let ?c2 = "if \<not> running c1 then V8_Initialize_call c1 else c1"
    note L = Lock_after[OF 1]
    have ok2: "ids_ok ?c2" using ids_Lock[OF 1] ok by simp
    then obtain fs us where i2: "inv_lists ?c2 fs us" by (rule ids_ok_lists)
    note R = RestoreThread_after[OF i2 2]
    have f2: "mutex_owner ?c2 = Some t" "thread_id_key ?c2 = thread_id_key c"
      using L by (simp_all add: V8_Initialize_call_def emit_def)
    have f4: "mutex_owner c4 = Some t" "thread_id_key c4 = thread_id_key c"
      "lazily_archived_thread c4 = None" "thread_state_key c4 t = None"
      unfolding 3 using R f2 by (simp_all add: same_ids_def emit_def)
    note A = AssignId_after[OF 4 d]
    from A f4 show ?thesis by simp
  qed
  then show "thread_id_key c' t \<noteq> 0" "\<And>u. thread_id_key c u \<noteq> 0 \<Longrightarrow> thread_id_key c' u \<noteq> 0"
    "mutex_owner c' = Some t" "lazily_archived_thread c' = None" "thread_state_key c' t = None"
    by simp_all
qed

lemma release_after:
  assumes ok: "ids_ok c" and own: "mutex_owner c = Some t" and id: "thread_id_key c t \<noteq> 0"
    and r: "ArchiveThread cfg t c = Inr c1" and d: "DEBUG cfg"
  shows "ids_ok (ThreadManager_Unlock t c1)"
    and "mutex_owner (ThreadManager_Unlock t c1) = None"
    and "thread_id_key (ThreadManager_Unlock t c1) = thread_id_key c"
  using ids_ArchiveThread[OF ok r d id] ArchiveThread_after[OF r]
  by (simp_all add: Unlock_after same_ids_def)

lemma guarded_inv:
  assumes "guarded cfg as g"
  shows "guard_inv g"
  using assms
proof (induction rule: guarded.induct)
  case fresh
  show ?case
  proof (rule guard_invI)
    show "ids_ok (manager \<lparr>manager = ThreadManagerData cfg, guards = (\<lambda>_. [])\<rparr>)"
      using ids_initial[of cfg] by simp
  qed (simp_all add: ThreadManagerData_eq empty_context_def Initialize_def)
next
  case (Locker as g t l c')
  note G = guard_invD[OF Locker(3)]
  have o: "\<And>T. mutex_owner (manager g) = Some T \<Longrightarrow>
              lazily_archived_thread (manager g) = None \<and> thread_state_key (manager g) T = None"
    using G(3,4) by blast
  note A = Locker_ctor_after[OF G(1) Locker(2) _ o, simplified]
  have ok: "ids_ok c'" using ids_Locker_ctor[OF G(1) Locker(2)] by simp
  show ?case
  proof (rule guard_invI)
    show "ids_ok (manager (g\<lparr>manager := c', guards := (guards g)(t := Locker_guard l # guards g t)\<rparr>))"
      using ok by simp
  next
    fix T
    assume "mutex_owner (manager (g\<lparr>manager := c',
              guards := (guards g)(t := Locker_guard l # guards g t)\<rparr>)) = Some T"
    then have "T = t" using A(3) by simp
    then show "thread_id_key (manager (g\<lparr>manager := c',
                 guards := (guards g)(t := Locker_guard l # guards g t)\<rparr>)) T \<noteq> 0"
      "lazily_archived_thread (manager (g\<lparr>manager := c',
                 guards := (guards g)(t := Locker_guard l # guards g t)\<rparr>)) = None"
      "thread_state_key (manager (g\<lparr>manager := c',
                 guards := (guards g)(t := Locker_guard l # guards g t)\<rparr>)) T = None"
      using A(1,4,5) by simp_all
  next
    fix T
    assume "guards (g\<lparr>manager := c', guards := (guards g)(t := Locker_guard l # guards g t)\<rparr>) T \<noteq> []"
    then have "T = t \<or> guards g T \<noteq> []" by (auto split: if_splits)
    then show "thread_id_key (manager (g\<lparr>manager := c',
                 guards := (guards g)(t := Locker_guard l # guards g t)\<rparr>)) T \<noteq> 0"
      using A(1) A(2)[OF G(5)] by auto
  qed
next
  case (Locker_end as g t l rest c')
  note G = guard_invD[OF Locker_end(4)]
  from Locker_end(3) have own: "mutex_owner (manager g) = Some t"
    by (auto simp: Locker_dtor_def failed_def IsLockedByCurrentThread_def IsSelf_def
        split: if_splits)
  have f: "ids_ok c' \<and> thread_id_key c' = thread_id_key (manager g) \<and>
           (mutex_owner c' = None \<or> c' = manager g)"
  proof (cases "has_lock l")
    case False
    with Locker_end(3) have "c' = manager g" by (auto simp: Locker_dtor_def split: if_splits)
    with G(1) show ?thesis by simp
  next
    case True
    show ?thesis
    proof (cases "top_level l")
      case top: True
      from Locker_end(3) True top
      have e: "c' = ThreadManager_Unlock t (FreeThreadResources (checked cfg) (manager g))"
        by (auto simp: Locker_dtor_def split: if_splits)
      have "thread_id_key (FreeThreadResources (checked cfg) (manager g)) =
              thread_id_key (manager g)"
        by (simp add: FreeThreadResources_def RegExpStack_FreeThreadResources_def
            ThreadLocal_Free_def emit_def Let_def)
      then show ?thesis using G(1) unfolding e by (simp add: Unlock_after)
    next
      case top: False
      from Locker_end(3) True top obtain c1 where
        a: "ArchiveThread (checked cfg) t (manager g) = Inr c1"
        and c': "c' = ThreadManager_Unlock t c1"
        by (auto simp: Locker_dtor_def split: if_splits sum.splits)
      from release_after[OF G(1) own G(2)[OF own] a] show ?thesis unfolding c' by simp
    qed
  qed
  show ?case
  proof (rule guard_invI)
    show "ids_ok (manager (g\<lparr>manager := c', guards := (guards g)(t := rest)\<rparr>))"
      using f by simp
  next
    fix T
    assume o: "mutex_owner (manager (g\<lparr>manager := c', guards := (guards g)(t := rest)\<rparr>)) = Some T"
    with f have e: "c' = manager g" by auto
    with o have o': "mutex_owner (manager g) = Some T" by simp
    show "thread_id_key (manager (g\<lparr>manager := c', guards := (guards g)(t := rest)\<rparr>)) T \<noteq> 0"
      "lazily_archived_thread (manager (g\<lparr>manager := c', guards := (guards g)(t := rest)\<rparr>)) = None"
      "thread_state_key (manager (g\<lparr>manager := c', guards := (guards g)(t := rest)\<rparr>)) T = None"
      using G(2,3,4)[OF o'] e by simp_all
  next
    fix T
    assume "guards (g\<lparr>manager := c', guards := (guards g)(t := rest)\<rparr>) T \<noteq> []"
    then have "guards g T \<noteq> []" using Locker_end(2) by (auto split: if_splits)
    from G(5)[OF this] show "thread_id_key (manager (g\<lparr>manager := c',
        guards := (guards g)(t := rest)\<rparr>)) T \<noteq> 0"
      using f by simp
  qed
next
  case (Unlocker as g t c')
  note G = guard_invD[OF Unlocker(3)]
  from Unlocker(2) have own: "mutex_owner (manager g) = Some t"
    by (auto simp: Unlocker_ctor_def failed_def IsLockedByCurrentThread_def IsSelf_def
        split: if_splits)
  from Unlocker(2) obtain c1 where
    a: "ArchiveThread (checked cfg) t (manager g) = Inr c1"
    and c': "c' = ThreadManager_Unlock t c1"
    by (auto simp: Unlocker_ctor_def split: if_splits sum.splits)
  have R: "ids_ok c'" "mutex_owner c' = None" "thread_id_key c' = thread_id_key (manager g)"
    unfolding c' by (rule release_after[OF G(1) own G(2)[OF own] a]; simp)+
  show ?case
  proof (rule guard_invI)
    show "ids_ok (manager (g\<lparr>manager := c', guards := (guards g)(t := Unlocker_guard # guards g t)\<rparr>))"
      using R(1) by simp
  next
    fix T
    assume "mutex_owner (manager (g\<lparr>manager := c',
              guards := (guards g)(t := Unlocker_guard # guards g t)\<rparr>)) = Some T"
    with R(2) have False by simp
    then show "thread_id_key (manager (g\<lparr>manager := c',
                 guards := (guards g)(t := Unlocker_guard # guards g t)\<rparr>)) T \<noteq> 0"
      "lazily_archived_thread (manager (g\<lparr>manager := c',
                 guards := (guards g)(t := Unlocker_guard # guards g t)\<rparr>)) = None"
      "thread_state_key (manager (g\<lparr>manager := c',
                 guards := (guards g)(t := Unlocker_guard # guards g t)\<rparr>)) T = None"
      by simp_all
  next
    fix T
    assume "guards (g\<lparr>manager := c', guards := (guards g)(t := Unlocker_guard # guards g t)\<rparr>) T \<noteq> []"
    then have "T = t \<or> guards g T \<noteq> []" by (auto split: if_splits)
    then show "thread_id_key (manager (g\<lparr>manager := c',
                 guards := (guards g)(t := Unlocker_guard # guards g t)\<rparr>)) T \<noteq> 0"
      using G(2)[OF own] G(5) R(3) by auto
  qed
next
  case (Unlocker_end as g t rest c')
  note G = guard_invD[OF Unlocker_end(4)]
  from Unlocker_end(3) obtain c1 b where 1: "ThreadManager_Lock (checked cfg) t (manager g) = Inr c1"
    and 2: "RestoreThread (checked cfg) t c1 = Inr (b, c')"
    by (auto simp: Unlocker_dtor_def split: if_splits sum.splits prod.splits)
  note L = Lock_after[OF 1]
  have ok1: "ids_ok c1" using ids_Lock[OF 1] G(1) by simp
  then obtain fs us where i1: "inv_lists c1 fs us" by (rule ids_ok_lists)
  note R = RestoreThread_after[OF i1 2]
  have ok: "ids_ok c'" by (rule ids_RestoreThread[OF ok1 2])
  have f: "mutex_owner c' = Some t" "thread_id_key c' = thread_id_key (manager g)"
    using R(1) L by (simp_all add: same_ids_def)
  have idt: "thread_id_key (manager g) t \<noteq> 0" using G(5)[of t] Unlocker_end(2) by simp
  show ?case
  proof (rule guard_invI)
    show "ids_ok (manager (g\<lparr>manager := c', guards := (guards g)(t := rest)\<rparr>))"
      using ok by simp
  next
    fix T
    assume "mutex_owner (manager (g\<lparr>manager := c', guards := (guards g)(t := rest)\<rparr>)) = Some T"
    then have "T = t" using f by simp
    then show "thread_id_key (manager (g\<lparr>manager := c', guards := (guards g)(t := rest)\<rparr>)) T \<noteq> 0"
      "lazily_archived_thread (manager (g\<lparr>manager := c', guards := (guards g)(t := rest)\<rparr>)) = None"
      "thread_state_key (manager (g\<lparr>manager := c', guards := (guards g)(t := rest)\<rparr>)) T = None"
      using f idt R(2,3) by simp_all
  next
    fix T
    assume "guards (g\<lparr>manager := c', guards := (guards g)(t := rest)\<rparr>) T \<noteq> []"
    then have "guards g T \<noteq> []" using Unlocker_end(2) by (auto split: if_splits)
    from G(5)[OF this] show "thread_id_key (manager (g\<lparr>manager := c',
        guards := (guards g)(t := rest)\<rparr>)) T \<noteq> 0"
      using f by simp
  qed
next
  case (Terminate as g thread_id c')
  note G = guard_invD[OF Terminate(3)]
  from G(1) obtain fs us where i: "inv_lists (manager g) fs us" by (rule ids_ok_lists)
  from Terminate(2) have c': "c' = (manager g)\<lparr>heap := flagged thread_id us (heap (manager g))\<rparr>"
    unfolding TerminateExecution_eq[OF inv_listsD(2)[OF i]] by simp
  have ok: "ids_ok c'" by (rule ids_TerminateExecution[OF G(1) Terminate(2)])
  show ?case
    using ok G(2,3,4,5) by (intro guard_invI) (simp_all add: c')
qed

subsection \<open>Termination requests owed\<close>

lemma pending_card:
  "pending_terminations c = card {a. a < allocated c \<and> terminate_on_restore (heap c a)}"
proof -
  have "{i. i < length [0..<allocated c] \<and> terminate_on_restore (heap c ([0..<allocated c] ! i))} =
        {a. a < allocated c \<and> terminate_on_restore (heap c a)}"
    by auto
  then show ?thesis
    unfolding pending_terminations_def length_filter_conv_card by simp
qed

lemma pending_cong:
  assumes "allocated c' = allocated c"
    and "\<And>a. terminate_on_restore (heap c' a) = terminate_on_restore (heap c a)"
  shows "pending_terminations c' = pending_terminations c"
  unfolding pending_card assms ..

lemma pending_clear:
  assumes "allocated c' = allocated c" and "a < allocated c"
    and "\<And>b. terminate_on_restore (heap c' b) = (b \<noteq> a \<and> terminate_on_restore (heap c b))"
  shows "pending_terminations c' + (if terminate_on_restore (heap c a) then 1 else 0) =
         pending_terminations c"
proof -
  let ?F = "{b. b < allocated c \<and> terminate_on_restore (heap c b)}"
  have fin: "finite ?F" by simp
  have e: "{b. b < allocated c' \<and> terminate_on_restore (heap c' b)} = ?F - {a}"
    unfolding assms(1,3) by auto
  show ?thesis
  proof (cases "terminate_on_restore (heap c a)")
    case True
    then have "a \<in> ?F" using assms(2) by simp
    then have "card (?F - {a}) + 1 = card ?F"
      using card.remove[OF fin, of a] by simp
    then show ?thesis unfolding pending_card e using True by simp
  next
    case False
    then have "?F - {a} = ?F" by auto
    then show ?thesis unfolding pending_card e using False by simp
  qed
qed

lemma pending_set:
  assumes "allocated c' = allocated c"
    and "\<And>b. terminate_on_restore (heap c' b) = (b = a \<or> terminate_on_restore (heap c b))"
  shows "pending_terminations c' \<le> pending_terminations c + 1"
proof -
  let ?F = "{b. b < allocated c \<and> terminate_on_restore (heap c b)}"
  have "{b. b < allocated c' \<and> terminate_on_restore (heap c' b)} \<subseteq> insert a ?F"
    unfolding assms by auto
  then have "card {b. b < allocated c' \<and> terminate_on_restore (heap c' b)} \<le> card (insert a ?F)"
    by (intro card_mono) simp_all
  also have "\<dots> \<le> card ?F + 1" by (simp add: card_insert_le_m1)
  finally show ?thesis unfolding pending_card .
qed

lemma owed_cong:
  assumes "allocated c' = allocated c"
    and "\<And>a. terminate_on_restore (heap c' a) = terminate_on_restore (heap c a)"
    and "termination_requests c' = termination_requests c"
  shows "owed c' = owed c"
  unfolding owed_def pending_cong[OF assms(1,2)] assms(3) ..

lemma termination_requests_emit:
  "e \<noteq> StackGuard_TerminateExecution \<Longrightarrow> termination_requests (emit e c) = termination_requests c"
  by (simp add: termination_requests_def emit_def)

lemma owed_emit [simp]:
  "e \<noteq> StackGuard_TerminateExecution \<Longrightarrow> owed (emit e c) = owed c"
  by (rule owed_cong) (simp_all add: termination_requests_emit, simp_all add: emit_def)

lemma owed_Lock: "ThreadManager_Lock cfg t c = Inr c' \<Longrightarrow> owed c' = owed c"
  by (rule owed_cong)
     (auto simp: ThreadManager_Lock_def Mutex_Lock_def record_owner_def Let_def
        termination_requests_def split: if_splits)

lemma owed_Unlock [simp]: "owed (ThreadManager_Unlock t c) = owed c"
  by (rule owed_cong)
     (simp_all add: ThreadManager_Unlock_def Mutex_Unlock_def clear_owner_def
        termination_requests_def)

lemma owed_FreeThreadResources [simp]: "owed (FreeThreadResources cfg c) = owed c"
  by (rule owed_cong)
     (simp_all add: FreeThreadResources_def RegExpStack_FreeThreadResources_def
        ThreadLocal_Free_def emit_def Let_def termination_requests_def)

lemma owed_V8_Initialize_call [simp]: "owed (V8_Initialize_call c) = owed c"
  by (rule owed_cong) (simp_all add: V8_Initialize_call_def emit_def termination_requests_def)

lemma owed_active [simp]: "owed (c\<lparr>active := v\<rparr>) = owed c"
  by (rule owed_cong) (simp_all add: termination_requests_def)

lemma owed_AssignId: "AssignId cfg t c = Inr c' \<Longrightarrow> owed c' = owed c"
  by (rule owed_cong)
     (auto simp: AssignId_def emit_def Let_def termination_requests_def split: if_splits)

lemma owed_ArchiveThread:
  assumes "ArchiveThread cfg t c = Inr c'"
  shows "owed c' = owed c"
proof -
  have c': "c' = archive_result cfg t c" by (rule ArchiveThread_Inr[OF assms])
  have t: "termination_requests c' = termination_requests c"
    unfolding c' by (simp add: archive_result_def Let_def termination_requests_def)
  show ?thesis
  proof (cases "next_state (heap c (free_anchor c)) = free_anchor c")
    case False
    show ?thesis
      by (rule owed_cong[OF _ _ t]) (simp_all add: c' archive_result_def Let_def False)
  next
    case True
    have a: "allocated c' = Suc (allocated c)"
      and f: "\<And>b. terminate_on_restore (heap c' b) =
                  (b \<noteq> allocated c \<and> terminate_on_restore (heap c b))"
      unfolding c' by (simp_all add: archive_result_def Let_def True)
    have "{b. b < allocated c' \<and> terminate_on_restore (heap c' b)} =
          {b. b < allocated c \<and> terminate_on_restore (heap c b)}"
      unfolding a f by auto
    then show ?thesis unfolding owed_def pending_card t by simp
  qed
qed

lemma owed_EagerlyArchiveThread:
  assumes "EagerlyArchiveThread cfg c = Inr c'"
  shows "owed c' = owed c"
proof -
  from assms obtain a where a: "lazily_archived_thread_state c = Some a"
    by (cases "lazily_archived_thread_state c") (auto simp: EagerlyArchiveThread_def)
  from assms have c': "c' = c\<lparr>heap := (link_heap a (in_use_anchor c) (heap c))
                (a := (link_heap a (in_use_anchor c) (heap c) a)
                   \<lparr>data := archive_image cfg c (registration_order cfg) 0 (data (heap c a))\<rparr>),
           trace := trace c @ map Archive (registration_order cfg),
           thread_local := ThreadLocal_default cfg,
           lazily_archived_thread := None,
           lazily_archived_thread_state := None\<rparr>"
    unfolding EagerlyArchiveThread_eq[OF a] by simp
  show ?thesis
    by (rule owed_cong) (simp_all add: c' termination_requests_def)
qed

lemma owed_RestoreThread:
  assumes i: "inv_lists c fs us" and r: "RestoreThread cfg t c = Inr (b, c')"
  shows "owed c' = owed c"
proof -
  have rest: "owed c' = owed d"
    if l: "lazily_archived_thread d = None" and i: "inv_lists d fs' us'"
      and r: "RestoreThread cfg t d = Inr (b, c')" for d fs' us'
  proof (cases "thread_state_key d t")
    case None
    from r have "c' = emit StackGuard_InitThread d"
      unfolding RestoreThread_new_eq[OF l None] by simp
    then show ?thesis by simp
  next
    case (Some a)
    note D = inv_listsD[OF i]
    have "a \<in> set us'" using D(7)[OF Some] l by simp
    then have al: "a < allocated d" using D(4) by auto
    from r have c': "c' = d\<lparr>heap := link_heap a (free_anchor d) (unlink_heap a
               ((heap d)(a := (heap d a)\<lparr>terminate_on_restore := False, state_id := kInvalidId cfg\<rparr>))),
            live := fst (restore_image cfg (registration_order cfg) 0 (data (heap d a)) (live d, thread_local d)),
            thread_local := snd (restore_image cfg (registration_order cfg) 0 (data (heap d a)) (live d, thread_local d)),
            trace := trace d @ map Restore (registration_order cfg) @
                     (if terminate_on_restore (heap d a) then [StackGuard_TerminateExecution] else []),
            thread_state_key := (thread_state_key d)(t := None)\<rparr>"
      unfolding RestoreThread_archived_eq[OF l Some] by simp
    have f1: "allocated c' = allocated d" unfolding c' by simp
    have f2: "terminate_on_restore (heap c' x) = (x \<noteq> a \<and> terminate_on_restore (heap d x))"
      for x unfolding c' by simp
    have f3: "termination_requests c' =
         termination_requests d + (if terminate_on_restore (heap d a) then 1 else 0)"
      unfolding c' by (simp add: termination_requests_def)
    note f = f1 f2 f3
    from pending_clear[OF f(1) al f(2)] f(3) show ?thesis unfolding owed_def by simp
  qed
  note D = inv_listsD[OF i]
  show ?thesis
  proof (cases "lazily_archived_thread c")
    case None
    from rest[OF None i r] show ?thesis .
  next
    case (Some u)
    from D(5) Some obtain a where ls: "lazily_archived_thread_state c = Some a"
      by (cases "lazily_archived_thread_state c") auto
    show ?thesis
    proof (cases "u = t")
      case True
      with Some have lt: "lazily_archived_thread c = Some t" by simp
      have ka: "thread_state_key c t = Some a" using D(6)[OF lt] ls by simp
      from r have c': "c' = c\<lparr>heap := link_heap a (free_anchor c)
              ((heap c)(a := (heap c a)\<lparr>state_id := kInvalidId cfg\<rparr>)),
            lazily_archived_thread := None,
            lazily_archived_thread_state := None,
            thread_state_key := (thread_state_key c)(t := None)\<rparr>"
        unfolding RestoreThread_lazy_eq[OF lt ls ka] by simp
      show ?thesis
        by (rule owed_cong) (simp_all add: c' termination_requests_def)
    next
      case False
      from r obtain c1 where e: "EagerlyArchiveThread cfg c = Inr c1"
        and r1: "RestoreThread cfg t c1 = Inr (b, c')"
        unfolding RestoreThread_forces_eager[OF Some False] by (auto split: sum.splits)
      note E = EagerlyArchiveThread_after[OF e]
      from rest[OF E(2) inv_eager[OF i ls e] r1] owed_EagerlyArchiveThread[OF e]
      show ?thesis by simp
    qed
  qed
qed

lemma owed_Locker_ctor:
  assumes "inv_lists c fs us" and "Locker_ctor cfg t c = Inr (l, c')"
  shows "owed c' = owed c"
proof (cases "IsLockedByCurrentThread t (c\<lparr>active := True\<rparr>)")
  case True
  with assms(2) have "AssignId cfg t (c\<lparr>active := True\<rparr>) = Inr c'"
    by (auto simp: Locker_ctor_def Let_def split: if_splits sum.splits)
  from owed_AssignId[OF this] show ?thesis by simp
next
  case False
  with assms(2) obtain c1 b c3 c4 where
    1: "ThreadManager_Lock cfg t (c\<lparr>active := True\<rparr>) = Inr c1" and
    2: "RestoreThread cfg t (if \<not> running c1 then V8_Initialize_call c1 else c1) = Inr (b, c3)" and
    3: "c4 = (if b then c3 else emit StackGuard_InitThread (emit StackGuard_ClearThread c3))" and
    4: "AssignId cfg t c4 = Inr c'"
    by (auto simp: Locker_ctor_def Let_def split: if_splits sum.splits prod.splits)
  let ?c2 = "if \<not> running c1 then V8_Initialize_call c1 else c1"
  have "consistent c" using assms(1) unfolding consistent_def by blast
  then have "consistent ?c2" using inv_Lock[OF 1] by simp
  then obtain fs2 us2 where i2: "inv_lists ?c2 fs2 us2" unfolding consistent_def by blast
  have "owed ?c2 = owed c" using owed_Lock[OF 1] by simp
  moreover have "owed c3 = owed ?c2" by (rule owed_RestoreThread[OF i2 2])
  moreover have "owed c4 = owed c3" unfolding 3 by simp
  moreover have "owed c' = owed c4" by (rule owed_AssignId[OF 4])
  ultimately show ?thesis by simp
qed

lemma owed_Locker_dtor:
  assumes "Locker_dtor cfg t l c = Inr c'"
  shows "owed c' = owed c"
  using assms owed_ArchiveThread[of cfg t c]
  by (auto simp: Locker_dtor_def split: if_splits sum.splits)

lemma owed_Unlocker_ctor:
  assumes "Unlocker_ctor cfg t c = Inr c'"
  shows "owed c' = owed c"
  using assms owed_ArchiveThread[of cfg t c]
  by (auto simp: Unlocker_ctor_def split: if_splits sum.splits)

lemma owed_Unlocker_dtor:
  assumes "inv_lists c fs us" and "Unlocker_dtor cfg t c = Inr c'"
  shows "owed c' = owed c"
proof -
  from assms(2) obtain c1 b where 1: "ThreadManager_Lock cfg t c = Inr c1"
    and 2: "RestoreThread cfg t c1 = Inr (b, c')"
    by (auto simp: Unlocker_dtor_def split: if_splits sum.splits prod.splits)
  have "consistent c" using assms(1) unfolding consistent_def by blast
  then have "consistent c1" using inv_Lock[OF 1] by simp
  then obtain fs1 us1 where i1: "inv_lists c1 fs1 us1" unfolding consistent_def by blast
  from owed_RestoreThread[OF i1 2] owed_Lock[OF 1] show ?thesis by simp
qed

lemma TerminateExecution_flags_one:
  assumes i: "inv_lists c fs us" and o: "owners c us"
  shows "\<exists>c'. TerminateExecution thread_id c = Some c' \<and>
           termination_requests c' = termination_requests c \<and>
           (c' = c \<or>
            (\<exists>a. a \<in> set us \<and> state_id (heap c a) = thread_id \<and>
               c' = c\<lparr>heap := (heap c)(a := (heap c a)\<lparr>terminate_on_restore := True\<rparr>)\<rparr>))"
proof -
  note e = TerminateExecution_eq[OF inv_listsD(2)[OF i], of thread_id]
  have t: "termination_requests (c\<lparr>heap := h\<rparr>) = termination_requests c" for h
    by (simp add: termination_requests_def)
  show ?thesis
  proof (cases "\<exists>a\<in>set us. state_id (heap c a) = thread_id")
    case False
    then have "flagged thread_id us (heap c) = heap c"
      by (auto simp: flagged_def fun_eq_iff)
    then have "TerminateExecution thread_id c = Some c" using e by simp
    then show ?thesis by blast
  next
    case True
    then obtain a where a: "a \<in> set us" "state_id (heap c a) = thread_id" by blast
    have u: "b = a" if "b \<in> set us" "state_id (heap c b) = thread_id" for b
      using owners_distinct_ids[OF i o that(1) a(1)] that(2) a(2) by simp
    have "flagged thread_id us (heap c) =
                 (heap c)(a := (heap c a)\<lparr>terminate_on_restore := True\<rparr>)"
    proof (rule ext)
      fix x
      show "flagged thread_id us (heap c) x =
              ((heap c)(a := (heap c a)\<lparr>terminate_on_restore := True\<rparr>)) x"
      proof (cases "x = a")
        case True
        then show ?thesis using a by (simp add: flagged_def)
      next
        case False
        then have "\<not> (x \<in> set us \<and> state_id (heap c x) = thread_id)" using u[of x] by blast
        then have "flagged thread_id us (heap c) x = heap c x"
          unfolding flagged_def by (rule if_not_P)
        then show ?thesis using False by simp
      qed
    qed
    with e have 1: "TerminateExecution thread_id c =
                 Some (c\<lparr>heap := (heap c)(a := (heap c a)\<lparr>terminate_on_restore := True\<rparr>)\<rparr>)"
      by (simp only:)
    show ?thesis
      apply (rule exI[of _ "c\<lparr>heap := (heap c)(a := (heap c a)\<lparr>terminate_on_restore := True\<rparr>)\<rparr>"])
      apply (intro conjI)
        apply (rule 1)
       apply (rule t)
      apply (rule disjI2)
      apply (rule exI[of _ a])
      apply (intro conjI a refl)
      done
  qed
qed

lemma owed_TerminateExecution:
  assumes i: "inv_lists c fs us" and o: "owners c us"
    and r: "TerminateExecution thread_id c = Some c'"
  shows "owed c' \<le> owed c + 1"
proof -
  from TerminateExecution_flags_one[OF i o, of thread_id] obtain c2 where
    t: "TerminateExecution thread_id c = Some c2"
    and q: "termination_requests c2 = termination_requests c"
    and d: "c2 = c \<or> (\<exists>a. a \<in> set us \<and> state_id (heap c a) = thread_id \<and>
               c2 = c\<lparr>heap := (heap c)(a := (heap c a)\<lparr>terminate_on_restore := True\<rparr>)\<rparr>)"
    by blast
  from r t have e: "c2 = c'" by simp
  from d show ?thesis
  proof
    assume "c2 = c"
    with e show ?thesis by simp
  next
    assume "\<exists>a. a \<in> set us \<and> state_id (heap c a) = thread_id \<and>
               c2 = c\<lparr>heap := (heap c)(a := (heap c a)\<lparr>terminate_on_restore := True\<rparr>)\<rparr>"
    then obtain a where
      c2: "c2 = c\<lparr>heap := (heap c)(a := (heap c a)\<lparr>terminate_on_restore := True\<rparr>)\<rparr>"
      by blast
    have "pending_terminations c2 \<le> pending_terminations c + 1"
      by (rule pending_set[where a = a]) (simp_all add: c2)
    with q show ?thesis unfolding owed_def e[symmetric] by simp
  qed
qed

lemma terminate_calls_simps [simp]:
  "terminate_calls [] = 0"
  "terminate_calls (as @ [Terminate i]) = Suc (terminate_calls as)"
  "terminate_calls (as @ [Construct_Locker t]) = terminate_calls as"
  "terminate_calls (as @ [Destroy_Locker t]) = terminate_calls as"
  "terminate_calls (as @ [Construct_Unlocker t]) = terminate_calls as"
  "terminate_calls (as @ [Destroy_Unlocker t]) = terminate_calls as"
  by (simp_all add: terminate_calls_def)

lemma guarded_owed:
  assumes "guarded cfg as g"
  shows "owed (manager g) \<le> terminate_calls as"
  using assms
proof (induction rule: guarded.induct)
  case fresh
  show ?case
    by (simp add: owed_def termination_requests_def pending_terminations_def
        ThreadManagerData_eq empty_context_def upt_rec)
next
  case (Locker as g t l c')
  from reachable_lists[OF guarded_reachable[OF Locker(1)]] obtain fs us
    where i: "inv_lists (manager g) fs us" by blast
  from owed_Locker_ctor[OF i Locker(2)] Locker(3) show ?case by simp
next
  case (Locker_end as g t l rest c')
  from owed_Locker_dtor[OF Locker_end(3)] Locker_end(4) show ?case by simp
next
  case (Unlocker as g t c')
  from owed_Unlocker_ctor[OF Unlocker(2)] Unlocker(3) show ?case by simp
next
  case (Unlocker_end as g t rest c')
  from reachable_lists[OF guarded_reachable[OF Unlocker_end(1)]] obtain fs us
    where i: "inv_lists (manager g) fs us" by blast
  from owed_Unlocker_dtor[OF i Unlocker_end(3)] Unlocker_end(4) show ?case by simp
next
  case (Terminate as g thread_id c')
  from guard_invD(1)[OF guarded_inv[OF Terminate(1)]] obtain fs us
    where i: "inv_lists (manager g) fs us" and o: "owners (manager g) us"
    by (rule ids_ok_lists)
  from owed_TerminateExecution[OF i o Terminate(2)] Terminate(3) show ?case by simp
qed

subsection \<open>Forcing the eager archive\<close>

lemma guarded_unlocked:
  "guarded example_config [Construct_Locker 101, Construct_Unlocker 101] unlocked_embedder"
proof -
  let ?g0 = "\<lparr>manager = ThreadManagerData example_config, guards = (\<lambda>_. [])\<rparr>"
  let ?l = "\<lparr>has_lock = True, top_level = True\<rparr>"
  have 1: "Locker_ctor (checked example_config) 101 (manager ?g0) = Inr (?l, after_Locker)"
    by (simp add: example_config_simps after_Locker_eq after_Locker_simp)
  let ?g1 = "?g0\<lparr>manager := after_Locker, guards := (guards ?g0)(101 := Locker_guard ?l # guards ?g0 101)\<rparr>"
  have g1: "guarded example_config ([] @ [Construct_Locker 101]) ?g1"
    by (rule guarded.Locker[OF guarded.fresh 1])
  have 2: "Unlocker_ctor (checked example_config) 101 (manager ?g1) = Inr after_Unlocker"
    by (simp add: example_config_simps after_Unlocker_def Unlocker_ctor_example)
  have "guarded example_config (([] @ [Construct_Locker 101]) @ [Construct_Unlocker 101])
          (?g1\<lparr>manager := after_Unlocker,
               guards := (guards ?g1)(101 := Unlocker_guard # guards ?g1 101)\<rparr>)"
    by (rule guarded.Unlocker[OF g1 2])
  then show ?thesis by (simp add: unlocked_embedder_def)
qed

lemma second_Locker_result:
  "Locker_ctor (checked example_config) 102 after_Unlocker =
     Inr (\<lparr>has_lock = True, top_level = True\<rparr>, after_second_Locker)"
proof -
  from second_Locker_example obtain c2 where
    "Locker_ctor example_config 102 after_Unlocker =
       Inr (\<lparr>has_lock = True, top_level = True\<rparr>, c2)"
    by blast
  then show ?thesis by (simp add: after_second_Locker_def example_config_simps)
qed

lemma guarded_relocked:
  "guarded example_config [Construct_Locker 101, Construct_Unlocker 101, Construct_Locker 102]
     relocked_embedder"
proof -
  let ?l = "\<lparr>has_lock = True, top_level = True\<rparr>"
  have 1: "Locker_ctor (checked example_config) 102 (manager unlocked_embedder) =
             Inr (?l, after_second_Locker)"
    using second_Locker_result by (simp add: unlocked_embedder_def)
  have "guarded example_config ([Construct_Locker 101, Construct_Unlocker 101] @ [Construct_Locker 102])
          (unlocked_embedder\<lparr>manager := after_second_Locker,
             guards := (guards unlocked_embedder)(102 := Locker_guard ?l # guards unlocked_embedder 102)\<rparr>)"
    by (rule guarded.Locker[OF guarded_unlocked 1])
  moreover have "guards unlocked_embedder 102 = []" by (simp add: unlocked_embedder_def)
  ultimately show ?thesis by (simp add: relocked_embedder_def)
qed

lemma guarded_terminated:
  "guarded example_config
     [Construct_Locker 101, Construct_Unlocker 101, Construct_Locker 102, Terminate 1]
     terminated_embedder"
proof -
  have 1: "TerminateExecution 1 (manager relocked_embedder) = Some after_Terminate"
    using after_Terminate_eq(1) by (simp add: relocked_embedder_def)
  from guarded.Terminate[OF guarded_relocked 1] show ?thesis
    by (simp add: terminated_embedder_def)
qed

text \<open>
  Claim C7. In every run of the guards: while thread \<open>T\<close> is the pending lazy candidate,
  \<^verbatim>\<open>RestoreThread\<close> by another thread \<open>U\<close> first runs \<^verbatim>\<open>EagerlyArchiveThread\<close>, so that
  \<open>T\<close>'s state becomes the head of the in-use list, every subsystem is archived into its
  buffer in registration order and the slot is cleared, and the restore of \<open>U\<close> goes on
  from that context. A thread takes the lock only in \<^verbatim>\<open>Locker()\<close> and \<^verbatim>\<open>~Unlocker()\<close>, which
  restore at once; so whenever a thread holds the lock no candidate is pending and the
  state of every archived thread is in the in-use list. The guards enter
  \<^verbatim>\<open>ArchiveThread\<close>, in \<^verbatim>\<open>Unlocker()\<close> and \<^verbatim>\<open>~Locker()\<close>, only while holding the lock: when
  the \<^verbatim>\<open>ArchiveThread\<close> of \<open>U\<close> proceeds, the state of \<open>T\<close> has been committed.
\<close>
theorem forced_eager_archive:
  assumes "guarded cfg as g"
  shows "(\<forall>T U. lazily_archived_thread (manager g) = Some T \<longrightarrow> U \<noteq> T \<longrightarrow>
           (\<exists>a us c1.
              lazily_archived_thread_state (manager g) = Some a \<and>
              thread_state_key (manager g) T = Some a \<and>
              in_use_list (manager g) = Some us \<and> a \<notin> set us \<and>
              EagerlyArchiveThread cfg (manager g) = Inr c1 \<and>
              RestoreThread cfg U (manager g) = RestoreThread cfg U c1 \<and>
              in_use_list c1 = Some (a # us) \<and>
              trace c1 = trace (manager g) @ map Archive (registration_order cfg) \<and>
              data (heap c1 a) =
                archive_image cfg (manager g) (registration_order cfg) 0 (data (heap (manager g) a)) \<and>
              lazily_archived_thread c1 = None \<and> lazily_archived_thread_state c1 = None)) \<and>
         (\<forall>U. IsLockedByCurrentThread U (manager g) \<longrightarrow>
            lazily_archived_thread (manager g) = None \<and>
            (\<exists>us. in_use_list (manager g) = Some us \<and>
                  (\<forall>T a. thread_state_key (manager g) T = Some a \<longrightarrow> a \<in> set us))) \<and>
         (\<forall>U c'. Unlocker_ctor (checked cfg) U (manager g) = Inr c' \<longrightarrow>
            IsLockedByCurrentThread U (manager g)) \<and>
         (\<forall>U l c'. Locker_dtor (checked cfg) U l (manager g) = Inr c' \<longrightarrow>
            IsLockedByCurrentThread U (manager g))"
proof -
  let ?c = "manager g"
  from reachable_lists[OF guarded_reachable[OF assms]] obtain fs us
    where i: "inv_lists ?c fs us" and u: "in_use_list ?c = Some us" by blast
  note D = inv_listsD[OF i]
  note G = guard_invD[OF guarded_inv[OF assms]]
  have 1: "\<exists>a us c1.
              lazily_archived_thread_state ?c = Some a \<and>
              thread_state_key ?c T = Some a \<and>
              in_use_list ?c = Some us \<and> a \<notin> set us \<and>
              EagerlyArchiveThread cfg ?c = Inr c1 \<and>
              RestoreThread cfg U ?c = RestoreThread cfg U c1 \<and>
              in_use_list c1 = Some (a # us) \<and>
              trace c1 = trace ?c @ map Archive (registration_order cfg) \<and>
              data (heap c1 a) =
                archive_image cfg ?c (registration_order cfg) 0 (data (heap ?c a)) \<and>
              lazily_archived_thread c1 = None \<and> lazily_archived_thread_state c1 = None"
    if lt: "lazily_archived_thread ?c = Some T" and ne: "U \<noteq> T" for T U
  proof -
    from D(5) lt obtain a where ls: "lazily_archived_thread_state ?c = Some a" by auto
    have k: "thread_state_key ?c T = Some a" using D(6)[OF lt] ls by simp
    have na: "a \<notin> set us" using D(3) ls by (simp add: lazy_list_def)
    obtain c1 where e: "EagerlyArchiveThread cfg ?c = Inr c1"
      using EagerlyArchiveThread_eq[OF ls] by blast
    have r: "RestoreThread cfg U ?c = RestoreThread cfg U c1"
      using RestoreThread_forces_eager[OF lt, of U cfg] ne e by simp
    have i1: "inv_lists c1 fs (a # us)" by (rule inv_eager[OF i ls e])
    have f: "trace c1 = trace ?c @ map Archive (registration_order cfg)"
      "data (heap c1 a) = archive_image cfg ?c (registration_order cfg) 0 (data (heap ?c a))"
      "lazily_archived_thread c1 = None" "lazily_archived_thread_state c1 = None"
      using e unfolding EagerlyArchiveThread_eq[OF ls] by auto
    from ls k u na e r inv_lists_walk(2)[OF i1] f show ?thesis by blast
  qed
  have 2: "lazily_archived_thread ?c = None \<and>
            (\<exists>us. in_use_list ?c = Some us \<and>
                  (\<forall>T a. thread_state_key ?c T = Some a \<longrightarrow> a \<in> set us))"
    if "IsLockedByCurrentThread U ?c" for U
  proof -
    from that have o: "mutex_owner ?c = Some U"
      by (simp add: IsLockedByCurrentThread_def IsSelf_def)
    have n: "lazily_archived_thread ?c = None" by (rule G(3)[OF o])
    have "\<forall>T a. thread_state_key ?c T = Some a \<longrightarrow> a \<in> set us"
      using D(7) n by auto
    with n u show ?thesis by blast
  qed
  have 3: "IsLockedByCurrentThread U ?c" if "Unlocker_ctor (checked cfg) U ?c = Inr c'" for U c'
    using that by (auto simp: Unlocker_ctor_def failed_def split: if_splits)
  have 4: "IsLockedByCurrentThread U ?c" if "Locker_dtor (checked cfg) U l ?c = Inr c'" for U l c'
    using that by (auto simp: Locker_dtor_def failed_def split: if_splits)
  show ?thesis
    apply (intro conjI allI impI)
       apply (rule 1; assumption)
      apply (rule 2[THEN conjunct1]; assumption)
     apply (rule 2[THEN conjunct2]; assumption)
    apply (rule 3; assumption)
    apply (rule 4; assumption)
    done
qed

text \<open>
  The theorem at the example: thread 101 is pending after its \<^verbatim>\<open>Unlocker()\<close>; the restore
  of thread 102 commits state 2; and once thread 102 holds the lock nothing is pending and
  state 2, of thread 101, is in the in-use list.
\<close>
theorem forced_eager_archive_witness:
  "guarded example_config [Construct_Locker 101, Construct_Unlocker 101] unlocked_embedder \<and>
   lazily_archived_thread (manager unlocked_embedder) = Some 101 \<and> (102 :: thread) \<noteq> 101 \<and>
   (\<exists>c1. EagerlyArchiveThread example_config (manager unlocked_embedder) = Inr c1 \<and>
         RestoreThread example_config 102 (manager unlocked_embedder) =
           RestoreThread example_config 102 c1 \<and>
         in_use_list c1 = Some [2] \<and>
         trace c1 = trace (manager unlocked_embedder) @
                      map Archive (registration_order example_config)) \<and>
   guarded example_config [Construct_Locker 101, Construct_Unlocker 101, Construct_Locker 102]
     relocked_embedder \<and>
   IsLockedByCurrentThread 102 (manager relocked_embedder) \<and>
   lazily_archived_thread (manager relocked_embedder) = None \<and>
   thread_state_key (manager relocked_embedder) 101 = Some 2 \<and>
   in_use_list (manager relocked_embedder) = Some [2]"
proof -
  note A = forced_eager_archive[OF guarded_unlocked, THEN conjunct1, rule_format]
  note B = forced_eager_archive[OF guarded_relocked, THEN conjunct2, THEN conjunct1, rule_format]
  have mu: "manager unlocked_embedder = after_Unlocker" by (simp add: unlocked_embedder_def)
  have 1: "lazily_archived_thread (manager unlocked_embedder) = Some 101"
    and 2: "lazily_archived_thread_state (manager unlocked_embedder) = Some 2"
    unfolding mu by (simp_all add: after_Unlocker_simp)
  have 4: "in_use_list (manager unlocked_embedder) = Some []"
    unfolding mu by (rule after_Unlocker_lists(2))
  have 3: "(102 :: thread) \<noteq> 101" by simp
  from A[OF 1 3] 2 4
  have a: "\<exists>c1. EagerlyArchiveThread example_config (manager unlocked_embedder) = Inr c1 \<and>
         RestoreThread example_config 102 (manager unlocked_embedder) =
           RestoreThread example_config 102 c1 \<and>
         in_use_list c1 = Some [2] \<and>
         trace c1 = trace (manager unlocked_embedder) @
                      map Archive (registration_order example_config)"
    by auto
  have m: "manager relocked_embedder = after_second_Locker" by (simp add: relocked_embedder_def)
  have k: "thread_state_key (manager relocked_embedder) 101 = Some 2"
    unfolding m by (rule after_second_Locker_facts(4))
  have l: "IsLockedByCurrentThread 102 (manager relocked_embedder)"
  proof -
    have ok: "ids_ok after_Unlocker"
      using guard_invD(1)[OF guarded_inv[OF guarded_unlocked]] by (simp add: mu)
    have "mutex_owner after_Unlocker = None" by (simp add: after_Unlocker_simp)
    then have v: "\<And>T. mutex_owner after_Unlocker = Some T \<Longrightarrow>
              lazily_archived_thread after_Unlocker = None \<and> thread_state_key after_Unlocker T = None"
      by simp
    have "mutex_owner after_second_Locker = Some 102"
      by (rule Locker_ctor_after(3)[OF ok second_Locker_result _ v]) simp_all
    then show ?thesis unfolding m by (simp add: IsLockedByCurrentThread_def IsSelf_def)
  qed
  from B[OF l] obtain us where
    b: "lazily_archived_thread (manager relocked_embedder) = None"
    "in_use_list (manager relocked_embedder) = Some us" by blast
  have u: "in_use_list (manager relocked_embedder) = Some [2]"
    unfolding m by (rule inv_lists_walk(2)[OF after_second_Locker_facts(2)])
  show ?thesis
    by (intro conjI guarded_unlocked 1 3 a guarded_relocked l b(1) k u)
qed

subsection \<open>Terminating execution on restore\<close>

text \<open>
  Claim C10. In every reachable context, when a thread that is not the pending lazy
  candidate restores its archived state, the restore returns true, asks the stack guard
  to terminate execution exactly once if the state's flag is set and not at all
  otherwise, and leaves the state at the head of the free list with the flag clear and
  the id invalid. \<^verbatim>\<open>TerminateExecution\<close> with an id that no state of the in-use list
  carries returns the context unchanged. In every run of the guards, where a thread has
  its id before it archives, a call of \<^verbatim>\<open>TerminateExecution\<close> issues no request itself
  and sets the flag of at most one state; and the requests issued so far together with the
  flags still set never exceed the calls made, so each call causes at most one
  termination request.
\<close>
theorem terminate_on_restore_one_shot:
  assumes "reachable cfg c"
  shows "(\<forall>T a. lazily_archived_thread c \<noteq> Some T \<longrightarrow> thread_state_key c T = Some a \<longrightarrow>
            (\<exists>c' fs. RestoreThread cfg T c = Inr (True, c') \<and>
               termination_requests c' =
                 termination_requests c + (if terminate_on_restore (heap c a) then 1 else 0) \<and>
               \<not> terminate_on_restore (heap c' a) \<and> state_id (heap c' a) = kInvalidId cfg \<and>
               free_list c' = Some (a # fs))) \<and>
         (\<forall>thread_id us. in_use_list c = Some us \<longrightarrow>
            (\<forall>b \<in> set us. state_id (heap c b) \<noteq> thread_id) \<longrightarrow>
            TerminateExecution thread_id c = Some c) \<and>
         (\<forall>as g. guarded cfg as g \<longrightarrow> manager g = c \<longrightarrow>
            (\<forall>thread_id. \<exists>c'. TerminateExecution thread_id c = Some c' \<and>
               termination_requests c' = termination_requests c \<and>
               (c' = c \<or>
                (\<exists>us a. in_use_list c = Some us \<and> a \<in> set us \<and>
                   state_id (heap c a) = thread_id \<and>
                   c' = c\<lparr>heap := (heap c)(a := (heap c a)\<lparr>terminate_on_restore := True\<rparr>)\<rparr>))) \<and>
            termination_requests c + pending_terminations c \<le> terminate_calls as)"
proof -
  from assms obtain fs us where i: "inv_lists c fs us" and u: "in_use_list c = Some us"
    by (rule reachable_lists)
  have 1: "\<exists>c' fs. RestoreThread cfg T c = Inr (True, c') \<and>
               termination_requests c' =
                 termination_requests c + (if terminate_on_restore (heap c a) then 1 else 0) \<and>
               \<not> terminate_on_restore (heap c' a) \<and> state_id (heap c' a) = kInvalidId cfg \<and>
               free_list c' = Some (a # fs)"
    if nl: "lazily_archived_thread c \<noteq> Some T" and k: "thread_state_key c T = Some a" for T a
  proof (cases "lazily_archived_thread c")
    case None
    from restore_archived_facts[OF i None k, of cfg] show ?thesis by blast
  next
    case (Some U)
    with nl have ne: "U \<noteq> T" by auto
    from inv_listsD(5)[OF i] Some obtain b where ls: "lazily_archived_thread_state c = Some b"
      by auto
    note e = EagerlyArchiveThread_eq[OF ls, of cfg]
    obtain c1 where c1: "EagerlyArchiveThread cfg c = Inr c1" using e by blast
    have i1: "inv_lists c1 fs (b # us)" by (rule inv_eager[OF i ls c1])
    have f: "lazily_archived_thread c1 = None" "thread_state_key c1 T = Some a"
      "termination_requests c1 = termination_requests c"
      "terminate_on_restore (heap c1 a) = terminate_on_restore (heap c a)"
      using c1 k unfolding e by (auto simp: termination_requests_def split: if_splits)
    have r: "RestoreThread cfg T c = RestoreThread cfg T c1"
      using RestoreThread_forces_eager[OF Some, of T cfg] ne c1 by simp
    from restore_archived_facts[OF i1 f(1,2), of cfg] show ?thesis
      unfolding r f(3,4) by blast
  qed
  have 2: "TerminateExecution thread_id c = Some c"
    if u': "in_use_list c = Some us'" and n: "\<forall>b \<in> set us'. state_id (heap c b) \<noteq> thread_id"
    for thread_id us'
  proof -
    from u u' have e: "us' = us" by simp
    have "flagged thread_id us (heap c) = heap c"
      using n unfolding e by (auto simp: flagged_def fun_eq_iff)
    then show ?thesis
      using TerminateExecution_eq[OF inv_listsD(2)[OF i], of thread_id] by simp
  qed
  have 3: "\<exists>c'. TerminateExecution thread_id c = Some c' \<and>
               termination_requests c' = termination_requests c \<and>
               (c' = c \<or>
                (\<exists>us a. in_use_list c = Some us \<and> a \<in> set us \<and>
                   state_id (heap c a) = thread_id \<and>
                   c' = c\<lparr>heap := (heap c)(a := (heap c a)\<lparr>terminate_on_restore := True\<rparr>)\<rparr>))"
    if g: "guarded cfg as g" and m: "manager g = c" for as g thread_id
  proof -
    from guard_invD(1)[OF guarded_inv[OF g]] obtain fs' us'
      where i': "inv_lists c fs' us'" and o: "owners c us'"
      unfolding m by (rule ids_ok_lists)
    from TerminateExecution_flags_one[OF i' o, of thread_id] inv_lists_walk(2)[OF i']
    show ?thesis by blast
  qed
  have 4: "termination_requests c + pending_terminations c \<le> terminate_calls as"
    if g: "guarded cfg as g" and m: "manager g = c" for as g
    using guarded_owed[OF g] unfolding m owed_def .
  show ?thesis
    apply (intro conjI allI impI)
       apply (rule 1; assumption)
      apply (rule 2; assumption)
     apply (rule 3; assumption)
    apply (rule 4; assumption)
    done
qed

text \<open>
  The theorem at the example: the state of thread 101 is committed, flagged by
  \<^verbatim>\<open>TerminateExecution(1)\<close> and restored with one request; \<^verbatim>\<open>TerminateExecution(7)\<close>
  changes nothing; and after the one call of the run at most one request is owed.
\<close>
theorem terminate_on_restore_one_shot_witness:
  "reachable example_config after_Terminate \<and>
   lazily_archived_thread after_Terminate \<noteq> Some 101 \<and>
   thread_state_key after_Terminate 101 = Some 2 \<and>
   terminate_on_restore (heap after_Terminate 2) \<and>
   (\<exists>c' fs. RestoreThread example_config 101 after_Terminate = Inr (True, c') \<and>
      termination_requests c' = 1 \<and> \<not> terminate_on_restore (heap c' 2) \<and>
      free_list c' = Some (2 # fs)) \<and>
   in_use_list after_Terminate = Some [2] \<and> state_id (heap after_Terminate 2) \<noteq> 7 \<and>
   TerminateExecution 7 after_Terminate = Some after_Terminate \<and>
   guarded example_config
     [Construct_Locker 101, Construct_Unlocker 101, Construct_Locker 102, Terminate 1]
     terminated_embedder \<and>
   manager terminated_embedder = after_Terminate \<and>
   terminate_calls
     [Construct_Locker 101, Construct_Unlocker 101, Construct_Locker 102, Terminate 1] = 1 \<and>
   termination_requests after_Terminate + pending_terminations after_Terminate \<le> 1 \<and>
   (\<exists>c'. TerminateExecution 1 after_Terminate = Some c' \<and>
         termination_requests c' = termination_requests after_Terminate)"
proof -
  note F = after_Terminate_facts
  note t = terminate_on_restore_one_shot[OF F(1)]
  note t1 = t[THEN conjunct1, rule_format]
  note t2 = t[THEN conjunct2, THEN conjunct1, rule_format]
  have m: "manager terminated_embedder = after_Terminate"
    by (simp add: terminated_embedder_def)
  note t3 = t[THEN conjunct2, THEN conjunct2, rule_format, OF guarded_terminated m]
  have n: "lazily_archived_thread after_Terminate \<noteq> Some 101" using F(2) by simp
  from t1[OF n F(3)] obtain c' fs where
    "RestoreThread example_config 101 after_Terminate = Inr (True, c')"
    "termination_requests c' = termination_requests after_Terminate +
        (if terminate_on_restore (heap after_Terminate 2) then 1 else 0)"
    "\<not> terminate_on_restore (heap c' 2)" "free_list c' = Some (2 # fs)"
    by blast
  then have 1: "\<exists>c' fs. RestoreThread example_config 101 after_Terminate = Inr (True, c') \<and>
      termination_requests c' = 1 \<and> \<not> terminate_on_restore (heap c' 2) \<and>
      free_list c' = Some (2 # fs)"
    using F(4,5) by auto
  have 7: "state_id (heap after_Terminate 2) \<noteq> 7" using F(7) by simp
  have 8: "TerminateExecution 7 after_Terminate = Some after_Terminate"
    by (rule t2[OF F(6)]) (use 7 in simp)
  have c: "terminate_calls
     [Construct_Locker 101, Construct_Unlocker 101, Construct_Locker 102, Terminate 1] = 1"
    by (simp add: terminate_calls_def)
  from t3 have 9: "termination_requests after_Terminate + pending_terminations after_Terminate \<le> 1"
    unfolding c by blast
  from t3 have 10: "\<exists>c'. TerminateExecution 1 after_Terminate = Some c' \<and>
         termination_requests c' = termination_requests after_Terminate"
    by blast
  show ?thesis
    by (intro conjI F(1) n F(3) F(4) 1 F(6) 7 8 guarded_terminated m c 9 10)
qed

subsection \<open>Calls that leave the lock and the context switcher alone\<close>

lemma same_lock_refl [simp]: "same_lock c c"
  by (simp add: same_lock_def)

lemma same_lock_trans: "same_lock c c1 \<Longrightarrow> same_lock c1 c2 \<Longrightarrow> same_lock c c2"
  by (simp add: same_lock_def)

lemma set_terminate_on_restore_lock [simp]:
  "same_lock c (set_terminate_on_restore a v c')= same_lock c c'"
  by (simp add: same_lock_def set_terminate_on_restore_def)

lemma TerminateExecution_loop_lock:
  "TerminateExecution_loop thread_id st c = Some c' \<Longrightarrow> same_lock c c'"
proof (rule TerminateExecution_loop.raw_induct[where P = "\<lambda>_ _ c c'. same_lock c c'"])
  fix loop :: "int32 \<Rightarrow> addr option \<Rightarrow> V8Context \<Rightarrow> V8Context option"
  fix thread_id st c y
  assume ih: "\<And>i s d z. loop i s d = Some z \<Longrightarrow> same_lock d z"
    and eq: "(case st of None \<Rightarrow> Some c
       | Some a \<Rightarrow>
          let c1 = if thread_id = state_id (heap c a)
                   then set_terminate_on_restore a True c else c
          in loop thread_id (Next a c1) c1) = Some y"
  show "same_lock c y"
  proof (cases st)
    case None
    with eq show ?thesis by simp
  next
    case (Some a)
    let ?c1 = "if thread_id = state_id (heap c a) then set_terminate_on_restore a True c else c"
    from eq Some have "loop thread_id (Next a ?c1) ?c1 = Some y" by (simp add: Let_def)
    from ih[OF this] have "same_lock ?c1 y" .
    moreover have "same_lock c ?c1" by (simp add: same_lock_def set_terminate_on_restore_def)
    ultimately show ?thesis by (rule same_lock_trans[rotated])
  qed
qed

lemma EagerlyArchiveThread_lock:
  assumes "EagerlyArchiveThread cfg c = Inr c'"
  shows "same_lock c c'"
proof -
  from assms obtain a where a: "lazily_archived_thread_state c = Some a"
    by (cases "lazily_archived_thread_state c") (auto simp: EagerlyArchiveThread_def)
  from assms show ?thesis unfolding EagerlyArchiveThread_eq[OF a] by (auto simp: same_lock_def)
qed

lemma RestoreThread_lock:
  assumes "RestoreThread cfg t c = Inr (b, c')"
  shows "same_lock c c'"
proof (cases "lazily_archived_thread c = Some t")
  case True
  with assms show ?thesis
    by (auto simp: RestoreThread_def IsSelf_def set_id_def LinkInto_eq same_lock_def Let_def
        split: if_splits option.splits)
next
  case False
  have rest: "same_lock d c'" if l: "lazily_archived_thread d = None"
    and r: "RestoreThread cfg t d = Inr (b, c')" for d
  proof (cases "thread_state_key d t")
    case None
    from r show ?thesis unfolding RestoreThread_new_eq[OF l None]
      by (auto simp: same_lock_def emit_def)
  next
    case (Some a)
    from r show ?thesis unfolding RestoreThread_archived_eq[OF l Some]
      by (auto simp: same_lock_def)
  qed
  show ?thesis
  proof (cases "lazily_archived_thread c")
    case None
    from rest[OF None assms] show ?thesis .
  next
    case (Some u)
    with False have ne: "u \<noteq> t" by simp
    from assms obtain c1 where e: "EagerlyArchiveThread cfg c = Inr c1"
      and r: "RestoreThread cfg t c1 = Inr (b, c')"
      unfolding RestoreThread_forces_eager[OF Some ne] by (auto split: sum.splits)
    from e have "lazily_archived_thread c1 = None"
      by (auto simp: EagerlyArchiveThread_def Let_def split_def Initialize_def split: option.splits)
    from rest[OF this r] EagerlyArchiveThread_lock[OF e] show ?thesis
      using same_lock_trans by blast
  qed
qed

lemma manager_call_lock:
  assumes "manager_call cfg t c c'"
  shows "same_lock c c'"
  using assms
proof cases
  case (restore b)
  then show ?thesis by (rule RestoreThread_lock)
next
  case archive
  from ArchiveThread_Inr[OF this(1)] show ?thesis
    by (simp add: archive_result_def Let_def same_lock_def)
next
  case eagerly_archive
  then show ?thesis by (rule EagerlyArchiveThread_lock)
next
  case assign_id
  then show ?thesis by (auto simp: AssignId_def emit_def Let_def same_lock_def split: if_splits)
next
  case (terminate thread_id)
  then show ?thesis using TerminateExecution_loop_lock by (simp add: TerminateExecution_def)
qed (simp_all add: V8_Initialize_call_def emit_def FreeThreadResources_def
      RegExpStack_FreeThreadResources_def ThreadLocal_Free_def Let_def same_lock_def)

subsection \<open>Mutual exclusion\<close>

lemma lock_inv_initial: "lock_inv (initial_system cfg)"
  by (simp add: lock_inv_def initial_system_def ThreadManagerData_eq empty_context_def
      Initialize_def)

lemma StartPreemption_lock:
  "StartPreemption cfg t ms c = Inr (w, c') \<Longrightarrow> mutex c' = mutex c \<and> mutex_owner c' = mutex_owner c"
  by (auto simp: StartPreemption_def new_ContextSwitcher_def Let_def split: if_splits option.splits)

lemma StopPreemption_begin_lock:
  "StopPreemption_begin cfg t c = Inr (w, c') \<Longrightarrow>
   mutex c' = mutex c \<and> mutex_owner c' = mutex_owner c"
  by (auto simp: StopPreemption_begin_def split: if_splits option.splits)

lemma step_lock_inv:
  assumes "step cfg s l s'" and "lock_inv s"
  shows "lock_inv s'"
  using assms
proof cases
  case (acquire t c')
  with assms(2) show ?thesis
    by (auto simp: lock_inv_def Mutex_Lock_def split: if_splits)
next
  case (set_owner t)
  have m: "mutex (ctx s) = Some t" using set_owner(3) assms(2) by (simp add: lock_inv_def)
  have u: "\<And>u. pc s u = Lock_acquired \<Longrightarrow> u = t" "\<And>u x. pc s u = Stopping x \<Longrightarrow> u = t"
    using m assms(2) by (auto simp: lock_inv_def)
  have c: "mutex (ctx s') = Some t" "mutex_owner (ctx s') = Some t" "pc s' = (pc s)(t := Idle)"
    using set_owner(2) m by (simp_all add: record_owner_def Initialize_def)
  show ?thesis
    unfolding lock_inv_def c
  proof (intro conjI allI impI)
    fix v assume "Some t = Some v" then show "Some t = Some v" .
  next
    fix v assume "((pc s)(t := Idle)) v = Lock_acquired"
    then show "Some t = Some v" using u(1)[of v] by (simp split: if_splits)
  next
    fix v assume "((pc s)(t := Idle)) v = Unlock_cleared"
    then show "Some t \<noteq> Some v" using set_owner(3) by (auto split: if_splits)
  next
    fix v x assume "((pc s)(t := Idle)) v = Stopping x"
    then show "Some t = Some v" using u(2)[of v x] by (simp split: if_splits)
  qed
next
  case (reset_owner t)
  with assms(2) show ?thesis
    by (auto simp: lock_inv_def clear_owner_def Initialize_def)
next
  case (release t)
  have o: "mutex_owner (ctx s) \<noteq> Some t" using release(3) assms(2) by (simp add: lock_inv_def)
  show ?thesis
  proof (cases "mutex (ctx s) = Some t")
    case True
    with assms(2) o have "mutex_owner (ctx s) = None"
      by (cases "mutex_owner (ctx s)") (auto simp: lock_inv_def)
    moreover have "\<And>u. pc s u = Lock_acquired \<Longrightarrow> u = t" "\<And>u x. pc s u = Stopping x \<Longrightarrow> u = t"
      using True assms(2) by (auto simp: lock_inv_def)
    ultimately show ?thesis using release True
      by (auto simp: lock_inv_def Mutex_Unlock_def)
  next
    case False
    with release assms(2) show ?thesis
      by (auto simp: lock_inv_def Mutex_Unlock_def)
  qed
next
  case (call t c')
  from manager_call_lock[OF call(4)] call(1,2) assms(2) show ?thesis
    by (auto simp: lock_inv_def same_lock_def)
next
  case (start t every_n_ms started c')
  from StartPreemption_lock[OF start(5)] start(1,2) assms(2) show ?thesis
    by (auto simp: lock_inv_def)
next
  case (stop_begin t joined c')
  have "mutex (ctx s) = Some t"
    using stop_begin(4) assms(2)
    by (auto simp: lock_inv_def IsLocked_def IsLockedByCurrentThread_def IsSelf_def)
  with StopPreemption_begin_lock[OF stop_begin(5)] stop_begin(1,2,3) assms(2) show ?thesis
    by (auto simp: lock_inv_def split: option.splits)
next
  case (stop_return t joined)
  with assms(2) show ?thesis
    by (auto simp: lock_inv_def StopPreemption_end_def split: option.splits)
next
  case (test x)
  with assms(2) show ?thesis by (auto simp: lock_inv_def)
next
  case (preempt x)
  with assms(2) show ?thesis by (auto simp: lock_inv_def Run_body_def emit_def)
qed

lemma run_lock_inv: "run cfg ls s \<Longrightarrow> lock_inv s"
  by (induction rule: run.induct) (auto intro: lock_inv_initial step_lock_inv)

lemma run_locked_system: "run example_config [Acquire 101, Record 101] locked_system"
proof -
  let ?s0 = "initial_system example_config"
  let ?s1 = "?s0\<lparr>ctx := (ctx ?s0)\<lparr>mutex := Some 101\<rparr>, pc := (pc ?s0)(101 := Lock_acquired)\<rparr>"
  have 1: "step example_config ?s0 (Acquire 101) ?s1"
    by (rule step.acquire)
       (simp_all add: initial_system_def Mutex_Lock_def ThreadManagerData_eq empty_context_def
          Initialize_def)
  have 2: "step example_config ?s1 (Record 101)
             (?s1\<lparr>ctx := record_owner 101 (ctx ?s1), pc := (pc ?s1)(101 := Idle)\<rparr>)"
    by (rule step.set_owner) simp
  have e: "?s1\<lparr>ctx := record_owner 101 (ctx ?s1), pc := (pc ?s1)(101 := Idle)\<rparr> = locked_system"
    by (simp add: locked_system_def initial_system_def record_owner_def Initialize_def fun_eq_iff)
  from run.step[OF run.step[OF run.start 1] 2] show ?thesis unfolding e by simp
qed

text \<open>
  Claim C1. In every state of every run, whatever the number of threads and however
  their steps interleave, at most one thread finds \<^verbatim>\<open>IsLockedByCurrentThread()\<close> true,
  and that thread holds the mutex. \<^verbatim>\<open>ThreadManager::Lock\<close> returns only from a state
  where the mutex was free and leaves the owner record naming the caller;
  \<^verbatim>\<open>ThreadManager::Unlock\<close> leaves the owner record invalid, so no thread finds it
  true afterwards. The runs take \<^verbatim>\<open>Lock\<close> and \<^verbatim>\<open>Unlock\<close> apart into their two
  statements, and the constructors and destructors of \<^verbatim>\<open>Locker\<close> and \<^verbatim>\<open>Unlocker\<close> are
  sequences of steps of a run (lemmas \<open>run_Locker_ctor\<close>, \<open>run_Locker_dtor\<close>,
  \<open>run_Unlocker_ctor\<close>, \<open>run_Unlocker_dtor\<close> below).
\<close>
theorem at_most_one_lock_holder:
  assumes "run cfg ls s"
  shows "(\<forall>t u. IsLockedByCurrentThread t (ctx s) \<longrightarrow> IsLockedByCurrentThread u (ctx s) \<longrightarrow> t = u) \<and>
         (\<forall>t. IsLockedByCurrentThread t (ctx s) \<longrightarrow> mutex (ctx s) = Some t) \<and>
         (\<forall>t c'. ThreadManager_Lock cfg t (ctx s) = Inr c' \<longrightarrow>
              IsLockedByCurrentThread t c' \<and> mutex (ctx s) = None \<and> mutex c' = Some t) \<and>
         (\<forall>t u. \<not> IsLockedByCurrentThread u (ThreadManager_Unlock t (ctx s)))"
proof -
  from run_lock_inv[OF assms] have "\<forall>t. mutex_owner (ctx s) = Some t \<longrightarrow> mutex (ctx s) = Some t"
    by (simp add: lock_inv_def)
  then show ?thesis
    by (auto simp: IsLockedByCurrentThread_def IsSelf_def ThreadManager_Lock_def Mutex_Lock_def
        record_owner_def Initialize_def ThreadManager_Unlock_def Mutex_Unlock_def
        clear_owner_def Let_def split: if_splits)
qed

text \<open>
  The theorem at the run in which thread 101 takes the lock: thread 101 holds it, thread
  102 does not and is blocked, and releasing clears the owner; and at the empty run,
  where \<^verbatim>\<open>Lock\<close> by thread 101 returns.
\<close>
theorem at_most_one_lock_holder_witness:
  "run example_config [Acquire 101, Record 101] locked_system \<and>
   IsLockedByCurrentThread 101 (ctx locked_system) \<and>
   \<not> IsLockedByCurrentThread 102 (ctx locked_system) \<and>
   mutex (ctx locked_system) = Some 101 \<and>
   ThreadManager_Lock example_config 102 (ctx locked_system) = Inl Blocked \<and>
   \<not> IsLockedByCurrentThread 101 (ThreadManager_Unlock 101 (ctx locked_system)) \<and>
   run example_config [] (initial_system example_config) \<and>
   ThreadManager_Lock example_config 101 (ctx (initial_system example_config)) =
     Inr (ctx locked_system) \<and>
   mutex (ctx (initial_system example_config)) = None"
proof -
  have l: "IsLockedByCurrentThread 101 (ctx locked_system)"
    by (simp add: locked_system_def IsLockedByCurrentThread_def IsSelf_def)
  have b: "ThreadManager_Lock example_config 102 (ctx locked_system) = Inl Blocked"
    by (simp add: locked_system_def ThreadManager_Lock_def Mutex_Lock_def)
  note A = at_most_one_lock_holder[OF run_locked_system]
  have "(101::nat) = 102" if "IsLockedByCurrentThread 102 (ctx locked_system)"
    using A l that by blast
  then have n: "\<not> IsLockedByCurrentThread 102 (ctx locked_system)" by auto
  from A l have m: "mutex (ctx locked_system) = Some 101" by blast
  from A have u: "\<not> IsLockedByCurrentThread 101 (ThreadManager_Unlock 101 (ctx locked_system))"
    by blast
  have k: "ThreadManager_Lock example_config 101 (ctx (initial_system example_config)) =
             Inr (ctx locked_system)"
    by (simp add: locked_system_def initial_system_def ThreadManager_Lock_def Mutex_Lock_def
        record_owner_def Initialize_def failed_def IsLockedByCurrentThread_def IsSelf_def
        ThreadManagerData_eq empty_context_def)
  from at_most_one_lock_holder[OF run.start[of example_config]] k
  have i: "mutex (ctx (initial_system example_config)) = None" by blast
  from run_locked_system l n m b u run.start[of example_config] k i show ?thesis by blast
qed

subsection \<open>The guards as runs\<close>

text \<open>
  Each operation of \<^verbatim>\<open>Locker\<close> and \<^verbatim>\<open>Unlocker\<close> that returns is a sequence of steps of
  the thread that performs it.
\<close>
lemma ext_start: "run cfg ls s \<Longrightarrow> \<exists>ls'. run cfg (ls @ ls') (s\<lparr>ctx := ctx s\<rparr>)"
  by (rule exI[of _ "[]"]) simp

lemma ext_call:
  assumes "\<exists>ls'. run cfg (ls @ ls') (s\<lparr>ctx := c1\<rparr>)" and "pc s t = Idle"
    and "manager_call cfg t c1 c2"
  shows "\<exists>ls'. run cfg (ls @ ls') (s\<lparr>ctx := c2\<rparr>)"
proof -
  from assms(1) obtain ls' where r: "run cfg (ls @ ls') (s\<lparr>ctx := c1\<rparr>)" by blast
  have "step cfg (s\<lparr>ctx := c1\<rparr>) (Call t) (s\<lparr>ctx := c1\<rparr>\<lparr>ctx := c2\<rparr>)"
    using assms(2,3) by (intro step.call) simp_all
  from run.step[OF r this] have "run cfg (ls @ ls' @ [Call t]) (s\<lparr>ctx := c2\<rparr>)" by simp
  then show ?thesis by blast
qed

lemma ext_lock:
  assumes "\<exists>ls'. run cfg (ls @ ls') (s\<lparr>ctx := c1\<rparr>)" and "pc s t = Idle"
    and "ThreadManager_Lock cfg t c1 = Inr c2"
  shows "\<exists>ls'. run cfg (ls @ ls') (s\<lparr>ctx := c2\<rparr>)"
proof -
  from assms(1) obtain ls' where r: "run cfg (ls @ ls') (s\<lparr>ctx := c1\<rparr>)" by blast
  from assms(3) obtain d where d: "Mutex_Lock t c1 = Inr d" and c2: "c2 = record_owner t d"
    by (auto simp: ThreadManager_Lock_def Let_def split: sum.splits if_splits)
  let ?s1 = "s\<lparr>ctx := c1\<rparr>\<lparr>ctx := d, pc := (pc (s\<lparr>ctx := c1\<rparr>))(t := Lock_acquired)\<rparr>"
  have 1: "step cfg (s\<lparr>ctx := c1\<rparr>) (Acquire t) ?s1"
    using assms(2) d by (intro step.acquire) simp_all
  have 2: "step cfg ?s1 (Record t)
            (?s1\<lparr>ctx := record_owner t (ctx ?s1), pc := (pc ?s1)(t := Idle)\<rparr>)"
    by (intro step.set_owner) simp
  have "(pc s)(t := Idle) = pc s" using assms(2) by (simp add: fun_upd_idem)
  then have e: "?s1\<lparr>ctx := record_owner t (ctx ?s1), pc := (pc ?s1)(t := Idle)\<rparr> =
             s\<lparr>ctx := c2\<rparr>"
    by (simp add: c2)
  from run.step[OF run.step[OF r 1] 2] have "run cfg (ls @ ls' @ [Acquire t, Record t]) (s\<lparr>ctx := c2\<rparr>)"
    unfolding e by simp
  then show ?thesis by blast
qed

lemma ext_unlock:
  assumes "\<exists>ls'. run cfg (ls @ ls') (s\<lparr>ctx := c1\<rparr>)" and "pc s t = Idle"
  shows "\<exists>ls'. run cfg (ls @ ls') (s\<lparr>ctx := ThreadManager_Unlock t c1\<rparr>)"
proof -
  from assms(1) obtain ls' where r: "run cfg (ls @ ls') (s\<lparr>ctx := c1\<rparr>)" by blast
  let ?s1 = "s\<lparr>ctx := c1\<rparr>\<lparr>ctx := clear_owner t c1,
                pc := (pc (s\<lparr>ctx := c1\<rparr>))(t := Unlock_cleared)\<rparr>"
  have 1: "step cfg (s\<lparr>ctx := c1\<rparr>) (Clear t) ?s1"
    using assms(2) step.reset_owner[of "s\<lparr>ctx := c1\<rparr>" t cfg] by simp
  have 2: "step cfg ?s1 (Release t)
            (?s1\<lparr>ctx := Mutex_Unlock t (ctx ?s1), pc := (pc ?s1)(t := Idle)\<rparr>)"
    by (intro step.release) simp
  have "(pc s)(t := Idle) = pc s" using assms(2) by (simp add: fun_upd_idem)
  then have e: "?s1\<lparr>ctx := Mutex_Unlock t (ctx ?s1), pc := (pc ?s1)(t := Idle)\<rparr> =
             s\<lparr>ctx := ThreadManager_Unlock t c1\<rparr>"
    by (simp add: ThreadManager_Unlock_def)
  from run.step[OF run.step[OF r 1] 2]
  have "run cfg (ls @ ls' @ [Clear t, Release t]) (s\<lparr>ctx := ThreadManager_Unlock t c1\<rparr>)"
    unfolding e by simp
  then show ?thesis by blast
qed

lemma run_Locker_ctor:
  assumes r: "run cfg ls s" and i: "pc s t = Idle"
    and l: "Locker_ctor cfg t (ctx s) = Inr (k, c')"
  shows "\<exists>ls'. run cfg (ls @ ls') (s\<lparr>ctx := c'\<rparr>)"
proof -
  let ?c0 = "(ctx s)\<lparr>active := True\<rparr>"
  have 0: "\<exists>ls'. run cfg (ls @ ls') (s\<lparr>ctx := ?c0\<rparr>)"
    by (rule ext_call[OF ext_start[OF r] i manager_call.set_active])
  show ?thesis
  proof (cases "IsLockedByCurrentThread t ?c0")
    case True
    with l have "AssignId cfg t ?c0 = Inr c'"
      by (auto simp: Locker_ctor_def Let_def split: if_splits sum.splits)
    from ext_call[OF 0 i manager_call.assign_id[OF this]] show ?thesis .
  next
    case False
    with l obtain c1 b c3 where
      1: "ThreadManager_Lock cfg t ?c0 = Inr c1" and
      2: "RestoreThread cfg t (if \<not> running c1 then V8_Initialize_call c1 else c1) = Inr (b, c3)" and
      4: "AssignId cfg t (if b then c3
             else emit StackGuard_InitThread (emit StackGuard_ClearThread c3)) = Inr c'"
      by (auto simp: Locker_ctor_def Let_def split: if_splits sum.splits prod.splits)
    have a: "\<exists>ls'. run cfg (ls @ ls') (s\<lparr>ctx := c1\<rparr>)" by (rule ext_lock[OF 0 i 1])
    have b: "\<exists>ls'. run cfg (ls @ ls')
               (s\<lparr>ctx := (if \<not> running c1 then V8_Initialize_call c1 else c1)\<rparr>)"
      using a ext_call[OF a i manager_call.initialize] by simp
    have c: "\<exists>ls'. run cfg (ls @ ls') (s\<lparr>ctx := c3\<rparr>)"
      by (rule ext_call[OF b i manager_call.restore[OF 2]])
    have d: "\<exists>ls'. run cfg (ls @ ls')
               (s\<lparr>ctx := (if b then c3
                  else emit StackGuard_InitThread (emit StackGuard_ClearThread c3))\<rparr>)"
      using c ext_call[OF ext_call[OF c i manager_call.stack_guard_clear] i
          manager_call.stack_guard_init] by simp
    from ext_call[OF d i manager_call.assign_id[OF 4]] show ?thesis .
  qed
qed

lemma run_Locker_dtor:
  assumes r: "run cfg ls s" and i: "pc s t = Idle"
    and l: "Locker_dtor cfg t k (ctx s) = Inr c'"
  shows "\<exists>ls'. run cfg (ls @ ls') (s\<lparr>ctx := c'\<rparr>)"
proof (cases "has_lock k")
  case False
  with l have "c' = ctx s" by (auto simp: Locker_dtor_def split: if_splits)
  with ext_start[OF r] show ?thesis by simp
next
  case True
  show ?thesis
  proof (cases "top_level k")
    case top: True
    from l True top have c': "c' = ThreadManager_Unlock t (FreeThreadResources cfg (ctx s))"
      by (auto simp: Locker_dtor_def split: if_splits)
    show ?thesis unfolding c'
      by (rule ext_unlock[OF ext_call[OF ext_start[OF r] i manager_call.free_resources] i])
  next
    case top: False
    from l True top obtain c1 where a: "ArchiveThread cfg t (ctx s) = Inr c1"
      and c': "c' = ThreadManager_Unlock t c1"
      by (auto simp: Locker_dtor_def split: if_splits sum.splits)
    show ?thesis unfolding c'
      by (rule ext_unlock[OF ext_call[OF ext_start[OF r] i manager_call.archive[OF a]] i])
  qed
qed

lemma run_Unlocker_ctor:
  assumes r: "run cfg ls s" and i: "pc s t = Idle"
    and l: "Unlocker_ctor cfg t (ctx s) = Inr c'"
  shows "\<exists>ls'. run cfg (ls @ ls') (s\<lparr>ctx := c'\<rparr>)"
proof -
  from l obtain c1 where a: "ArchiveThread cfg t (ctx s) = Inr c1"
    and c': "c' = ThreadManager_Unlock t c1"
    by (auto simp: Unlocker_ctor_def split: if_splits sum.splits)
  show ?thesis unfolding c'
    by (rule ext_unlock[OF ext_call[OF ext_start[OF r] i manager_call.archive[OF a]] i])
qed

lemma run_Unlocker_dtor:
  assumes r: "run cfg ls s" and i: "pc s t = Idle"
    and l: "Unlocker_dtor cfg t (ctx s) = Inr c'"
  shows "\<exists>ls'. run cfg (ls @ ls') (s\<lparr>ctx := c'\<rparr>)"
proof -
  from l obtain c1 b where 1: "ThreadManager_Lock cfg t (ctx s) = Inr c1"
    and 2: "RestoreThread cfg t c1 = Inr (b, c')"
    by (auto simp: Unlocker_dtor_def split: if_splits sum.splits prod.splits)
  show ?thesis
    by (rule ext_call[OF ext_lock[OF ext_start[OF r] i 1] i manager_call.restore[OF 2]])
qed

subsection \<open>Stopping preemption\<close>

lemma switch_invD:
  assumes "switch_inv s"
  shows "\<And>x. worker s x = Loop_test \<or> worker s x = Sleeping \<Longrightarrow> singleton (ctx s) = Some x"
    and "\<And>x. worker s x \<noteq> Unborn \<Longrightarrow> x < switchers_allocated (ctx s)"
    and "\<And>x. singleton (ctx s) = Some x \<Longrightarrow> x < switchers_allocated (ctx s)"
    and "\<And>x. singleton (ctx s) = Some x \<Longrightarrow> worker s x \<noteq> Unborn"
    and "\<And>t j. pc s t = Stopping j \<Longrightarrow> singleton (ctx s) = j"
    and "\<And>t x. pc s t = Stopping (Some x) \<Longrightarrow> \<not> keep_going (switchers (ctx s) x)"
  using assms unfolding switch_inv_def by blast+

lemma switch_invI:
  assumes "\<And>x. worker s x = Loop_test \<or> worker s x = Sleeping \<Longrightarrow> singleton (ctx s) = Some x"
    and "\<And>x. worker s x \<noteq> Unborn \<Longrightarrow> x < switchers_allocated (ctx s)"
    and "\<And>x. singleton (ctx s) = Some x \<Longrightarrow> x < switchers_allocated (ctx s)"
    and "\<And>x. singleton (ctx s) = Some x \<Longrightarrow> worker s x \<noteq> Unborn"
    and "\<And>t j. pc s t = Stopping j \<Longrightarrow> singleton (ctx s) = j"
    and "\<And>t x. pc s t = Stopping (Some x) \<Longrightarrow> \<not> keep_going (switchers (ctx s) x)"
  shows "switch_inv s"
  using assms unfolding switch_inv_def by blast

lemma switch_inv_cong:
  assumes "worker s' = worker s" and "singleton (ctx s') = singleton (ctx s)"
    and "switchers_allocated (ctx s') = switchers_allocated (ctx s)"
    and "switchers (ctx s') = switchers (ctx s)"
    and "\<And>t j. pc s' t = Stopping j \<Longrightarrow> pc s t = Stopping j"
    and "switch_inv s"
  shows "switch_inv s'"
proof -
  note D = switch_invD[OF assms(6)]
  show ?thesis
  proof (rule switch_invI)
    fix x assume "worker s' x = Loop_test \<or> worker s' x = Sleeping"
    then show "singleton (ctx s') = Some x" using D(1)[of x] assms(1,2) by simp
  next
    fix x assume "worker s' x \<noteq> Unborn"
    then show "x < switchers_allocated (ctx s')" using D(2)[of x] assms(1,3) by simp
  next
    fix x assume "singleton (ctx s') = Some x"
    then show "x < switchers_allocated (ctx s')" "worker s' x \<noteq> Unborn"
      using D(3)[of x] D(4)[of x] assms(1,2,3) by simp_all
  next
    fix t j assume "pc s' t = Stopping j"
    then have "pc s t = Stopping j" by (rule assms(5))
    from D(5)[OF this] show "singleton (ctx s') = j" using assms(2) by simp
  next
    fix t x assume "pc s' t = Stopping (Some x)"
    then have "pc s t = Stopping (Some x)" by (rule assms(5))
    from D(6)[OF this] show "\<not> keep_going (switchers (ctx s') x)" using assms(4) by simp
  qed
qed

lemma switch_inv_initial: "switch_inv (initial_system cfg)"
  by (simp add: switch_inv_def initial_system_def ThreadManagerData_eq empty_context_def
      Initialize_def)

lemma stopping_holds_mutex:
  "lock_inv s \<Longrightarrow> pc s t = Stopping j \<Longrightarrow> mutex (ctx s) = Some t"
  by (auto simp: lock_inv_def)

lemma locked_holds_mutex:
  "lock_inv s \<Longrightarrow> IsLocked t (ctx s) \<Longrightarrow> mutex (ctx s) = Some t"
  by (auto simp: lock_inv_def IsLocked_def IsLockedByCurrentThread_def IsSelf_def)

lemma StopPreemption_begin_eq:
  assumes "IsLocked t c"
  shows "StopPreemption_begin cfg t c =
     Inr (singleton c,
          case singleton c of None \<Rightarrow> c
          | Some x \<Rightarrow> c\<lparr>switchers := (switchers c)(x := (switchers c x)\<lparr>keep_going := False\<rparr>)\<rparr>)"
  using assms by (simp add: StopPreemption_begin_def failed_def split: option.splits)

lemma step_switch_inv:
  assumes st: "step cfg s l s'" and li: "lock_inv s" and si: "switch_inv s"
  shows "switch_inv s'"
  using st
proof cases
  case (acquire t c')
  show ?thesis
    by (rule switch_inv_cong[OF _ _ _ _ _ si])
       (use acquire in \<open>auto simp: Mutex_Lock_def split: if_splits\<close>)
next
  case (set_owner t)
  show ?thesis
    by (rule switch_inv_cong[OF _ _ _ _ _ si])
       (use set_owner in \<open>auto simp: record_owner_def split: if_splits\<close>)
next
  case (reset_owner t)
  show ?thesis
    by (rule switch_inv_cong[OF _ _ _ _ _ si])
       (use reset_owner in \<open>auto simp: clear_owner_def split: if_splits\<close>)
next
  case (release t)
  show ?thesis
    by (rule switch_inv_cong[OF _ _ _ _ _ si])
       (use release in \<open>auto simp: Mutex_Unlock_def split: if_splits\<close>)
next
  case (call t c')
  show ?thesis
    by (rule switch_inv_cong[OF _ _ _ _ _ si])
       (use call manager_call_lock[OF call(4)] in \<open>auto simp: same_lock_def\<close>)
next
  case (start t every_n_ms started c')
  note D = switch_invD[OF si]
  have nj: "\<And>u j. pc s u \<noteq> Stopping j"
    using stopping_holds_mutex[OF li] locked_holds_mutex[OF li start(4)] start(3) by fastforce
  show ?thesis
  proof (cases "singleton (ctx s)")
    case None
    let ?x = "switchers_allocated (ctx s)"
    from start(5) None have f: "started = Some ?x" "singleton (ctx s') = Some ?x"
      "switchers_allocated (ctx s') = Suc ?x" "pc s' = pc s"
      "worker s' = (worker s)(?x := Loop_test)"
      using start(2)
      by (auto simp: StartPreemption_def new_ContextSwitcher_def Let_def split: if_splits)
    show ?thesis
    proof (rule switch_invI)
      fix x assume "worker s' x = Loop_test \<or> worker s' x = Sleeping"
      then show "singleton (ctx s') = Some x"
        unfolding f using D(1)[of x] None by (auto split: if_splits)
    next
      fix x assume "worker s' x \<noteq> Unborn"
      then show "x < switchers_allocated (ctx s')"
        unfolding f using D(2)[of x] by (auto split: if_splits)
    next
      fix x assume "singleton (ctx s') = Some x"
      then show "x < switchers_allocated (ctx s')" "worker s' x \<noteq> Unborn"
        unfolding f by simp_all
    next
      fix t j assume "pc s' t = Stopping j"
      then show "singleton (ctx s') = j" unfolding f using nj by simp
    next
      fix t x assume "pc s' t = Stopping (Some x)"
      then show "\<not> keep_going (switchers (ctx s') x)" unfolding f using nj by simp
    qed
  next
    case (Some y)
    from start(5) Some have f: "started = None" "singleton (ctx s') = singleton (ctx s)"
      "switchers_allocated (ctx s') = switchers_allocated (ctx s)" "pc s' = pc s"
      "worker s' = worker s"
      using start(2)
      by (auto simp: StartPreemption_def Let_def split: if_splits)
    show ?thesis
      using D nj by (intro switch_invI) (simp_all add: f)
  qed
next
  case (stop_begin t joined c')
  note D = switch_invD[OF si]
  have nj: "\<And>u j. pc s u \<noteq> Stopping j"
    using stopping_holds_mutex[OF li] locked_holds_mutex[OF li stop_begin(4)] stop_begin(3)
    by fastforce
  from stop_begin(5) have e: "joined = singleton (ctx s)"
    "c' = (case singleton (ctx s) of None \<Rightarrow> ctx s
          | Some x \<Rightarrow> (ctx s)\<lparr>switchers := (switchers (ctx s))
                (x := (switchers (ctx s) x)\<lparr>keep_going := False\<rparr>)\<rparr>)"
    unfolding StopPreemption_begin_eq[OF stop_begin(4)] by auto
  have f: "singleton (ctx s') = singleton (ctx s)"
    "switchers_allocated (ctx s') = switchers_allocated (ctx s)"
    "pc s' = (pc s)(t := Stopping (singleton (ctx s)))" "worker s' = worker s"
    "\<And>y. singleton (ctx s) = Some y \<Longrightarrow> \<not> keep_going (switchers (ctx s') y)"
    unfolding stop_begin(2) e by (simp_all split: option.splits)
  show ?thesis
  proof (rule switch_invI)
    fix x assume "worker s' x = Loop_test \<or> worker s' x = Sleeping"
    then show "singleton (ctx s') = Some x" unfolding f using D(1)[of x] by simp
  next
    fix x assume "worker s' x \<noteq> Unborn"
    then show "x < switchers_allocated (ctx s')" unfolding f using D(2)[of x] by simp
  next
    fix x assume "singleton (ctx s') = Some x"
    then show "x < switchers_allocated (ctx s')" "worker s' x \<noteq> Unborn"
      unfolding f using D(3)[of x] D(4)[of x] by simp_all
  next
    fix u j assume "pc s' u = Stopping j"
    then show "singleton (ctx s') = j" unfolding f using nj by (auto split: if_splits)
  next
    fix u x assume "pc s' u = Stopping (Some x)"
    then have "singleton (ctx s) = Some x" unfolding f using nj by (auto split: if_splits)
    then show "\<not> keep_going (switchers (ctx s') x)" by (rule f(5))
  qed
next
  case (stop_return t joined)
  note D = switch_invD[OF si]
  have one: "u = t" if "pc s u = Stopping j" for u j
    using stopping_holds_mutex[OF li that] stopping_holds_mutex[OF li stop_return(3)] by simp
  have sj: "singleton (ctx s) = joined" using D(5)[OF stop_return(3)] .
  have f: "singleton (ctx s') = None"
    "switchers_allocated (ctx s') = switchers_allocated (ctx s)"
    "pc s' = (pc s)(t := Idle)" "worker s' = worker s"
    using stop_return(2) sj by (simp_all add: StopPreemption_end_def split: option.splits)
  show ?thesis
  proof (rule switch_invI)
    fix y assume l: "worker s' y = Loop_test \<or> worker s' y = Sleeping"
    then have "singleton (ctx s) = Some y" unfolding f using D(1)[of y] by simp
    with sj have "joined = Some y" by simp
    with stop_return(4) have "worker s y = Exited" by (simp add: Join_returns_def)
    with l show "singleton (ctx s') = Some y" unfolding f by simp
  next
    fix y assume "worker s' y \<noteq> Unborn"
    then show "y < switchers_allocated (ctx s')" unfolding f using D(2)[of y] by simp
  next
    fix y assume "singleton (ctx s') = Some y"
    then show "y < switchers_allocated (ctx s')" "worker s' y \<noteq> Unborn" unfolding f by simp_all
  next
    fix u j assume "pc s' u = Stopping j"
    then have False unfolding f using one[of u j] by (auto split: if_splits)
    then show "singleton (ctx s') = j" by simp
  next
    fix u y assume "pc s' u = Stopping (Some y)"
    then have False unfolding f using one[of u "Some y"] by (auto split: if_splits)
    then show "\<not> keep_going (switchers (ctx s') y)" by simp
  qed
next
  case (test x)
  note D = switch_invD[OF si]
  have f: "ctx s' = ctx s" "pc s' = pc s"
    "worker s' = (worker s)(x := (if Run_test x (ctx s) then Sleeping else Exited))"
    using test(2) by simp_all
  show ?thesis
    using D test(3) by (intro switch_invI) (auto simp: f split: if_splits)
next
  case (preempt x)
  note D = switch_invD[OF si]
  have f: "singleton (ctx s') = singleton (ctx s)"
    "switchers_allocated (ctx s') = switchers_allocated (ctx s)"
    "switchers (ctx s') = switchers (ctx s)" "pc s' = pc s"
    "worker s' = (worker s)(x := Loop_test)"
    using preempt(2) by (simp_all add: Run_body_def emit_def)
  show ?thesis
    using D preempt(3) by (intro switch_invI) (auto simp: f split: if_splits)
qed

lemma run_switch_inv: "run cfg ls s \<Longrightarrow> switch_inv s"
proof (induction rule: run.induct)
  case start
  show ?case by (rule switch_inv_initial)
next
  case (step ls s l s')
  from step_switch_inv[OF step(2) run_lock_inv[OF step(1)] step(3)] show ?case .
qed

lemma run_continues:
  "continues cfg s ys s' \<Longrightarrow> run cfg ls s \<Longrightarrow> run cfg (ls @ ys) s'"
proof (induction rule: continues.induct)
  case here
  then show ?case by simp
next
  case (step ys s' l s'')
  from run.step[OF step(3)[OF step(4)] step(2)] show ?case by simp
qed

lemma step_worker_Exited:
  assumes "step cfg s l s'" and "switch_inv s" and "worker s x = Exited"
  shows "worker s' x = Exited \<and> l \<noteq> Preempt x"
  using assms(1)
proof cases
  case (start t every_n_ms started c')
  have "x < switchers_allocated (ctx s)" using switch_invD(2)[OF assms(2), of x] assms(3) by simp
  moreover have "started = None \<or> started = Some (switchers_allocated (ctx s))"
    using start(5)
    by (auto simp: StartPreemption_def new_ContextSwitcher_def Let_def
        split: if_splits option.splits)
  ultimately show ?thesis using start(1,2) assms(3) by auto
qed (use assms(3) in auto)

lemma continues_Exited:
  assumes "continues cfg s ys s'" and "run cfg ls s" and "worker s x = Exited"
  shows "worker s' x = Exited \<and> Preempt x \<notin> set ys"
  using assms
proof (induction rule: continues.induct)
  case here
  then show ?case by simp
next
  case (step ys s' l s'')
  from step(3)[OF step(4,5)] have e: "worker s' x = Exited" and n: "Preempt x \<notin> set ys"
    by simp_all
  have "switch_inv s'" using run_switch_inv[OF run_continues[OF step(1) step(4)]] .
  from step_worker_Exited[OF step(2) this e] n show ?case by auto
qed

lemma step_quiet:
  assumes "step cfg s l s'" and q: "\<forall>x. worker s x = Unborn \<or> worker s x = Exited"
    and n: "\<forall>u. l \<noteq> Start u"
  shows "(\<forall>x. worker s' x = Unborn \<or> worker s' x = Exited) \<and> (\<forall>x. l \<noteq> Preempt x)"
  using assms(1)
proof cases
  case (acquire t c')
  with q show ?thesis by simp
next
  case (set_owner t)
  with q show ?thesis by simp
next
  case (reset_owner t)
  with q show ?thesis by simp
next
  case (release t)
  with q show ?thesis by simp
next
  case (call t c')
  with q show ?thesis by simp
next
  case (start t every_n_ms started c')
  with n show ?thesis by simp
next
  case (stop_begin t joined c')
  with q show ?thesis by simp
next
  case (stop_return t joined)
  with q show ?thesis by simp
next
  case (test x)
  from q have "worker s x = Unborn \<or> worker s x = Exited" by blast
  with test(3) show ?thesis by simp
next
  case (preempt x)
  from q have "worker s x = Unborn \<or> worker s x = Exited" by blast
  with preempt(3) show ?thesis by simp
qed

lemma continues_quiet:
  assumes "continues cfg s ys s'" and "\<forall>x. worker s x = Unborn \<or> worker s x = Exited"
    and "\<forall>u. Start u \<notin> set ys"
  shows "(\<forall>x. worker s' x = Unborn \<or> worker s' x = Exited) \<and> (\<forall>x. Preempt x \<notin> set ys)"
  using assms
proof (induction rule: continues.induct)
  case here
  then show ?case by simp
next
  case (step ys s' l s'')
  from step(3)[OF step(4)] step(5)
  have q: "\<forall>x. worker s' x = Unborn \<or> worker s' x = Exited" and n: "\<forall>x. Preempt x \<notin> set ys"
    by simp_all
  from step(5) have "\<forall>u. l \<noteq> Start u" by auto
  from step_quiet[OF step(2) q this] n show ?case by auto
qed

lemma after_Stop_return:
  assumes r: "run cfg ls s" and st: "step cfg s (Stop_return t) s1"
  shows "\<exists>j. pc s t = Stopping j \<and> singleton (ctx s) = j \<and> Join_returns s j"
    and "singleton (ctx s1) = None"
    and "\<forall>x. worker s1 x = Unborn \<or> worker s1 x = Exited"
proof -
  note D = switch_invD[OF run_switch_inv[OF r]]
  from st obtain j where j: "pc s t = Stopping j" "Join_returns s j"
    and s1: "s1 = s\<lparr>ctx := StopPreemption_end j (ctx s), pc := (pc s)(t := Idle)\<rparr>"
    by cases auto
  have sj: "singleton (ctx s) = j" by (rule D(5)[OF j(1)])
  show "\<exists>j. pc s t = Stopping j \<and> singleton (ctx s) = j \<and> Join_returns s j"
    using j sj by blast
  show "singleton (ctx s1) = None"
    unfolding s1 using sj by (simp add: StopPreemption_end_def split: option.splits)
  show "\<forall>x. worker s1 x = Unborn \<or> worker s1 x = Exited"
  proof
    fix x
    show "worker s1 x = Unborn \<or> worker s1 x = Exited"
    proof (cases "worker s x")
      case Loop_test
      then have "singleton (ctx s) = Some x" using D(1)[of x] by simp
      with sj have "j = Some x" by simp
      with j(2) have "worker s x = Exited" by (simp add: Join_returns_def)
      with Loop_test show ?thesis by simp
    next
      case Sleeping
      then have "singleton (ctx s) = Some x" using D(1)[of x] by simp
      with sj have "j = Some x" by simp
      with j(2) have "worker s x = Exited" by (simp add: Join_returns_def)
      with Sleeping show ?thesis by simp
    qed (simp_all add: s1)
  qed
qed

lemma Join_progress:
  assumes r: "run cfg ls s" and j: "pc s t = Stopping j"
  shows "\<exists>ls' s'. length ls' \<le> 2 \<and> continues cfg s ls' s' \<and>
           (\<exists>s''. step cfg s' (Stop_return t) s'')"
proof -
  note D = switch_invD[OF run_switch_inv[OF r]]
  have ret: "\<exists>s''. step cfg s' (Stop_return t) s''"
    if "pc s' t = Stopping j" "Join_returns s' j" for s'
    using step.stop_return[OF that] by blast
  show ?thesis
  proof (cases j)
    case None
    have "continues cfg s [] s" by (rule continues.here)
    moreover have "\<exists>s''. step cfg s (Stop_return t) s''"
      by (rule ret[OF j]) (simp add: None Join_returns_def)
    ultimately show ?thesis by (intro exI[of _ "[]"] exI[of _ s]) simp
  next
    case (Some x)
    have k: "\<not> keep_going (switchers (ctx s) x)" using D(6)[of t x] j Some by simp
    have b: "worker s x \<noteq> Unborn" using D(4)[of x] D(5)[OF j] Some by simp
    have leave: "\<exists>ls' s'. length ls' \<le> 1 \<and> continues cfg s0 ls' s' \<and>
           (\<exists>s''. step cfg s' (Stop_return t) s'')"
      if w: "worker s0 x = Loop_test" and p: "pc s0 t = Stopping j"
        and k0: "\<not> keep_going (switchers (ctx s0) x)" for s0
    proof -
      let ?s1 = "s0\<lparr>worker := (worker s0)(x := (if Run_test x (ctx s0) then Sleeping else Exited))\<rparr>"
      have 1: "step cfg s0 (Test x) ?s1" by (rule step.test[OF w])
      have 2: "continues cfg s0 ([] @ [Test x]) ?s1"
        by (rule continues.step[OF continues.here 1])
      have "\<exists>s''. step cfg ?s1 (Stop_return t) s''"
        by (rule ret) (simp_all add: p Some Join_returns_def Run_test_def k0)
      with 2 show ?thesis by (intro exI[of _ "[Test x]"] exI[of _ ?s1]) simp
    qed
    show ?thesis
    proof (cases "worker s x")
      case Unborn
      with b show ?thesis by simp
    next
      case Exited
      have "continues cfg s [] s" by (rule continues.here)
      moreover have "\<exists>s''. step cfg s (Stop_return t) s''"
        by (rule ret[OF j]) (simp add: Some Join_returns_def Exited)
      ultimately show ?thesis by (intro exI[of _ "[]"] exI[of _ s]) simp
    next
      case Loop_test
      from leave[OF Loop_test j k] show ?thesis by (meson le_trans one_le_numeral)
    next
      case Sleeping
      let ?s1 = "s\<lparr>ctx := Run_body x (ctx s), worker := (worker s)(x := Loop_test)\<rparr>"
      have 1: "step cfg s (Preempt x) ?s1" by (rule step.preempt[OF Sleeping])
      from leave[of ?s1] j k obtain ls' s' where
        l: "length ls' \<le> 1" and c: "continues cfg ?s1 ls' s'"
        and e: "\<exists>s''. step cfg s' (Stop_return t) s''"
        by (auto simp: Run_body_def emit_def)
      have "continues cfg s (Preempt x # ls') s'"
        using c
      proof (induction rule: continues.induct)
        case here
        from continues.step[OF continues.here 1] show ?case by simp
      next
        case (step ls s' l s'')
        from continues.step[OF step(3) step(2)] show ?case by simp
      qed
      with l e show ?thesis by (intro exI[of _ "Preempt x # ls'"] exI[of _ s']) simp
    qed
  qed
qed

text \<open>
  Claim C9. In every state of every run: at most one worker is inside its loop, and it is
  the one \<^verbatim>\<open>singleton_\<close> points to. \<^verbatim>\<open>StopPreemption\<close>, called with the lock held, clears
  \<^verbatim>\<open>keep_going_\<close> of the worker \<^verbatim>\<open>singleton_\<close> points to and waits for that worker; while
  it waits the flag stays clear, and the wait ends after at most two more steps of the
  worker. When \<^verbatim>\<open>StopPreemption\<close> returns, the worker it waited for has left \<^verbatim>\<open>Run\<close>,
  \<^verbatim>\<open>singleton_\<close> is \<^verbatim>\<open>NULL\<close> and no worker is inside its loop; from then on no worker that
  was ever started calls \<^verbatim>\<open>StackGuard::Preempt\<close> again, and nobody does until
  \<^verbatim>\<open>StartPreemption\<close> is called again.
\<close>
theorem no_preemption_after_stop:
  assumes "run cfg ls s"
  shows "(\<forall>x y. worker s x = Loop_test \<or> worker s x = Sleeping \<longrightarrow>
                worker s y = Loop_test \<or> worker s y = Sleeping \<longrightarrow> x = y) \<and>
         (\<forall>x. worker s x = Loop_test \<or> worker s x = Sleeping \<longrightarrow> singleton (ctx s) = Some x) \<and>
         (\<forall>t. IsLocked t (ctx s) \<longrightarrow>
            (\<exists>c'. StopPreemption_begin cfg t (ctx s) = Inr (singleton (ctx s), c') \<and>
                  singleton c' = singleton (ctx s) \<and>
                  (\<forall>x. singleton (ctx s) = Some x \<longrightarrow> \<not> keep_going (switchers c' x)))) \<and>
         (\<forall>t j. pc s t = Stopping j \<longrightarrow>
            singleton (ctx s) = j \<and>
            (\<forall>x. j = Some x \<longrightarrow> \<not> keep_going (switchers (ctx s) x)) \<and>
            (\<exists>ls' s'. length ls' \<le> 2 \<and> continues cfg s ls' s' \<and>
                      (\<exists>s''. step cfg s' (Stop_return t) s''))) \<and>
         (\<forall>t s1 ys s2. step cfg s (Stop_return t) s1 \<longrightarrow> continues cfg s1 ys s2 \<longrightarrow>
            (\<forall>x. singleton (ctx s) = Some x \<longrightarrow> worker s x = Exited) \<and>
            singleton (ctx s1) = None \<and>
            (\<forall>x. worker s1 x = Unborn \<or> worker s1 x = Exited) \<and>
            (\<forall>x. worker s1 x \<noteq> Unborn \<longrightarrow> Preempt x \<notin> set ys \<and> worker s2 x = Exited) \<and>
            ((\<forall>u. Start u \<notin> set ys) \<longrightarrow> (\<forall>x. Preempt x \<notin> set ys)))"
proof -
  note D = switch_invD[OF run_switch_inv[OF assms]]
  have 1: "\<forall>x y. worker s x = Loop_test \<or> worker s x = Sleeping \<longrightarrow>
                worker s y = Loop_test \<or> worker s y = Sleeping \<longrightarrow> x = y"
  proof (intro allI impI)
    fix x y
    assume "worker s x = Loop_test \<or> worker s x = Sleeping"
      and "worker s y = Loop_test \<or> worker s y = Sleeping"
    then show "x = y" using D(1)[of x] D(1)[of y] by simp
  qed
  have 2: "\<forall>x. worker s x = Loop_test \<or> worker s x = Sleeping \<longrightarrow> singleton (ctx s) = Some x"
    using D(1) by blast
  have 3: "\<forall>t. IsLocked t (ctx s) \<longrightarrow>
            (\<exists>c'. StopPreemption_begin cfg t (ctx s) = Inr (singleton (ctx s), c') \<and>
                  singleton c' = singleton (ctx s) \<and>
                  (\<forall>x. singleton (ctx s) = Some x \<longrightarrow> \<not> keep_going (switchers c' x)))"
  proof (intro allI impI)
    fix t assume l: "IsLocked t (ctx s)"
    show "\<exists>c'. StopPreemption_begin cfg t (ctx s) = Inr (singleton (ctx s), c') \<and>
                  singleton c' = singleton (ctx s) \<and>
                  (\<forall>x. singleton (ctx s) = Some x \<longrightarrow> \<not> keep_going (switchers c' x))"
      unfolding StopPreemption_begin_eq[OF l] by (auto split: option.splits)
  qed
  have 4: "\<forall>t j. pc s t = Stopping j \<longrightarrow>
            singleton (ctx s) = j \<and>
            (\<forall>x. j = Some x \<longrightarrow> \<not> keep_going (switchers (ctx s) x)) \<and>
            (\<exists>ls' s'. length ls' \<le> 2 \<and> continues cfg s ls' s' \<and>
                      (\<exists>s''. step cfg s' (Stop_return t) s''))"
  proof (intro allI impI conjI)
    fix t j assume j: "pc s t = Stopping j"
    show "singleton (ctx s) = j" by (rule D(5)[OF j])
    show "\<exists>ls' s'. length ls' \<le> 2 \<and> continues cfg s ls' s' \<and>
                      (\<exists>s''. step cfg s' (Stop_return t) s'')"
      by (rule Join_progress[OF assms j])
    fix x assume "j = Some x"
    with j show "\<not> keep_going (switchers (ctx s) x)" using D(6)[of t x] by simp
  qed
  have 5: "\<forall>t s1 ys s2. step cfg s (Stop_return t) s1 \<longrightarrow> continues cfg s1 ys s2 \<longrightarrow>
            (\<forall>x. singleton (ctx s) = Some x \<longrightarrow> worker s x = Exited) \<and>
            singleton (ctx s1) = None \<and>
            (\<forall>x. worker s1 x = Unborn \<or> worker s1 x = Exited) \<and>
            (\<forall>x. worker s1 x \<noteq> Unborn \<longrightarrow> Preempt x \<notin> set ys \<and> worker s2 x = Exited) \<and>
            ((\<forall>u. Start u \<notin> set ys) \<longrightarrow> (\<forall>x. Preempt x \<notin> set ys))"
  proof (intro allI impI conjI)
    fix t s1 ys s2
    assume st: "step cfg s (Stop_return t) s1" and c: "continues cfg s1 ys s2"
    note A = after_Stop_return[OF assms st]
    have r1: "run cfg (ls @ [Stop_return t]) s1" by (rule run.step[OF assms st])
    show "singleton (ctx s1) = None" by (rule A(2))
    show "worker s1 x = Unborn \<or> worker s1 x = Exited" for x using A(3) by blast
    show "worker s x = Exited" if "singleton (ctx s) = Some x" for x
      using A(1) that by (auto simp: Join_returns_def)
    show "Preempt x \<notin> set ys" if "worker s1 x \<noteq> Unborn" for x
    proof -
      from that A(3) have "worker s1 x = Exited" by blast
      from continues_Exited[OF c r1 this] show ?thesis by simp
    qed
    show "worker s2 x = Exited" if "worker s1 x \<noteq> Unborn" for x
    proof -
      from that A(3) have "worker s1 x = Exited" by blast
      from continues_Exited[OF c r1 this] show ?thesis by simp
    qed
    show "Preempt x \<notin> set ys" if "\<forall>u. Start u \<notin> set ys" for x
      using continues_quiet[OF c A(3) that] by simp
  qed
  show ?thesis by (intro conjI 1 2 3 4 5)
qed

lemma locked_system_simps:
  "pc locked_system = (\<lambda>_. Idle)" "worker locked_system = (\<lambda>_. Unborn)"
  "mutex_owner (ctx locked_system) = Some 101" "mutex (ctx locked_system) = Some 101"
  "singleton (ctx locked_system) = None" "switchers_allocated (ctx locked_system) = 0"
  "trace (ctx locked_system) = []"
  by (simp_all add: locked_system_def initial_system_def ThreadManagerData_eq empty_context_def)

lemma run_started_system:
  "run example_config [Acquire 101, Record 101, Start 101] started_system"
proof -
  have 1: "StartPreemption example_config 101 10 (ctx locked_system) =
             Inr (Some 0, ctx started_system)"
    by (simp add: StartPreemption_def new_ContextSwitcher_def failed_def IsLocked_def
        IsLockedByCurrentThread_def IsSelf_def locked_system_simps started_system_def Let_def)
  have "step example_config locked_system (Start 101)
          (locked_system\<lparr>ctx := ctx started_system,
             worker := (case Some 0 of None \<Rightarrow> worker locked_system
                        | Some x \<Rightarrow> (worker locked_system)(x := Loop_test))\<rparr>)"
    by (rule step.start[OF _ _ 1])
       (simp_all add: locked_system_simps IsLocked_def IsLockedByCurrentThread_def IsSelf_def)
  also have "locked_system\<lparr>ctx := ctx started_system,
             worker := (case Some 0 of None \<Rightarrow> worker locked_system
                        | Some x \<Rightarrow> (worker locked_system)(x := Loop_test))\<rparr> = started_system"
    by (simp add: started_system_def)
  finally show ?thesis using run.step[OF run_locked_system] by simp
qed

lemma started_system_simps:
  "pc started_system = (\<lambda>_. Idle)" "worker started_system = (\<lambda>_. Unborn)(0 := Loop_test)"
  "mutex_owner (ctx started_system) = Some 101"
  "singleton (ctx started_system) = Some 0"
  "keep_going (switchers (ctx started_system) 0)"
  by (simp_all add: started_system_def locked_system_simps)

lemma run_stopping_system:
  "run example_config
     [Acquire 101, Record 101, Start 101, Test 0, Preempt 0, Stop_begin 101] stopping_system"
proof -
  let ?s1 = "started_system\<lparr>worker := (worker started_system)(0 := Sleeping)\<rparr>"
  let ?s2 = "?s1\<lparr>ctx := Run_body 0 (ctx ?s1), worker := (worker ?s1)(0 := Loop_test)\<rparr>"
  have 1: "step example_config started_system (Test 0) ?s1"
    using step.test[of started_system 0 example_config]
    by (simp add: started_system_simps Run_test_def)
  have 2: "step example_config ?s1 (Preempt 0) ?s2"
    by (rule step.preempt) simp
  have 3: "StopPreemption_begin example_config 101 (ctx ?s2) = Inr (Some 0, ctx stopping_system)"
    by (simp add: StopPreemption_begin_def failed_def IsLocked_def IsLockedByCurrentThread_def
        IsSelf_def Run_body_def emit_def started_system_simps stopping_system_def)
       (simp add: started_system_def)
  have "step example_config ?s2 (Stop_begin 101)
          (?s2\<lparr>ctx := ctx stopping_system, pc := (pc ?s2)(101 := Stopping (Some 0))\<rparr>)"
    by (rule step.stop_begin[OF _ _ 3])
       (simp_all add: started_system_simps IsLocked_def IsLockedByCurrentThread_def IsSelf_def
          Run_body_def emit_def)
  also have "?s2\<lparr>ctx := ctx stopping_system, pc := (pc ?s2)(101 := Stopping (Some 0))\<rparr> =
             stopping_system"
    by (simp add: stopping_system_def started_system_simps)
  finally have 4: "step example_config ?s2 (Stop_begin 101) stopping_system" .
  from run.step[OF run.step[OF run.step[OF run_started_system 1] 2] 4]
  show ?thesis by simp
qed

lemma stopping_system_simps:
  "pc stopping_system = (\<lambda>_. Idle)(101 := Stopping (Some 0))"
  "worker stopping_system = (\<lambda>_. Unborn)(0 := Loop_test)"
  "singleton (ctx stopping_system) = Some 0"
  "\<not> keep_going (switchers (ctx stopping_system) 0)"
  "trace (ctx stopping_system) = [StackGuard_Preempt]"
  by (simp_all add: stopping_system_def started_system_simps started_system_def
      locked_system_simps)

lemma run_joined_system:
  "run example_config
     [Acquire 101, Record 101, Start 101, Test 0, Preempt 0, Stop_begin 101, Test 0]
     joined_system"
proof -
  have "step example_config stopping_system (Test 0) joined_system"
    using step.test[of stopping_system 0 example_config]
    by (simp add: stopping_system_simps Run_test_def joined_system_def)
  from run.step[OF run_stopping_system this] show ?thesis by simp
qed

lemma joined_system_simps:
  "pc joined_system = (\<lambda>_. Idle)(101 := Stopping (Some 0))"
  "worker joined_system = (\<lambda>_. Unborn)(0 := Exited)"
  "singleton (ctx joined_system) = Some 0"
  by (simp_all add: joined_system_def stopping_system_simps)

lemma step_stopped_system: "step example_config joined_system (Stop_return 101) stopped_system"
proof -
  have "step example_config joined_system (Stop_return 101)
          (joined_system\<lparr>ctx := StopPreemption_end (Some 0) (ctx joined_system),
             pc := (pc joined_system)(101 := Idle)\<rparr>)"
    by (rule step.stop_return) (simp_all add: joined_system_simps Join_returns_def)
  then show ?thesis by (simp add: stopped_system_def StopPreemption_end_def)
qed

lemma continues_released_system:
  "continues example_config stopped_system [Clear 101] released_system"
proof -
  have "step example_config stopped_system (Clear 101)
          (stopped_system\<lparr>ctx := clear_owner 101 (ctx stopped_system),
             pc := (pc stopped_system)(101 := Unlock_cleared)\<rparr>)"
    by (rule step.reset_owner) (simp add: stopped_system_def joined_system_simps)
  then have "step example_config stopped_system (Clear 101) released_system"
    by (simp add: released_system_def)
  from continues.step[OF continues.here this] show ?thesis by simp
qed

text \<open>
  The theorem at the run in which thread 101 starts preemption, the worker issues one
  request, and thread 101 stops preemption: \<^verbatim>\<open>StopPreemption\<close> clears the flag and waits,
  the worker leaves its loop, and after the return there is no further request.
\<close>
theorem no_preemption_after_stop_witness:
  "run example_config [Acquire 101, Record 101, Start 101] started_system \<and>
   IsLocked 101 (ctx started_system) \<and> singleton (ctx started_system) = Some 0 \<and>
   (\<exists>c'. StopPreemption_begin example_config 101 (ctx started_system) = Inr (Some 0, c') \<and>
         \<not> keep_going (switchers c' 0)) \<and>
   run example_config
     [Acquire 101, Record 101, Start 101, Test 0, Preempt 0, Stop_begin 101] stopping_system \<and>
   pc stopping_system 101 = Stopping (Some 0) \<and>
   worker stopping_system 0 = Loop_test \<and>
   singleton (ctx stopping_system) = Some 0 \<and>
   \<not> keep_going (switchers (ctx stopping_system) 0) \<and>
   run example_config
     [Acquire 101, Record 101, Start 101, Test 0, Preempt 0, Stop_begin 101, Test 0]
     joined_system \<and>
   step example_config joined_system (Stop_return 101) stopped_system \<and>
   continues example_config stopped_system [Clear 101] released_system \<and>
   worker joined_system 0 = Exited \<and>
   singleton (ctx stopped_system) = None \<and>
   worker stopped_system 0 \<noteq> Unborn \<and>
   Preempt 0 \<notin> set [Clear 101] \<and>
   worker released_system 0 = Exited \<and>
   trace (ctx released_system) = [StackGuard_Preempt]"
proof -
  note A = no_preemption_after_stop[OF run_started_system,
      THEN conjunct2, THEN conjunct2, THEN conjunct1, rule_format]
  note B2 = no_preemption_after_stop[OF run_stopping_system,
      THEN conjunct2, THEN conjunct1, rule_format]
  note B4 = no_preemption_after_stop[OF run_stopping_system,
      THEN conjunct2, THEN conjunct2, THEN conjunct2, THEN conjunct1, rule_format]
  note C = no_preemption_after_stop[OF run_joined_system,
      THEN conjunct2, THEN conjunct2, THEN conjunct2, THEN conjunct2, rule_format,
      OF step_stopped_system continues_released_system]
  have l: "IsLocked 101 (ctx started_system)"
    by (simp add: IsLocked_def IsLockedByCurrentThread_def IsSelf_def started_system_simps)
  have s0: "singleton (ctx started_system) = Some 0" by (simp add: started_system_simps)
  from A[OF l] obtain c' where
    "StopPreemption_begin example_config 101 (ctx started_system) =
       Inr (singleton (ctx started_system), c')"
    "\<forall>x. singleton (ctx started_system) = Some x \<longrightarrow> \<not> keep_going (switchers c' x)"
    by blast
  with s0 have a: "\<exists>c'. StopPreemption_begin example_config 101 (ctx started_system) =
       Inr (Some 0, c') \<and> \<not> keep_going (switchers c' 0)"
    by auto
  have j: "pc stopping_system 101 = Stopping (Some 0)" by (simp add: stopping_system_simps)
  have w: "worker stopping_system 0 = Loop_test" by (simp add: stopping_system_simps)
  from B2[of 0] w have b1: "singleton (ctx stopping_system) = Some 0" by simp
  from B4[OF j] have b2: "\<not> keep_going (switchers (ctx stopping_system) 0)" by simp
  have sj: "singleton (ctx joined_system) = Some 0" by (simp add: joined_system_simps)
  have u: "worker stopped_system 0 \<noteq> Unborn"
    by (simp add: stopped_system_def joined_system_simps)
  have t: "trace (ctx released_system) = [StackGuard_Preempt]"
    by (simp add: released_system_def stopped_system_def joined_system_def clear_owner_def
        stopping_system_simps)
  from C sj have c1: "worker joined_system 0 = Exited" by blast
  from C have c2: "singleton (ctx stopped_system) = None" by blast
  from C u have c3: "Preempt 0 \<notin> set [Clear 101]" by blast
  from C u have c4: "worker released_system 0 = Exited" by blast
  show ?thesis
    by (intro conjI run_started_system l s0 a run_stopping_system j w b1 b2 run_joined_system
        step_stopped_system continues_released_system c1 c2 u c3 c4 t)
qed

end
